(* ===== verification/Prelude.thy ===== *)
theory Prelude
  imports Main "HOL-Library.Word"
begin

text \<open>
  What every component shares: the machine types of the code (LP64: \<open>unsigned\<close> is 32 bits,
  \<open>size_t\<close> and \<open>unsigned long long\<close> are 64 bits), the ways an operation can go wrong, the
  result type that carries them, and generic facts on words, lists and maps that the
  components' proofs use.
\<close>

section \<open>Machine types\<close>

type_synonym u32 = "32 word"
type_synonym u64 = "64 word"
type_synonym byte = "8 word"

text \<open>The largest \<open>int\<close>.\<close>

abbreviation (input) int_max :: int where
  "int_max \<equiv> 2147483647"

section \<open>Faults and results\<close>

text \<open>
  A \<open>fault\<close> is an exception thrown, an assertion that aborts, or an execution C++ leaves
  undefined. The first group are the exception classes of the code and of the standard library.
\<close>

datatype fault =
    Invalid_index            \<comment> \<open>\<open>invalid_index_exception\<close> of the ring buffer\<close>
  | Empty_buffer             \<comment> \<open>\<open>empty_buffer_exception\<close> of the ring buffer\<close>
  | Runtime_error string     \<comment> \<open>\<open>std::runtime_error\<close>\<close>
  | Out_of_range             \<comment> \<open>\<open>std::out_of_range\<close> (\<open>vector::at\<close>, \<open>string::substr\<close>)\<close>
  | Bad_alloc                \<comment> \<open>\<open>operator new[]\<close> refuses the size\<close>
  | Assert_failed            \<comment> \<open>\<open>assert\<close> aborts\<close>
  | Out_of_bounds            \<comment> \<open>access outside an array: undefined\<close>
  | Div_by_zero              \<comment> \<open>integer division or remainder by zero: undefined\<close>
  | Int_overflow             \<comment> \<open>signed overflow: undefined\<close>
  | Null_deref               \<comment> \<open>dereference of a null or uninitialised pointer: undefined\<close>
  | Use_after_free           \<comment> \<open>access to a deleted object: undefined\<close>

type_synonym 'a res = "fault + 'a"

fun bindr :: "'a res \<Rightarrow> ('a \<Rightarrow> 'b res) \<Rightarrow> 'b res" where
  "bindr (Inl e) f = Inl e"
| "bindr (Inr v) f = f v"

fun is_ok :: "'a res \<Rightarrow> bool" where
  "is_ok (Inl e) = False"
| "is_ok (Inr v) = True"

lemma bindr_cong [fundef_cong]:
  "x = y \<Longrightarrow> (\<And>v. y = Inr v \<Longrightarrow> f v = g v) \<Longrightarrow> bindr x f = bindr y g"
  by (cases y) auto

lemma bindr_Inr_iff: "bindr x f = Inr y \<longleftrightarrow> (\<exists>v. x = Inr v \<and> f v = Inr y)"
  by (cases x) auto

lemma bindr_assoc: "bindr (bindr x f) g = bindr x (\<lambda>v. bindr (f v) g)"
  by (cases x) auto

lemma is_ok_iff: "is_ok r \<longleftrightarrow> (\<exists>v. r = Inr v)"
  by (cases r) auto

text \<open>The codes the operations of the program return to each other.\<close>

(* src/cpp/fpgaml_rc.h:9-20 RC *)
datatype RC =
    ML_SUCCESS | ML_ERROR | ML_INIT_ERROR | ML_WRONG_PARAM | ML_ROUTE_ERROR
  | ML_HMAP_INSERT_ERROR | ML_HMAP_NOT_FOUND_ERROR | ML_ERROR_TOO_MANY_NDR
  | ML_ERROR_CMDQ_RELEASED

section \<open>Collections of facts the proofs share\<close>

named_theorems abs_simps "what an operation does to the abstract value of its state"
named_theorems wf_intros "each operation keeps the well-formedness of its state"

section \<open>Words read as natural numbers\<close>

lemma unat_add_nowrap:
  "unat a + unat b < 2 ^ LENGTH('a) \<Longrightarrow> unat (a + b) = unat a + unat (b :: 'a::len word)"
  by (simp add: unat_word_ariths)

lemma unat_inc_nowrap:
  "unat a + 1 < 2 ^ LENGTH('a) \<Longrightarrow> unat (a + 1) = unat (a :: 'a::len word) + 1"
  by (simp add: unat_word_ariths)

lemma word_inc_nonzero: "c \<noteq> -1 \<Longrightarrow> c + 1 \<noteq> (0 :: 'a :: len word)"
  by (metis add_eq_0_iff minus_equation_iff)

lemma unat_dec: "a \<noteq> 0 \<Longrightarrow> unat (a - 1) = unat (a :: 'a::len word) - 1"
  by (simp add: unat_minus_one)

lemma unat_pos: "a \<noteq> 0 \<Longrightarrow> 0 < unat (a :: 'a::len word)"
  by (simp add: unat_gt_0)

lemma unat_bound64: "unat (a :: u64) < 2 ^ 64"
  by (rule order.strict_trans2 [OF unsigned_less]) simp

lemma unat_bound32: "unat (a :: u32) < 2 ^ 32"
  by (rule order.strict_trans2 [OF unsigned_less]) simp

lemma unat_of_nat_small:
  "n < 2 ^ LENGTH('a) \<Longrightarrow> unat (of_nat n :: 'a::len word) = n"
  by (simp add: unat_of_nat take_bit_nat_eq_self)

text \<open>A small \<open>size_t\<close> survives the conversion to \<open>int\<close>.\<close>

lemma sint_small:
  assumes "unat x < 2 ^ 31"
  shows "sint (x :: u32) = int (unat x)"
proof -
  have "int (unat x) < int (2 ^ 31)" using assms by (simp only: of_nat_less_iff)
  then have "uint x < 2 ^ 31" by simp
  moreover have "- (2 ^ 31) \<le> uint x" by (rule order.trans [OF _ uint_ge_0]) simp
  ultimately have "signed_take_bit 31 (uint x) = uint x"
    by (intro signed_take_bit_int_eq_self)
  then show ?thesis by (subst sint_uint) simp
qed

lemma unat_ucast_small:
  "unat x < 2 ^ LENGTH('b) \<Longrightarrow> unat (ucast x :: 'b::len word) = unat (x :: 'a::len word)"
  by (subst unsigned_ucast_eq) (rule take_bit_nat_eq_self)

lemma sint_ucast_small:
  "unat x < 2 ^ 31 \<Longrightarrow> sint (ucast (x :: u64) :: u32) = int (unat x)"
  by (simp add: sint_small unat_ucast_small)

lemma mult_less_pow:
  fixes a b :: nat
  assumes "a < 2 ^ m" and "b < 2 ^ n"
  shows "a * b < 2 ^ (m + n)"
proof -
  have "a * b < 2 ^ m * 2 ^ n"
    using assms by (intro mult_strict_mono) auto
  then show ?thesis by (simp add: power_add)
qed

section \<open>The window of a ring\<close>

text \<open>
  \<open>ring_view arr s n\<close> is the list of the \<open>n\<close> slots of the ring \<open>arr\<close> from slot \<open>s\<close> on.
\<close>

definition ring_view :: "'a list \<Rightarrow> nat \<Rightarrow> nat \<Rightarrow> 'a list" where
  "ring_view arr s n = map (\<lambda>i. arr ! ((s + i) mod length arr)) [0..<n]"

lemma length_ring_view [simp]: "length (ring_view arr s n) = n"
  by (simp add: ring_view_def)

lemma ring_view_0 [simp]: "ring_view arr s 0 = []"
  by (simp add: ring_view_def)

lemma nth_ring_view [simp]:
  "i < n \<Longrightarrow> ring_view arr s n ! i = arr ! ((s + i) mod length arr)"
  by (simp add: ring_view_def)

lemma ring_slot_inj:
  fixes s i j n :: nat
  assumes "i < n" and "j < n" and "(s + i) mod n = (s + j) mod n"
  shows "i = j"
proof (rule ccontr)
  assume "i \<noteq> j"
  have less: "False" if h: "a < b" "b < n" "(s + a) mod n = (s + b) mod n" for a b
  proof -
    have "(s + b) mod n = (s + a) mod n" using h(3) by simp
    then have "n dvd (s + b) - (s + a)"
      by (metis add_le_cancel_left h(1) less_imp_le mod_eq_dvd_iff_nat)
    then have "n dvd b - a" by simp
    with h show False by (auto dest: dvd_imp_le)
  qed
  from \<open>i \<noteq> j\<close> consider "i < j" | "j < i" by linarith
  then show False
    using assms less by cases metis+
qed

lemma ring_view_snoc:
  "ring_view arr s (Suc n) = ring_view arr s n @ [arr ! ((s + n) mod length arr)]"
  by (simp add: ring_view_def)

lemma ring_view_update_other:
  assumes "n \<le> k" and "k < length arr"
  shows "ring_view (arr[(s + k) mod length arr := v]) s n = ring_view arr s n"
proof (rule nth_equalityI)
  fix i assume "i < length (ring_view (arr[(s + k) mod length arr := v]) s n)"
  then have i: "i < n" by simp
  with assms have "(s + k) mod length arr \<noteq> (s + i) mod length arr"
    using ring_slot_inj [of k "length arr" i s] by auto
  with i show "ring_view (arr[(s + k) mod length arr := v]) s n ! i = ring_view arr s n ! i"
    by simp
qed simp

lemma ring_view_push_back:
  assumes "n < length arr"
  shows "ring_view (arr[(s + n) mod length arr := v]) s (Suc n) = ring_view arr s n @ [v]"
proof -
  have "(s + n) mod length arr < length arr"
    using assms by (intro mod_less_divisor) linarith
  with assms show ?thesis
    by (simp add: ring_view_snoc ring_view_update_other)
qed

lemma ring_view_shift:
  assumes "0 < length arr"
  shows "ring_view arr s (Suc n) =
    arr ! (s mod length arr) # ring_view arr ((s + 1) mod length arr) n"
proof (rule nth_equalityI)
  fix i assume "i < length (ring_view arr s (Suc n))"
  then have i: "i < Suc n" by simp
  show "ring_view arr s (Suc n) ! i =
    (arr ! (s mod length arr) # ring_view arr ((s + 1) mod length arr) n) ! i"
  proof (cases i)
    case 0
    then show ?thesis by simp
  next
    case (Suc j)
    with i have "j < n" by simp
    moreover have "((s + 1) mod length arr + j) mod length arr = (s + Suc j) mod length arr"
      by (simp add: mod_add_left_eq)
    ultimately show ?thesis using Suc i by simp
  qed
qed simp

lemma ring_view_mod:
  "ring_view arr (s mod length arr) n = ring_view arr s n"
  by (simp add: ring_view_def mod_add_left_eq)

lemma ring_view_set:
  assumes "n \<le> length arr" and "i < n"
  shows "ring_view (arr[(s + i) mod length arr := v]) s n = (ring_view arr s n)[i := v]"
proof (rule nth_equalityI)
  fix j assume "j < length (ring_view (arr[(s + i) mod length arr := v]) s n)"
  then have j: "j < n" by simp
  have lt: "(s + i) mod length arr < length arr"
    using assms by (intro mod_less_divisor) linarith
  show "ring_view (arr[(s + i) mod length arr := v]) s n ! j = (ring_view arr s n)[i := v] ! j"
  proof (cases "i = j")
    case True
    with j lt show ?thesis by simp
  next
    case False
    with assms j have "(s + i) mod length arr \<noteq> (s + j) mod length arr"
      using ring_slot_inj [of i "length arr" j s] by auto
    with False j show ?thesis by simp
  qed
qed simp

section \<open>Lists\<close>

lemma rev_butlast: "rev (butlast xs) = tl (rev xs)"
  by (cases xs rule: rev_cases) auto

lemma length_lt_2_31: "length xs \<le> 100 \<Longrightarrow> length xs < 2 ^ 31"
  by simp

lemma newest_absorb:
  assumes "m \<le> length ys - b"
  shows "drop (length (drop m ys) - b) (drop m ys) = drop (length ys - b) ys"
proof -
  have "length (drop m ys) - b + m = length ys - b" using assms by simp
  then show ?thesis by (simp only: drop_drop)
qed

section \<open>Folding fallible operations\<close>

text \<open>A loop whose body may fail stops at the first fault.\<close>

fun foldr_res :: "('a \<Rightarrow> 's \<Rightarrow> 's res) \<Rightarrow> 'a list \<Rightarrow> 's \<Rightarrow> 's res" where
  "foldr_res f [] s = Inr s"
| "foldr_res f (x # xs) s = bindr (f x s) (foldr_res f xs)"

lemma foldr_res_append:
  "foldr_res f (xs @ ys) s = bindr (foldr_res f xs s) (foldr_res f ys)"
  by (induction xs arbitrary: s) (auto simp: bindr_assoc intro!: bindr_cong)

lemma foldr_res_invariant:
  assumes "\<And>x s s'. P s \<Longrightarrow> f x s = Inr s' \<Longrightarrow> P s'"
  shows "P s \<Longrightarrow> foldr_res f xs s = Inr s' \<Longrightarrow> P s'"
  using assms by (induction xs arbitrary: s) (auto simp: bindr_Inr_iff)

section \<open>Little-endian bytes\<close>

text \<open>
  \<open>memcpy\<close> of an \<open>n\<close>-byte unsigned integer to and from memory, in the byte order of the
  machines the Makefile builds for (x86-64 and AArch64 Linux).
\<close>

fun le_bytes :: "nat \<Rightarrow> nat \<Rightarrow> byte list" where
  "le_bytes 0 w = []"
| "le_bytes (Suc n) w = of_nat (w mod 256) # le_bytes n (w div 256)"

fun le_nat :: "byte list \<Rightarrow> nat" where
  "le_nat [] = 0"
| "le_nat (b # bs) = unat b + 256 * le_nat bs"

lemma length_le_bytes [simp]: "length (le_bytes n w) = n"
  by (induction n arbitrary: w) simp_all

lemma le_nat_le_bytes: "le_nat (le_bytes n w) = w mod 256 ^ n"
proof (induction n arbitrary: w)
  case 0
  then show ?case by simp
next
  case (Suc n)
  have u: "unat (of_nat (w mod 256) :: byte) = w mod 256"
    by (rule unat_of_nat_small) simp
  have "w mod (256 * 256 ^ n) = 256 * (w div 256 mod 256 ^ n) + w mod 256"
    by (rule mod_mult2_eq)
  then show ?case using Suc u by simp
qed

lemma le_nat_le_bytes_u64 [simp]: "le_nat (le_bytes 8 (unat (x :: u64))) = unat x"
  using unat_bound64 [of x] by (simp add: le_nat_le_bytes)

section \<open>Heaps of objects\<close>

text \<open>
  Heap objects are addressed by natural numbers; a null pointer is \<open>None\<close> of \<open>ptr option\<close>.
  Reading an address that holds no object is a use after \<open>delete\<close>.
\<close>

type_synonym ptr = nat
type_synonym 'o heap = "ptr \<rightharpoonup> 'o"

definition deref :: "'o heap \<Rightarrow> ptr \<Rightarrow> 'o res" where
  "deref h p = (case h p of None \<Rightarrow> Inl Use_after_free | Some x \<Rightarrow> Inr x)"

definition nonnull :: "ptr option \<Rightarrow> ptr res" where
  "nonnull p = (case p of None \<Rightarrow> Inl Null_deref | Some a \<Rightarrow> Inr a)"

lemma deref_simps [simp]:
  "h p = Some x \<Longrightarrow> deref h p = Inr x" "h p = None \<Longrightarrow> deref h p = Inl Use_after_free"
  by (simp_all add: deref_def)

lemma nonnull_simps [simp]: "nonnull None = Inl Null_deref" "nonnull (Some a) = Inr a"
  by (simp_all add: nonnull_def)

lemma deref_Inr_iff: "deref h p = Inr x \<longleftrightarrow> h p = Some x"
  by (auto simp: deref_def split: option.splits)

end
