(* ===== verification/Algo_Search.thy ===== *)
theory Algo_Search
  imports Prelude Complex_Main
begin

text \<open>
  The search at the heart of \<^verbatim>\<open>cpp/algo_simple.cc\<close>: \<open>recursive_function\<close> tries every way to
  distribute a number of work groups over the suitable islands, \<open>calculate_total\<close> prices each
  complete distribution and keeps the cheapest. Costs and counts are C \<open>int\<close>s: the model's
  integers, with a fault where the code's arithmetic would overflow.
\<close>

section \<open>State\<close>

(* src/cpp/algo_simple.cc:8-8 UNSUITABLE_ISLAND *)
definition UNSUITABLE_ISLAND :: int where
  "UNSUITABLE_ISLAND = -13"

(* src/cpp/algo_simple.h:43-66 AlgoSimple *)
record algo_simple =
  m_num_islands :: nat
  m_wgs_per_islands :: "int list"
  m_work_in_progress_cost :: "int list"
  m_current_work_potential_cost :: "int list"
  m_current_work_reconf_cost :: "int list"
  m_result :: "int list"
  m_current_min :: int

(* src/cpp/algo_simple.cc:10-20 AlgoSimple::AlgoSimple *)
definition new_AlgoSimple :: "nat \<Rightarrow> algo_simple" where
  "new_AlgoSimple num_sched =
     \<lparr>m_num_islands = num_sched, m_wgs_per_islands = replicate num_sched 0,
      m_work_in_progress_cost = replicate num_sched 0,
      m_current_work_potential_cost = replicate num_sched 0,
      m_current_work_reconf_cost = replicate num_sched 0, m_result = replicate num_sched 0,
      m_current_min = -1\<rparr>"

section \<open>Signed arithmetic and vectors\<close>

abbreviation in_int :: "int \<Rightarrow> bool" where
  "in_int x \<equiv> - (2 ^ 31) \<le> x \<and> x < 2 ^ 31"

definition c_int :: "int \<Rightarrow> int res" where
  "c_int x = (if in_int x then Inr x else Inl Int_overflow)"

definition vec_get :: "'a list \<Rightarrow> nat \<Rightarrow> 'a res" where
  "vec_get v i = (if i < length v then Inr (v ! i) else Inl Out_of_bounds)"

definition vec_set :: "'a list \<Rightarrow> nat \<Rightarrow> 'a \<Rightarrow> 'a list res" where
  "vec_set v i x = (if i < length v then Inr (v[i := x]) else Inl Out_of_bounds)"

section \<open>The search\<close>

text \<open>The cost of island \<open>i\<close> in the current distribution, with the code's order of operations.\<close>

(* src/cpp/algo_simple.cc:38-39 AlgoSimple::calculate_total (cost) *)
definition island_cost :: "algo_simple \<Rightarrow> nat \<Rightarrow> int res" where
  "island_cost a i =
     bindr (vec_get (m_wgs_per_islands a) i) (\<lambda>n.
     bindr (vec_get (m_current_work_potential_cost a) i) (\<lambda>c.
     bindr (vec_get (m_work_in_progress_cost a) i) (\<lambda>p.
     bindr (vec_get (m_current_work_reconf_cost a) i) (\<lambda>r.
     bindr (c_int (n * c)) (\<lambda>x. bindr (c_int (x + p)) (\<lambda>y. c_int (y + r)))))))"

(* src/cpp/algo_simple.cc:33-45 AlgoSimple::calculate_total (loop) *)
fun max_loop :: "algo_simple \<Rightarrow> nat list \<Rightarrow> int \<Rightarrow> int res" where
  "max_loop a [] m = Inr m"
| "max_loop a (i # is) m =
     bindr (vec_get (m_wgs_per_islands a) i) (\<lambda>n.
       if n > 0 then bindr (island_cost a i) (\<lambda>c. max_loop a is (if c > m then c else m))
       else max_loop a is m)"

(* src/cpp/algo_simple.cc:24-76 AlgoSimple::calculate_total *)
definition calculate_total :: "algo_simple \<Rightarrow> algo_simple res" where
  "calculate_total a =
     bindr (max_loop a [0..<m_num_islands a] 0) (\<lambda>m.
       Inr (if m < m_current_min a \<or> m_current_min a < 0
            then a\<lparr>m_current_min := m, m_result := m_wgs_per_islands a\<rparr>
            else a))"

text \<open>
  The recursion and its do-while loop. The number of islands is constant during the search and
  is passed along, so that the recursion is seen to end; an index past the vector is a fault.
\<close>

(* src/cpp/algo_simple.cc:103-135 AlgoSimple::recursive_function *)
function recursive_function :: "nat \<Rightarrow> algo_simple \<Rightarrow> int \<Rightarrow> nat \<Rightarrow> algo_simple res"
  and recursive_loop :: "nat \<Rightarrow> algo_simple \<Rightarrow> int \<Rightarrow> nat \<Rightarrow> int \<Rightarrow> algo_simple res" where
  "recursive_function n a num_items start_index =
     (if start_index = n then (if num_items = 0 then calculate_total a else Inr a)
      else if start_index > n then Inl Out_of_bounds
      else bindr (vec_get (m_wgs_per_islands a) start_index) (\<lambda>x.
        if x = UNSUITABLE_ISLAND then recursive_function n a num_items (start_index + 1)
        else recursive_loop n a num_items start_index 0))"
| "recursive_loop n a num_items start_index counter =
     (if start_index \<ge> n then Inl Out_of_bounds
      else bindr (vec_set (m_wgs_per_islands a) start_index (num_items - counter)) (\<lambda>v.
        bindr (recursive_function n (a\<lparr>m_wgs_per_islands := v\<rparr>) counter (start_index + 1)) (\<lambda>a'.
          if num_items \<ge> int_max then Inl Int_overflow
          else if counter + 1 < num_items + 1
               then recursive_loop n a' num_items start_index (counter + 1)
               else Inr a')))"
  by pat_completeness auto
termination
  by (relation "measures [(\<lambda>x. case x of Inl (n, a, k, s) \<Rightarrow> n - s | Inr (n, a, k, s, c) \<Rightarrow> n - s),
        (\<lambda>x. case x of Inl (n, a, k, s) \<Rightarrow> 1 | Inr (n, a, k, s, c) \<Rightarrow> 0),
        (\<lambda>x. case x of Inl (n, a, k, s) \<Rightarrow> 0 | Inr (n, a, k, s, c) \<Rightarrow> nat (k - c))]") auto

declare recursive_function.simps [simp del] recursive_loop.simps [simp del]

section \<open>What the search is to compute\<close>

text \<open>
  The distributions of \<open>k\<close> groups over islands of which the flags name the suitable ones, in
  the order the search visits them.
\<close>

fun dists :: "bool list \<Rightarrow> int \<Rightarrow> int list list" where
  "dists [] k = (if k = 0 then [[]] else [])"
| "dists (False # fs) k = map ((#) UNSUITABLE_ISLAND) (dists fs k)"
| "dists (True # fs) k = concat (map (\<lambda>c. map ((#) (k - c)) (dists fs c)) [0..k])"

text \<open>A distribution, said without an order.\<close>

definition is_dist :: "bool list \<Rightarrow> int \<Rightarrow> int list \<Rightarrow> bool" where
  "is_dist fs k d \<longleftrightarrow> length d = length fs \<and>
     (\<forall>i<length fs. if fs ! i then 0 \<le> d ! i else d ! i = UNSUITABLE_ISLAND) \<and>
     sum_list (map (\<lambda>i. if fs ! i then d ! i else 0) [0..<length fs]) = k"

lemma is_dist_Nil: "is_dist [] k d \<longleftrightarrow> d = [] \<and> k = 0"
  by (auto simp: is_dist_def)

lemma is_dist_Cons:
  "is_dist (f # fs) k d \<longleftrightarrow> (\<exists>x ds. d = x # ds \<and>
     (if f then 0 \<le> x \<and> is_dist fs (k - x) ds else x = UNSUITABLE_ISLAND \<and> is_dist fs k ds))"
proof (cases d)
  case Nil
  then show ?thesis by (simp add: is_dist_def)
next
  case (Cons x ds)
  have s: "map (\<lambda>i. if (f # fs) ! i then (x # ds) ! i else 0) [0..<length (f # fs)] =
      (if f then x else 0) # map (\<lambda>i. if fs ! i then ds ! i else 0) [0..<length fs]"
    by (simp add: upt_conv_Cons map_Suc_upt [symmetric] del: upt_Suc)
  have a: "(\<forall>i<length (f # fs). if (f # fs) ! i then 0 \<le> (x # ds) ! i else (x # ds) ! i = UNSUITABLE_ISLAND) \<longleftrightarrow>
      (if f then 0 \<le> x else x = UNSUITABLE_ISLAND) \<and>
      (\<forall>i<length fs. if fs ! i then 0 \<le> ds ! i else ds ! i = UNSUITABLE_ISLAND)"
    by (auto simp: All_less_Suc2)
  show ?thesis unfolding is_dist_def Cons s a by (auto split: if_splits)
qed

lemma is_dist_nonneg: "is_dist fs k d \<Longrightarrow> 0 \<le> k"
proof (induction fs arbitrary: k d)
  case Nil
  then show ?case by (simp add: is_dist_Nil)
next
  case (Cons f fs)
  then show ?case by (fastforce simp: is_dist_Cons split: if_splits)
qed

lemma set_dists: "d \<in> set (dists fs k) \<longleftrightarrow> is_dist fs k d"
proof (induction fs k arbitrary: d rule: dists.induct)
  case (1 k)
  then show ?case by (auto simp: is_dist_Nil)
next
  case (2 fs k)
  then show ?case by (auto simp: is_dist_Cons)
next
  case (3 fs k)
  show ?case
  proof
    assume "d \<in> set (dists (True # fs) k)"
    then obtain c ds where "c \<in> set [0..k]" "d = (k - c) # ds" "ds \<in> set (dists fs c)" by auto
    then show "is_dist (True # fs) k d" using 3 by (auto simp: is_dist_Cons)
  next
    assume "is_dist (True # fs) k d"
    then obtain x ds where x: "d = x # ds" "0 \<le> x" "is_dist fs (k - x) ds"
      by (auto simp: is_dist_Cons)
    then have "0 \<le> k - x" using is_dist_nonneg by blast
    then have c: "k - x \<in> set [0..k]" using x(2) by simp
    then have "ds \<in> set (dists fs (k - x))" using 3 x(3) by blast
    then show "d \<in> set (dists (True # fs) k)" using c x(1) by (auto intro!: bexI [of _ "k - x"])
  qed
qed

text \<open>What a distribution costs: the time of the slowest island that gets work.\<close>

definition dist_cost :: "algo_simple \<Rightarrow> int list \<Rightarrow> int" where
  "dist_cost a d =
     fold (\<lambda>i m. if d ! i > 0
       then max m (d ! i * m_current_work_potential_cost a ! i + m_work_in_progress_cost a ! i
                   + m_current_work_reconf_cost a ! i)
       else m) [0..<m_num_islands a] 0"

definition take_if_better :: "int list \<Rightarrow> algo_simple \<Rightarrow> algo_simple" where
  "take_if_better d a =
     (if dist_cost a d < m_current_min a \<or> m_current_min a < 0
      then a\<lparr>m_current_min := dist_cost a d, m_result := d\<rparr> else a)"

section \<open>The loops of one distribution\<close>

text \<open>
  Lengths and signs of the cost vectors, and room in \<open>int\<close> for \<open>K\<close> groups on one island. The
  flags \<open>G\<close> name the suitable islands.
\<close>

definition costs_ok :: "bool list \<Rightarrow> algo_simple \<Rightarrow> int \<Rightarrow> bool" where
  "costs_ok G a K \<longleftrightarrow> length G = m_num_islands a \<and>
     length (m_current_work_potential_cost a) = length G \<and>
     length (m_work_in_progress_cost a) = length G \<and>
     length (m_current_work_reconf_cost a) = length G \<and>
     (\<forall>i<length G. G ! i \<longrightarrow> 0 \<le> m_current_work_potential_cost a ! i \<and>
        0 \<le> m_work_in_progress_cost a ! i \<and> 0 \<le> m_current_work_reconf_cost a ! i \<and>
        K * m_current_work_potential_cost a ! i + m_work_in_progress_cost a ! i +
          m_current_work_reconf_cost a ! i < 2 ^ 31)"

definition fits :: "bool list \<Rightarrow> int \<Rightarrow> int list \<Rightarrow> bool" where
  "fits G K v \<longleftrightarrow> (\<forall>i<length v. 0 < v ! i \<longrightarrow> G ! i \<and> v ! i \<le> K)"

lemma island_cost_ok:
  assumes ok: "costs_ok G a K" and l: "length (m_wgs_per_islands a) = length G"
    and f: "fits G K (m_wgs_per_islands a)" and i: "i < length G" "0 < m_wgs_per_islands a ! i"
  shows "island_cost a i = Inr (m_wgs_per_islands a ! i * m_current_work_potential_cost a ! i +
    m_work_in_progress_cost a ! i + m_current_work_reconf_cost a ! i)"
proof -
  let ?n = "m_wgs_per_islands a ! i" and ?c = "m_current_work_potential_cost a ! i"
  let ?p = "m_work_in_progress_cost a ! i" and ?r = "m_current_work_reconf_cost a ! i"
  have g: "G ! i" "?n \<le> K" using f i l by (simp_all add: fits_def)
  then have c: "0 \<le> ?c" "0 \<le> ?p" "0 \<le> ?r" "K * ?c + ?p + ?r < 2 ^ 31"
    using ok i by (simp_all add: costs_ok_def)
  have "?n * ?c \<le> K * ?c" using g c by (intro mult_right_mono) simp_all
  moreover have "0 \<le> ?n * ?c" using i c by simp
  ultimately have "in_int (?n * ?c)" "in_int (?n * ?c + ?p)" "in_int (?n * ?c + ?p + ?r)"
    using c by linarith+
  then show ?thesis using ok l i by (simp add: island_cost_def vec_get_def c_int_def costs_ok_def)
qed

lemma max_loop_ok:
  assumes "costs_ok G a K" and "length (m_wgs_per_islands a) = length G"
    and "fits G K (m_wgs_per_islands a)" and "set is \<subseteq> {..<length G}"
  shows "max_loop a is m = Inr (fold (\<lambda>i m. if m_wgs_per_islands a ! i > 0
       then max m (m_wgs_per_islands a ! i * m_current_work_potential_cost a ! i +
          m_work_in_progress_cost a ! i + m_current_work_reconf_cost a ! i)
       else m) is m)"
  using assms(4)
proof (induction "is" arbitrary: m)
  case Nil
  then show ?case by simp
next
  case (Cons i "is")
  then have i: "i < length G" by simp
  show ?case
    using Cons i assms(2) island_cost_ok [OF assms(1-3) i]
    by (simp add: vec_get_def max_def not_le)
qed

lemma calculate_total_ok:
  assumes "costs_ok G a K" and "length (m_wgs_per_islands a) = length G"
    and "fits G K (m_wgs_per_islands a)"
  shows "calculate_total a = Inr (take_if_better (m_wgs_per_islands a) a)"
proof -
  have "set [0..<m_num_islands a] \<subseteq> {..<length G}" using assms(1) by (auto simp: costs_ok_def)
  then show ?thesis
    using max_loop_ok [OF assms, of "[0..<m_num_islands a]" 0]
    by (simp add: calculate_total_def take_if_better_def dist_cost_def)
qed

section \<open>The search visits the distributions\<close>

lemma dist_cost_wgs [simp]: "dist_cost (a\<lparr>m_wgs_per_islands := v\<rparr>) d = dist_cost a d"
  by (simp add: dist_cost_def cong: if_cong)

lemma map_append_snoc [simp]: "map ((@) (pre @ [x])) L = map ((@) pre) (map ((#) x) L)"
  by (induction L) simp_all

lemma take_if_better_wgs [simp]:
  "take_if_better d (a\<lparr>m_wgs_per_islands := v\<rparr>) = (take_if_better d a)\<lparr>m_wgs_per_islands := v\<rparr>"
  by (simp add: take_if_better_def)

lemma fold_take_wgs [simp]:
  "fold take_if_better ds (a\<lparr>m_wgs_per_islands := v\<rparr>) = (fold take_if_better ds a)\<lparr>m_wgs_per_islands := v\<rparr>"
  by (induction ds arbitrary: a) simp_all

lemma take_if_better_costs:
  "costs_ok G (take_if_better d a) K \<longleftrightarrow> costs_ok G a K"
  "m_wgs_per_islands (take_if_better d a) = m_wgs_per_islands a"
  by (simp_all add: take_if_better_def costs_ok_def)

lemma fold_take_costs:
  "costs_ok G (fold take_if_better ds a) K \<longleftrightarrow> costs_ok G a K"
  "m_wgs_per_islands (fold take_if_better ds a) = m_wgs_per_islands a"
  by (induction ds arbitrary: a) (simp_all add: take_if_better_costs)

lemma costs_ok_wgs [simp]: "costs_ok G (a\<lparr>m_wgs_per_islands := v\<rparr>) K \<longleftrightarrow> costs_ok G a K"
  by (simp add: costs_ok_def)

abbreviation flags :: "int list \<Rightarrow> bool list" where
  "flags v \<equiv> map (\<lambda>x. x \<noteq> UNSUITABLE_ISLAND) v"

lemma upto_split: "c \<le> k \<Longrightarrow> [c..k] = c # [c + 1..k]"
  by (simp add: upto_rec1)

lemma fits_append1: "fits G K pre \<Longrightarrow> length pre < length G \<Longrightarrow> G ! length pre \<Longrightarrow> x \<le> K \<Longrightarrow>
    fits G K (pre @ [x])"
  by (auto simp: fits_def nth_append less_Suc_eq)

lemma fits_append_neg: "fits G K pre \<Longrightarrow> x \<le> 0 \<Longrightarrow> fits G K (pre @ [x])"
  by (auto simp: fits_def nth_append less_Suc_eq)

lemma search_visits:
  assumes "costs_ok G a K" and "m_wgs_per_islands a = pre @ rest" and "flags rest = fs"
    and "G = take (length pre) G @ fs" and "length G = length pre + length fs"
    and "fits G K pre" and "0 \<le> k" and "k \<le> K" and "K < int_max"
  shows "\<exists>rest'. recursive_function (length G) a k (length pre) =
      Inr ((fold take_if_better (map ((@) pre) (dists fs k)) a)\<lparr>m_wgs_per_islands := pre @ rest'\<rparr>)
    \<and> flags rest' = fs"
  using assms
proof (induction fs arbitrary: a pre rest k)
  case Nil
  have n: "length G = length pre" and r: "rest = []" using Nil.prems by simp_all
  have upd: "a'\<lparr>m_wgs_per_islands := pre\<rparr> = a'" if "m_wgs_per_islands a' = pre" for a'
    using that by simp
  show ?case
  proof (cases "k = 0")
    case True
    have "calculate_total a = Inr (take_if_better pre a)"
      using calculate_total_ok [OF Nil.prems(1)] Nil.prems(2,6) n r by simp
    then show ?thesis using True n r Nil.prems(2)
      by (subst recursive_function.simps) (simp add: upd take_if_better_costs)
  next
    case False
    then show ?thesis using n r Nil.prems(2) by (subst recursive_function.simps) (simp add: upd)
  qed
next
  case (Cons f fs)
  obtain x rs where rest: "rest = x # rs" and fx: "f = (x \<noteq> UNSUITABLE_ISLAND)" and frs: "flags rs = fs"
    using Cons.prems(3) by auto
  have lt: "length pre < length G" using Cons.prems(5) by simp
  have Gs: "G ! length pre = f" using Cons.prems(4) lt
    by (metis length_take min.absorb2 nat_less_le nth_append_length)
  have G1: "G = take (length (pre @ [y])) G @ fs" for y :: int
  proof -
    have "drop (length pre) G = f # fs" using Cons.prems(4) by (metis append_take_drop_id same_append_eq)
    then have "drop (Suc (length pre)) G = fs" by (metis drop_Suc list.sel(3) tl_drop)
    then show ?thesis by (metis append_take_drop_id length_append_singleton)
  qed
  have lG1: "length G = length (pre @ [y]) + length fs" for y :: int using Cons.prems(5) by simp
  show ?case
  proof (cases f)
    case False
    have fits1: "fits G K (pre @ [x])"
      using Cons.prems(6) False fx by (intro fits_append_neg) (simp_all add: UNSUITABLE_ISLAND_def)
    have w1: "m_wgs_per_islands a = (pre @ [x]) @ rs" using Cons.prems(2) rest by simp
    obtain rest' where r': "recursive_function (length G) a k (length (pre @ [x])) =
        Inr ((fold take_if_better (map ((@) (pre @ [x])) (dists fs k)) a)
          \<lparr>m_wgs_per_islands := (pre @ [x]) @ rest'\<rparr>)" "flags rest' = fs"
      using Cons.IH [OF Cons.prems(1) w1 frs G1 lG1 fits1 Cons.prems(7-9)] by blast
    have "recursive_function (length G) a k (length pre) = recursive_function (length G) a k (length (pre @ [x]))"
      using lt Cons.prems(2) rest False fx
      by (subst recursive_function.simps) (simp add: vec_get_def)
    moreover have "map ((@) (pre @ [x])) (dists fs k) = map ((@) pre) (dists (f # fs) k)"
      using False fx by (simp only: map_append_snoc dists.simps) simp
    ultimately show ?thesis using r' False fx by (intro exI [of _ "x # rest'"]) simp
  next
    case True
    have loop: "\<exists>rest'. recursive_loop (length G) a1 k (length pre) c =
        Inr ((fold take_if_better (concat (map (\<lambda>c. map ((@) pre) (map ((#) (k - c)) (dists fs c))) [c..k])) a1)
          \<lparr>m_wgs_per_islands := pre @ rest'\<rparr>) \<and> flags rest' = f # fs"
      if "0 \<le> c" "c \<le> k" "costs_ok G a1 K" "m_wgs_per_islands a1 = pre @ y # rs1" "flags rs1 = fs"
      for c a1 y rs1
      using that
    proof (induction "nat (k - c)" arbitrary: c a1 y rs1)
      case 0
      then have ck: "c = k" by simp
      let ?a2 = "a1\<lparr>m_wgs_per_islands := (pre @ [k - c]) @ rs1\<rparr>"
      have fits1: "fits G K (pre @ [k - c])"
        using Cons.prems(6,8) lt Gs True "0.prems"(1) by (intro fits_append1) simp_all
      obtain rest' where r': "recursive_function (length G) ?a2 c (length (pre @ [k - c])) =
          Inr ((fold take_if_better (map ((@) (pre @ [k - c])) (dists fs c)) ?a2)
            \<lparr>m_wgs_per_islands := (pre @ [k - c]) @ rest'\<rparr>)" "flags rest' = fs"
        using Cons.IH [OF _ _ "0.prems"(5) G1 lG1 fits1 "0.prems"(1), of ?a2] "0.prems"(2,3)
          Cons.prems(8,9) by fastforce
      have "vec_set (m_wgs_per_islands a1) (length pre) (k - c) = Inr ((pre @ [k - c]) @ rs1)"
        using "0.prems"(4) by (simp add: vec_set_def)
      then have "recursive_loop (length G) a1 k (length pre) c =
          Inr ((fold take_if_better (map ((@) (pre @ [k - c])) (dists fs c)) ?a2)
            \<lparr>m_wgs_per_islands := (pre @ [k - c]) @ rest'\<rparr>)"
        using r'(1) lt ck Cons.prems(8,9) by (subst recursive_loop.simps) simp
      then show ?case using r'(2) True ck
        by (intro exI [of _ "(k - c) # rest'"]) (simp add: UNSUITABLE_ISLAND_def o_def)
    next
      case (Suc m)
      then have ck: "c < k" by simp
      let ?a2 = "a1\<lparr>m_wgs_per_islands := (pre @ [k - c]) @ rs1\<rparr>"
      have fits1: "fits G K (pre @ [k - c])"
        using Cons.prems(6,8) lt Gs True Suc.prems(1) by (intro fits_append1) simp_all
      obtain rest' where r': "recursive_function (length G) ?a2 c (length (pre @ [k - c])) =
          Inr ((fold take_if_better (map ((@) (pre @ [k - c])) (dists fs c)) ?a2)
            \<lparr>m_wgs_per_islands := (pre @ [k - c]) @ rest'\<rparr>)" "flags rest' = fs"
        using Cons.IH [OF _ _ Suc.prems(5) G1 lG1 fits1 Suc.prems(1), of ?a2] Suc.prems(2,3)
          Cons.prems(8,9) by fastforce
      let ?a3 = "(fold take_if_better (map ((@) (pre @ [k - c])) (dists fs c)) ?a2)
            \<lparr>m_wgs_per_islands := (pre @ [k - c]) @ rest'\<rparr>"
      have vs: "vec_set (m_wgs_per_islands a1) (length pre) (k - c) = Inr ((pre @ [k - c]) @ rs1)"
        using Suc.prems(4) by (simp add: vec_set_def)
      have step: "recursive_loop (length G) a1 k (length pre) c =
          recursive_loop (length G) ?a3 k (length pre) (c + 1)"
        using r'(1) vs lt ck Cons.prems(8,9) by (subst recursive_loop.simps) simp
      obtain rest2 where r2: "recursive_loop (length G) ?a3 k (length pre) (c + 1) =
          Inr ((fold take_if_better (concat (map (\<lambda>c. map ((@) pre) (map ((#) (k - c)) (dists fs c))) [c + 1..k])) ?a3)
            \<lparr>m_wgs_per_islands := pre @ rest2\<rparr>)" "flags rest2 = f # fs"
      proof -
        have h: "m = nat (k - (c + 1))" "0 \<le> c + 1" "c + 1 \<le> k"
          using Suc.hyps(2) Suc.prems(1) ck by simp_all
        have co: "costs_ok G ?a3 K" using Suc.prems(3) by (simp add: fold_take_costs)
        have wg: "m_wgs_per_islands ?a3 = pre @ (k - c) # rest'" by simp
        have "\<exists>rest2. recursive_loop (length G) ?a3 k (length pre) (c + 1) =
          Inr ((fold take_if_better (concat (map (\<lambda>c. map ((@) pre) (map ((#) (k - c)) (dists fs c))) [c + 1..k])) ?a3)
            \<lparr>m_wgs_per_islands := pre @ rest2\<rparr>) \<and> flags rest2 = f # fs"
          by (rule Suc.hyps(1) [OF h co wg r'(2)])
        then show ?thesis by (elim exE conjE) (rule that)
      qed
      have up: "[c..k] = c # [c + 1..k]" using ck by (intro upto_split) simp
      show ?case unfolding step r2(1) using r2(2)
        by (intro exI [of _ rest2]) (simp add: up o_def)
    qed
    have "recursive_function (length G) a k (length pre) = recursive_loop (length G) a k (length pre) 0"
      using lt Cons.prems(2) rest True fx
      by (subst recursive_function.simps) (simp add: vec_get_def)
    then show ?thesis
      using loop [of 0 a x rs] Cons.prems(1,2,7) rest frs True
      by (auto simp: map_concat o_def)
  qed
qed


section \<open>The cheapest distribution\<close>

lemma dist_cost_take [simp]: "dist_cost (take_if_better d a) = dist_cost a"
  by (rule ext) (simp add: take_if_better_def dist_cost_def cong: if_cong)

lemma dist_cost_fold_take [simp]: "dist_cost (fold take_if_better ds a) = dist_cost a"
  by (induction ds arbitrary: a) simp_all

lemma fold_max_ge: "(m::int) \<le> fold (\<lambda>i m. if P i then max m (f i) else m) is m"
proof (induction "is" arbitrary: m)
  case (Cons i "is")
  show ?case using Cons [of "max m (f i)"] Cons [of m] by simp
qed simp

lemma dist_cost_nonneg: "0 \<le> dist_cost a d"
  unfolding dist_cost_def by (rule fold_max_ge)

text \<open>
  The state of the search: nothing seen yet, or the kept result costs the minimum recorded.
\<close>

definition best_of :: "algo_simple \<Rightarrow> int list set \<Rightarrow> bool" where
  "best_of a D \<longleftrightarrow> m_result a \<in> D \<and> m_current_min a = dist_cost a (m_result a) \<and>
     (\<forall>d\<in>D. m_current_min a \<le> dist_cost a d)"

lemma best_of_take: "best_of a D \<Longrightarrow> best_of (take_if_better d a) (insert d D)"
  using dist_cost_nonneg [of a "m_result a"]
  by (auto simp: best_of_def take_if_better_def dist_cost_def cong: if_cong)

lemma best_of_take_first: "m_current_min a < 0 \<Longrightarrow> best_of (take_if_better d a) {d}"
  by (simp add: best_of_def take_if_better_def dist_cost_def cong: if_cong)

lemma best_of_fold: "best_of a D \<Longrightarrow> best_of (fold take_if_better ds a) (D \<union> set ds)"
proof (induction ds arbitrary: a D)
  case (Cons d ds)
  then show ?case using best_of_take [of a D d] Cons.IH [of "take_if_better d a" "insert d D"] by simp
qed simp

lemma best_of_fold_first:
  "m_current_min a < 0 \<Longrightarrow> ds \<noteq> [] \<Longrightarrow> best_of (fold take_if_better ds a) (set ds)"
  by (cases ds) (use best_of_fold [OF best_of_take_first] in force)+

lemma best_of_wgs [simp]: "best_of (a\<lparr>m_wgs_per_islands := v\<rparr>) D \<longleftrightarrow> best_of a D"
  by (simp add: best_of_def)

lemma dists_nonempty: "True \<in> set fs \<Longrightarrow> 0 \<le> k \<Longrightarrow> dists fs k \<noteq> []"
proof (induction fs arbitrary: k)
  case (Cons f fs)
  show ?case
  proof (cases f)
    case True
    have z: "dists gs 0 \<noteq> []" for gs
    proof (induction gs)
      case (Cons g gs)
      then show ?case by (cases g) simp_all
    qed simp
    have "0 \<in> set [0..k]" using Cons.prems(2) by simp
    then show ?thesis using True z [of fs] by force
  next
    case False
    then show ?thesis using Cons by simp
  qed
qed simp

lemma dists_none: "True \<notin> set fs \<Longrightarrow> k \<noteq> 0 \<Longrightarrow> dists fs k = []"
proof (induction fs)
  case (Cons f fs)
  then show ?case by (cases f) simp_all
qed simp

text \<open>A search as \<open>route_ndrange\<close> starts it.\<close>

definition search_ready :: "algo_simple \<Rightarrow> int \<Rightarrow> bool" where
  "search_ready a k \<longleftrightarrow> length (m_wgs_per_islands a) = m_num_islands a \<and> m_current_min a = -1 \<and>
     costs_ok (flags (m_wgs_per_islands a)) a k \<and> 0 \<le> k \<and> k < int_max"

lemma search_result:
  assumes "search_ready a k"
  shows "\<exists>v. recursive_function (m_num_islands a) a k 0 =
      Inr ((fold take_if_better (dists (flags (m_wgs_per_islands a)) k) a)\<lparr>m_wgs_per_islands := v\<rparr>)
    \<and> flags v = flags (m_wgs_per_islands a)"
proof -
  have l: "length (flags (m_wgs_per_islands a)) = m_num_islands a"
    using assms by (simp add: search_ready_def)
  have "fits (flags (m_wgs_per_islands a)) k []" by (simp add: fits_def)
  moreover have "map ((@) []) (dists G k) = dists G k" for G by (induction "dists G k") simp_all
  ultimately show ?thesis
    using search_visits [of "flags (m_wgs_per_islands a)" a k "[]" "m_wgs_per_islands a"
        "flags (m_wgs_per_islands a)" k] assms l
    by (simp add: search_ready_def)
qed

lemma fold_take_fields:
  "m_num_islands (fold take_if_better ds a) = m_num_islands a"
  "m_current_work_potential_cost (fold take_if_better ds a) = m_current_work_potential_cost a"
  "m_current_work_reconf_cost (fold take_if_better ds a) = m_current_work_reconf_cost a"
  "m_work_in_progress_cost (fold take_if_better ds a) = m_work_in_progress_cost a"
  by (induction ds arbitrary: a) (simp_all add: take_if_better_def)

lemma search_best:
  assumes "search_ready a k" and "G = flags (m_wgs_per_islands a)" and "True \<in> set G"
  shows "\<exists>a'. recursive_function (m_num_islands a) a k 0 = Inr a' \<and>
    is_dist G k (m_result a') \<and> m_current_min a' = dist_cost a (m_result a') \<and>
    (\<forall>d. is_dist G k d \<longrightarrow> dist_cost a (m_result a') \<le> dist_cost a d) \<and>
    flags (m_wgs_per_islands a') = G \<and> m_num_islands a' = m_num_islands a \<and>
    m_current_work_potential_cost a' = m_current_work_potential_cost a \<and>
    m_current_work_reconf_cost a' = m_current_work_reconf_cost a \<and>
    m_work_in_progress_cost a' = m_work_in_progress_cost a"
proof -
  obtain v where r: "recursive_function (m_num_islands a) a k 0 =
      Inr ((fold take_if_better (dists G k) a)\<lparr>m_wgs_per_islands := v\<rparr>)" "flags v = G"
    using search_result [OF assms(1)] assms(2) by blast
  have "0 \<le> k" "m_current_min a < 0" using assms(1) by (simp_all add: search_ready_def)
  then have "best_of (fold take_if_better (dists G k) a) (set (dists G k))"
    using dists_nonempty [OF assms(3)] by (intro best_of_fold_first) simp_all
  then show ?thesis using r by (auto simp: best_of_def set_dists fold_take_fields)
qed

text \<open>C11: The search for a distribution of \<open>k\<close> work groups returns, without an overflow and without
  an index out of bounds, whenever the price of all the groups on any one suitable island fits an
  \<open>int\<close>; if some island is suitable, the result it leaves gives every suitable island a non-negative
  number of groups adding up to \<open>k\<close> and leaves the unsuitable ones marked, the recorded minimum is
  the cost of that result, and no other such distribution is cheaper.\<close>
theorem recursive_function_optimal:
  assumes "search_ready a k" and "G = flags (m_wgs_per_islands a)" and "True \<in> set G"
  shows "\<exists>a'. recursive_function (m_num_islands a) a k 0 = Inr a' \<and>
    is_dist G k (m_result a') \<and> m_current_min a' = dist_cost a (m_result a') \<and>
    (\<forall>d. is_dist G k d \<longrightarrow> dist_cost a (m_result a') \<le> dist_cost a d)"
  using search_best [OF assms] by blast

definition demo_algo :: algo_simple where
  "demo_algo = (new_AlgoSimple 3)\<lparr>m_wgs_per_islands := [0, UNSUITABLE_ISLAND, 0],
     m_work_in_progress_cost := [5, UNSUITABLE_ISLAND, 0],
     m_current_work_potential_cost := [10, UNSUITABLE_ISLAND, 20],
     m_current_work_reconf_cost := [0, UNSUITABLE_ISLAND, 7]\<rparr>"

lemma demo_algo_ready: "search_ready demo_algo 4"
  by (simp add: search_ready_def costs_ok_def demo_algo_def new_AlgoSimple_def All_less_Suc2
    UNSUITABLE_ISLAND_def)

theorem recursive_function_optimal_witness:
  "\<exists>a'. recursive_function 3 demo_algo 4 0 = Inr a' \<and> is_dist [True, False, True] 4 (m_result a') \<and>
    m_current_min a' = dist_cost demo_algo (m_result a') \<and>
    dist_cost demo_algo (m_result a') \<le> dist_cost demo_algo [3, UNSUITABLE_ISLAND, 1]"
proof -
  have "is_dist [True, False, True] 4 [3, UNSUITABLE_ISLAND, 1]"
    by (simp add: is_dist_Cons is_dist_Nil)
  moreover have "m_num_islands demo_algo = 3" by (simp add: demo_algo_def new_AlgoSimple_def)
  moreover have "[True, False, True] = flags (m_wgs_per_islands demo_algo)"
    by (simp add: demo_algo_def UNSUITABLE_ISLAND_def)
  ultimately show ?thesis
    using recursive_function_optimal [OF demo_algo_ready, of "[True, False, True]"] by auto
qed

section \<open>What the search costs\<close>

lemma length_dists:
  "0 \<le> k \<Longrightarrow> length (dists fs k) =
    (case length (filter (\<lambda>b. b) fs) of 0 \<Rightarrow> if k = 0 then 1 else 0 | Suc s \<Rightarrow> (nat k + s) choose s)"
proof (induction fs k rule: dists.induct)
  case (1 k)
  then show ?case by simp
next
  case (2 fs k)
  then show ?case by simp
next
  case (3 fs k)
  obtain n where n: "k = int n" using 3(2) nonneg_int_cases by blast
  have up: "[0..k] = map int [0..<Suc n]"
  proof (rule nth_equalityI)
    show "length [0..k] = length (map int [0..<Suc n])" by (simp add: n)
  qed (auto simp: n simp del: upt_Suc)
  have len: "length (dists (True # fs) k) = (\<Sum>c\<leftarrow>[0..<Suc n]. length (dists fs (int c)))"
    by (simp add: length_concat up o_def del: upt_Suc)
  have IH: "length (dists fs (int c)) = (case length (filter (\<lambda>b. b) fs) of 0 \<Rightarrow> if c = 0 then 1 else 0
      | Suc s \<Rightarrow> (c + s) choose s)" if "c < Suc n" for c
    using 3(1) [of "int c"] that n by (simp cong: nat.case_cong)
  show ?case
  proof (cases "length (filter (\<lambda>b. b) fs)")
    case 0
    have "length (dists fs (int c)) = (if c = 0 then 1 else 0)" if "c < Suc n" for c
      using IH [OF that] 0 by (simp only: nat.case)
    then have "(\<Sum>c\<leftarrow>[0..<Suc n]. length (dists fs (int c))) = (\<Sum>c\<leftarrow>[0..<Suc n]. if c = 0 then 1 else 0)"
      by (intro arg_cong [where f = sum_list] map_cong [OF refl]) (simp only: set_upt atLeastLessThan_iff)
    also have "\<dots> = 1" by (simp add: sum_list_map_eq_sum_count2 interv_sum_list_conv_sum_set_nat atLeast0LessThan)
    finally show ?thesis using len 0 by simp
  next
    case (Suc s)
    have "length (dists fs (int c)) = (c + s) choose s" if "c < Suc n" for c
      using IH [OF that] Suc by (simp only: nat.case)
    then have "(\<Sum>c\<leftarrow>[0..<Suc n]. length (dists fs (int c))) = (\<Sum>c\<leftarrow>[0..<Suc n]. (c + s) choose s)"
      by (intro arg_cong [where f = sum_list] map_cong [OF refl]) (simp only: set_upt atLeastLessThan_iff)
    also have "\<dots> = (\<Sum>c\<le>n. (s + c) choose s)"
      by (simp add: interv_sum_list_conv_sum_set_nat atLeast0LessThan lessThan_Suc_atMost add.commute
        del: upt_Suc)
    also have "\<dots> = (n + Suc s) choose (Suc s)"
      using choose_rising_sum(1) [of s n] by (simp add: add.commute)
    finally show ?thesis using len Suc n by simp
  qed
qed

text \<open>The search prices every distribution once: with \<open>s + 1\<close> suitable islands it prices
  \<open>(k + s) choose s\<close> leaves for \<open>k\<close> work groups, and folding the pricing over exactly those, in their
  order, is what it computes.\<close>
theorem recursive_function_leaves:
  assumes "search_ready a k" and "length (filter (\<lambda>x. x \<noteq> UNSUITABLE_ISLAND) (m_wgs_per_islands a)) = Suc s"
  shows "\<exists>leaves v. recursive_function (m_num_islands a) a k 0 =
      Inr ((fold take_if_better leaves a)\<lparr>m_wgs_per_islands := v\<rparr>) \<and>
    length leaves = (nat k + s) choose s \<and> set leaves = {d. is_dist (flags (m_wgs_per_islands a)) k d}"
proof -
  have f: "length (filter (\<lambda>b. b) (flags (m_wgs_per_islands a))) = Suc s"
    using assms(2) by (simp add: filter_map o_def)
  have k: "0 \<le> k" using assms(1) by (simp add: search_ready_def)
  obtain v where "recursive_function (m_num_islands a) a k 0 = Inr ((fold take_if_better
      (dists (flags (m_wgs_per_islands a)) k) a)\<lparr>m_wgs_per_islands := v\<rparr>)"
    using search_result [OF assms(1)] by blast
  then show ?thesis using length_dists [OF k, of "flags (m_wgs_per_islands a)"] f
    by (auto simp: set_dists)
qed

theorem recursive_function_leaves_witness:
  "\<exists>leaves v. recursive_function 3 demo_algo 4 0 =
      Inr ((fold take_if_better leaves demo_algo)\<lparr>m_wgs_per_islands := v\<rparr>) \<and> length leaves = 5"
proof -
  have "length (filter (\<lambda>x. x \<noteq> UNSUITABLE_ISLAND) (m_wgs_per_islands demo_algo)) = Suc 1"
    and "m_num_islands demo_algo = 3"
    by (simp_all add: demo_algo_def UNSUITABLE_ISLAND_def new_AlgoSimple_def)
  then show ?thesis using recursive_function_leaves [OF demo_algo_ready] by fastforce
qed

end
