(* ===== verification/Queue_Interface.thy ===== *)
theory Queue_Interface
  imports Prelude
begin

text \<open>
  What the clients of the ring buffer rely on, as contracts. Everywhere in the program a
  buffer is used through a pair of operations, one that adds at one end and one that removes
  at the other, and the return code of the first is ignored: an element that finds no room is
  dropped. \<open>fifo_queue\<close> states that contract, \<open>sliding_queue\<close> the one of the overwriting
  mode. Both are proved of the ring buffer in theory \<open>Circ_Array\<close>.
\<close>

definition drop_result :: "('r \<times> 'q) res \<Rightarrow> 'q res" where
  "drop_result r = bindr r (\<lambda>(_, q). Inr q)"

lemma drop_result_simps [simp]:
  "drop_result (Inr (a, q)) = Inr q" "drop_result (Inl e) = Inl e"
  by (simp_all add: drop_result_def)

fun deq_all :: "('q \<Rightarrow> ('a \<times> 'q) res) \<Rightarrow> nat \<Rightarrow> 'q \<Rightarrow> ('a list \<times> 'q) res" where
  "deq_all deq 0 q = Inr ([], q)"
| "deq_all deq (Suc n) q =
     bindr (deq q) (\<lambda>(x, q'). bindr (deq_all deq n q') (\<lambda>(xs, q''). Inr (x # xs, q'')))"

locale queue_base =
  fixes q_wf :: "'q \<Rightarrow> bool"
    and q_list :: "'q \<Rightarrow> 'a list"
    and q_bound :: "'q \<Rightarrow> nat"
    and enq :: "'a \<Rightarrow> 'q \<Rightarrow> 'q res"
    and deq :: "'q \<Rightarrow> ('a \<times> 'q) res"
  assumes bounded: "q_wf q \<Longrightarrow> length (q_list q) \<le> q_bound q"
    and enq_room: "q_wf q \<Longrightarrow> length (q_list q) < q_bound q \<Longrightarrow>
      \<exists>q'. enq x q = Inr q' \<and> q_wf q' \<and> q_list q' = q_list q @ [x] \<and> q_bound q' = q_bound q"
    and deq_some: "q_wf q \<Longrightarrow> q_list q \<noteq> [] \<Longrightarrow>
      \<exists>q'. deq q = Inr (hd (q_list q), q') \<and> q_wf q' \<and> q_list q' = tl (q_list q) \<and>
        q_bound q' = q_bound q"
    and deq_none: "q_wf q \<Longrightarrow> q_list q = [] \<Longrightarrow> deq q = Inl Empty_buffer"
begin

text \<open>What was put in comes out in the same order.\<close>

lemma deq_all_prefix:
  assumes "q_wf q" and "n \<le> length (q_list q)"
  shows "\<exists>q'. deq_all deq n q = Inr (take n (q_list q), q') \<and> q_wf q' \<and>
    q_list q' = drop n (q_list q) \<and> q_bound q' = q_bound q"
  using assms
proof (induction n arbitrary: q)
  case 0
  then show ?case by simp
next
  case (Suc n)
  then have ne: "q_list q \<noteq> []" by auto
  obtain q1 where q1: "deq q = Inr (hd (q_list q), q1)" "q_wf q1" "q_list q1 = tl (q_list q)"
      "q_bound q1 = q_bound q"
    using deq_some [OF Suc.prems(1) ne] by blast
  have "n \<le> length (q_list q1)" using q1(3) Suc.prems(2) by simp
  then obtain q2 where "deq_all deq n q1 = Inr (take n (q_list q1), q2)" "q_wf q2"
      "q_list q2 = drop n (q_list q1)" "q_bound q2 = q_bound q1"
    using Suc.IH [OF q1(2)] by blast
  then show ?case
    using q1 ne by (cases "q_list q") auto
qed

lemma enq_all_room:
  assumes "q_wf q" and "length (q_list q) + length xs \<le> q_bound q"
  shows "\<exists>q'. foldr_res enq xs q = Inr q' \<and> q_wf q' \<and> q_list q' = q_list q @ xs \<and>
    q_bound q' = q_bound q"
  using assms
proof (induction xs arbitrary: q)
  case Nil
  then show ?case by simp
next
  case (Cons x xs)
  obtain q1 where "enq x q = Inr q1" "q_wf q1" "q_list q1 = q_list q @ [x]"
      "q_bound q1 = q_bound q"
    using enq_room [of q x] Cons.prems by auto
  then show ?case
    using Cons.IH [of q1] Cons.prems(2) by auto
qed

text \<open>Filling and draining: the round trip of a queue.\<close>

lemma fifo_roundtrip:
  assumes "q_wf q" and "q_list q = []" and "length xs \<le> q_bound q"
  shows "\<exists>q' q''. foldr_res enq xs q = Inr q' \<and> deq_all deq (length xs) q' = Inr (xs, q'') \<and>
    q_list q'' = []"
proof -
  obtain q' where q': "foldr_res enq xs q = Inr q'" "q_wf q'" "q_list q' = xs"
    using enq_all_room [OF assms(1), of xs] assms by auto
  then show ?thesis
    using deq_all_prefix [OF q'(2), of "length xs"] by auto
qed

end

text \<open>The mode without overwriting: a full queue ignores the new element.\<close>

locale fifo_queue = queue_base +
  assumes enq_full: "q_wf q \<Longrightarrow> length (q_list q) = q_bound q \<Longrightarrow> enq x q = Inr q"
begin

lemma enq_total:
  assumes "q_wf q"
  shows "\<exists>q'. enq x q = Inr q' \<and> q_wf q' \<and> q_bound q' = q_bound q \<and>
    q_list q' = take (q_bound q) (q_list q @ [x])"
proof (cases "length (q_list q) < q_bound q")
  case True
  then show ?thesis using enq_room [OF assms] by fastforce
next
  case False
  then have "length (q_list q) = q_bound q" using bounded [OF assms] by simp
  then show ?thesis using enq_full [OF assms] assms by simp
qed

text \<open>Of a sequence of additions exactly those are kept that fit.\<close>

lemma enq_all_keeps_prefix:
  assumes "q_wf q"
  shows "\<exists>q'. foldr_res enq xs q = Inr q' \<and> q_wf q' \<and> q_bound q' = q_bound q \<and>
    q_list q' = take (q_bound q) (q_list q @ xs)"
  using assms
proof (induction xs arbitrary: q)
  case Nil
  then show ?case using bounded by simp
next
  case (Cons x xs)
  obtain q1 where q1: "enq x q = Inr q1" "q_wf q1" "q_bound q1 = q_bound q"
      "q_list q1 = take (q_bound q) (q_list q @ [x])"
    using enq_total [OF Cons.prems] by blast
  obtain q2 where q2: "foldr_res enq xs q1 = Inr q2" "q_wf q2" "q_bound q2 = q_bound q1"
      "q_list q2 = take (q_bound q1) (q_list q1 @ xs)"
    using Cons.IH [OF q1(2)] by blast
  have "take (q_bound q) (take (q_bound q) (q_list q @ [x]) @ xs)
      = take (q_bound q) (q_list q @ x # xs)"
    using bounded [OF Cons.prems] by (cases "length (q_list q) < q_bound q") auto
  then show ?case using q1 q2 by simp
qed

end

text \<open>The overwriting mode: a full queue gives up its oldest element.\<close>

locale sliding_queue = queue_base +
  assumes enq_over: "q_wf q \<Longrightarrow> length (q_list q) = q_bound q \<Longrightarrow> 0 < q_bound q \<Longrightarrow>
    \<exists>q'. enq x q = Inr q' \<and> q_wf q' \<and> q_list q' = tl (q_list q) @ [x] \<and> q_bound q' = q_bound q"
begin

text \<open>After any sequence of additions the queue holds the newest elements.\<close>

lemma enq_all_keeps_newest:
  assumes "q_wf q" and "0 < q_bound q"
  shows "\<exists>q'. foldr_res enq xs q = Inr q' \<and> q_wf q' \<and> q_bound q' = q_bound q \<and>
    q_list q' = drop (length (q_list q @ xs) - q_bound q) (q_list q @ xs)"
  using assms
proof (induction xs arbitrary: q)
  case Nil
  then show ?case using bounded [of q] by simp
next
  case (Cons x xs)
  have "\<exists>q1. enq x q = Inr q1 \<and> q_wf q1 \<and> q_bound q1 = q_bound q \<and>
      q_list q1 = drop (length (q_list q @ [x]) - q_bound q) (q_list q @ [x])"
  proof (cases "length (q_list q) < q_bound q")
    case True
    then show ?thesis using enq_room [OF Cons.prems(1), of x] by auto
  next
    case False
    then have full: "length (q_list q) = q_bound q" using bounded [OF Cons.prems(1)] by simp
    then have "tl (q_list q) @ [x] = drop (length (q_list q @ [x]) - q_bound q) (q_list q @ [x])"
      using Cons.prems(2) by (cases "q_list q") auto
    then show ?thesis using enq_over [OF Cons.prems(1) full Cons.prems(2), of x] by auto
  qed
  then obtain q1 where q1: "enq x q = Inr q1" "q_wf q1" "q_bound q1 = q_bound q"
      "q_list q1 = drop (length (q_list q @ [x]) - q_bound q) (q_list q @ [x])"
    by blast
  obtain q2 where q2: "foldr_res enq xs q1 = Inr q2" "q_wf q2" "q_bound q2 = q_bound q1"
      "q_list q2 = drop (length (q_list q1 @ xs) - q_bound q1) (q_list q1 @ xs)"
    using Cons.IH [OF q1(2)] q1(3) Cons.prems(2) by auto
  have "q_list q1 @ xs = drop (length (q_list q @ [x]) - q_bound q) (q_list q @ x # xs)"
    using q1(4) Cons.prems(2) by (simp add: Suc_diff_le)
  then have "q_list q2 = drop (length (q_list q @ x # xs) - q_bound q) (q_list q @ x # xs)"
    using q2(4) q1(3) newest_absorb [of "length (q_list q @ [x]) - q_bound q" "q_list q @ x # xs"]
    by simp
  then show ?case using q1 q2 by simp
qed

end

end
