(* ===== verification/Circ_Array.thy ===== *)
theory Circ_Array
  imports Queue_Interface
begin

text \<open>
  The ring buffer template \<open>CircArray<T>\<close> of \<^verbatim>\<open>cpp/circ_array.hpp\<close>, built without
  \<open>NO_THROW\<close> as the Makefile does. Every queue of the program is one: the command queue,
  the schedulers' work queues, the list of free schedulers and the pending ndranges of the
  slicing algorithm. \<open>size_t\<close> arithmetic is on \<open>64 word\<close>, so \<open>_size - 1\<close> wraps for an
  empty buffer as it does in the code; array accesses and remainders are checked, so an access
  C++ leaves undefined is a fault of the model.
\<close>

section \<open>State and return codes\<close>

(* src/cpp/circ_array.hpp:30-35 CircArray::RC *)
datatype ca_rc = SUCCESS | NO_SPACE_ERROR | BUFFER_EMPTY_ERROR

(* src/cpp/circ_array.hpp:73-79 CircArray *)
record 'a circ_array =
  ca_array :: "'a list"
  ca_start :: u64
  ca_size :: u64
  ca_capacity :: u64

section \<open>Checked primitives\<close>

definition arr_load :: "'a list \<Rightarrow> u64 \<Rightarrow> 'a res" where
  "arr_load arr i = (if unat i < length arr then Inr (arr ! unat i) else Inl Out_of_bounds)"

definition arr_store :: "'a list \<Rightarrow> u64 \<Rightarrow> 'a \<Rightarrow> 'a list res" where
  "arr_store arr i v =
     (if unat i < length arr then Inr (arr[unat i := v]) else Inl Out_of_bounds)"

definition u64_mod :: "u64 \<Rightarrow> u64 \<Rightarrow> u64 res" where
  "u64_mod a b = (if b = 0 then Inl Div_by_zero else Inr (a mod b))"

text \<open>
  \<open>new T[n]\<close>: the standard rejects a size whose bytes exceed \<open>PTRDIFF_MAX\<close>. The elements
  it leaves in the slots (indeterminate for the element types used here) are the argument
  \<open>junk\<close>.
\<close>

definition max_new :: nat where
  "max_new = 2 ^ 63 - 1"

definition new_array :: "(nat \<Rightarrow> 'a) \<Rightarrow> u64 \<Rightarrow> 'a list res" where
  "new_array junk n =
     (if unat n \<le> max_new then Inr (map junk [0..<unat n]) else Inl Bad_alloc)"

section \<open>Construction and queries\<close>

(* src/cpp/circ_array.hpp:93-101 CircArray::set_initial_values *)
definition ca_set_initial_values :: "(nat \<Rightarrow> 'a) \<Rightarrow> u64 \<Rightarrow> 'a circ_array res" where
  "ca_set_initial_values junk capacity =
     bindr (new_array junk capacity) (\<lambda>arr.
       Inr \<lparr>ca_array = arr, ca_start = 0, ca_size = 0, ca_capacity = capacity\<rparr>)"

(* src/cpp/circ_array.hpp:81-85 CircArray::CircArray() *)
definition ca_new_default :: "(nat \<Rightarrow> 'a) \<Rightarrow> 'a circ_array res" where
  "ca_new_default junk = ca_set_initial_values junk 10"

(* src/cpp/circ_array.hpp:87-91 CircArray::CircArray(size_t) *)
definition ca_new :: "(nat \<Rightarrow> 'a) \<Rightarrow> u64 \<Rightarrow> 'a circ_array res" where
  "ca_new junk capacity = ca_set_initial_values junk capacity"

(* src/cpp/circ_array.hpp:58-58 CircArray::occupancy *)
definition ca_occupancy :: "'a circ_array \<Rightarrow> u64" where
  "ca_occupancy c = ca_size c"

(* src/cpp/circ_array.hpp:62-62 CircArray::is_full *)
definition ca_is_full :: "'a circ_array \<Rightarrow> bool" where
  "ca_is_full c \<longleftrightarrow> ca_size c = ca_capacity c"

(* src/cpp/circ_array.hpp:64-64 CircArray::empty *)
definition ca_empty :: "'a circ_array \<Rightarrow> bool" where
  "ca_empty c \<longleftrightarrow> ca_size c = 0"

section \<open>Element access\<close>

(* src/cpp/circ_array.hpp:167-180 CircArray::operator[] *)
definition ca_slot :: "'a circ_array \<Rightarrow> u64 \<Rightarrow> u64 res" where
  "ca_slot c index =
     (if index > ca_size c - 1 then Inl Invalid_index
      else u64_mod (ca_start c + index) (ca_capacity c))"

text \<open>The reference \<open>operator[]\<close> returns is read or written through.\<close>

(* src/cpp/circ_array.hpp:167-180 CircArray::operator[] (read) *)
definition ca_get :: "'a circ_array \<Rightarrow> u64 \<Rightarrow> 'a res" where
  "ca_get c index = bindr (ca_slot c index) (arr_load (ca_array c))"

(* src/cpp/circ_array.hpp:167-180 CircArray::operator[] (write) *)
definition ca_set :: "'a circ_array \<Rightarrow> u64 \<Rightarrow> 'a \<Rightarrow> 'a circ_array res" where
  "ca_set c index v =
     bindr (ca_slot c index) (\<lambda>k.
     bindr (arr_store (ca_array c) k v) (\<lambda>arr.
       Inr (c\<lparr>ca_array := arr\<rparr>)))"

section \<open>Removing from the ends\<close>

text \<open>
  The \<open>T& value\<close> overloads write the parameter only on success: the middle component is
  \<open>Some\<close> of what they write, \<open>None\<close> when they leave it alone.
\<close>

(* src/cpp/circ_array.hpp:205-218 CircArray::pop_back(T&) *)
definition ca_pop_back_ref :: "'a circ_array \<Rightarrow> (ca_rc \<times> 'a option \<times> 'a circ_array) res" where
  "ca_pop_back_ref c =
     (if ca_size c = 0 then Inr (BUFFER_EMPTY_ERROR, None, c)
      else bindr (u64_mod (ca_start c + ca_size c - 1) (ca_capacity c)) (\<lambda>k.
           bindr (arr_load (ca_array c) k) (\<lambda>v.
             Inr (SUCCESS, Some v, c\<lparr>ca_size := ca_size c - 1\<rparr>))))"

(* src/cpp/circ_array.hpp:293-306 CircArray::pop_front(T&) *)
definition ca_pop_front_ref :: "'a circ_array \<Rightarrow> (ca_rc \<times> 'a option \<times> 'a circ_array) res" where
  "ca_pop_front_ref c =
     (if ca_size c = 0 then Inr (BUFFER_EMPTY_ERROR, None, c)
      else bindr (arr_load (ca_array c) (ca_start c)) (\<lambda>v.
           bindr (u64_mod (ca_start c + 1) (ca_capacity c)) (\<lambda>s.
             Inr (SUCCESS, Some v, c\<lparr>ca_size := ca_size c - 1, ca_start := s\<rparr>))))"

(* src/cpp/circ_array.hpp:228-238 CircArray::pop_back() (throw) *)
definition popped_or_throw ::
  "(ca_rc \<times> 'a option \<times> 'a circ_array) res \<Rightarrow> ('a \<times> 'a circ_array) res" where
  "popped_or_throw r = bindr r (\<lambda>(rc, v, c).
     case v of Some x \<Rightarrow> (if rc = SUCCESS then Inr (x, c) else Inl Empty_buffer)
             | None \<Rightarrow> Inl Empty_buffer)"

(* src/cpp/circ_array.hpp:220-239 CircArray::pop_back() *)
definition ca_pop_back :: "'a circ_array \<Rightarrow> ('a \<times> 'a circ_array) res" where
  "ca_pop_back c = popped_or_throw (ca_pop_back_ref c)"

(* src/cpp/circ_array.hpp:241-260 CircArray::pop_front() *)
definition ca_pop_front :: "'a circ_array \<Rightarrow> ('a \<times> 'a circ_array) res" where
  "ca_pop_front c = popped_or_throw (ca_pop_front_ref c)"

section \<open>Adding at the ends\<close>

(* src/cpp/circ_array.hpp:200-202 CircArray::push_back (store) *)
definition ca_store_back :: "'a circ_array \<Rightarrow> 'a \<Rightarrow> (ca_rc \<times> 'a circ_array) res" where
  "ca_store_back c v =
     bindr (u64_mod (ca_start c + ca_size c) (ca_capacity c)) (\<lambda>k.
     bindr (arr_store (ca_array c) k v) (\<lambda>arr.
       Inr (SUCCESS, c\<lparr>ca_array := arr, ca_size := ca_size c + 1\<rparr>)))"

(* src/cpp/circ_array.hpp:182-203 CircArray::push_back *)
definition ca_push_back ::
  "'a circ_array \<Rightarrow> 'a \<Rightarrow> bool \<Rightarrow> (ca_rc \<times> 'a circ_array) res" where
  "ca_push_back c v overwrite_when_full =
     (if ca_size c = ca_capacity c then
        (if \<not> overwrite_when_full then Inr (NO_SPACE_ERROR, c)
         else bindr (ca_pop_front c) (\<lambda>(_, c1).
                if ca_size c1 < ca_capacity c1 then ca_store_back c1 v else Inl Assert_failed))
      else ca_store_back c v)"

(* src/cpp/circ_array.hpp:279-290 CircArray::push_front (store) *)
definition ca_store_front :: "'a circ_array \<Rightarrow> 'a \<Rightarrow> (ca_rc \<times> 'a circ_array) res" where
  "ca_store_front c v =
     (let s = (if ca_start c = 0 then ca_capacity c - 1 else ca_start c - 1)
      in bindr (arr_store (ca_array c) s v) (\<lambda>arr.
           Inr (SUCCESS, c\<lparr>ca_array := arr, ca_start := s, ca_size := ca_size c + 1\<rparr>)))"

(* src/cpp/circ_array.hpp:262-291 CircArray::push_front *)
definition ca_push_front ::
  "'a circ_array \<Rightarrow> 'a \<Rightarrow> bool \<Rightarrow> (ca_rc \<times> 'a circ_array) res" where
  "ca_push_front c v overwrite_when_full =
     (if ca_size c = ca_capacity c then
        (if \<not> overwrite_when_full then Inr (NO_SPACE_ERROR, c)
         else bindr (ca_pop_back c) (\<lambda>(_, c1).
                if ca_size c1 < ca_capacity c1 then ca_store_front c1 v else Inl Assert_failed))
      else ca_store_front c v)"

section \<open>Loops over the whole buffer\<close>

text \<open>
  The loop counters are \<open>int\<close>: \<open>++i\<close> at \<open>2^31 - 1\<close> is a signed overflow. A comparison
  \<open>i < _size\<close> converts \<open>i\<close> to \<open>size_t\<close>, which is \<open>word_of_int\<close>.
\<close>

(* src/cpp/circ_array.hpp:154-157 CircArray::resize_by_two (loop) *)
function ca_resize_loop :: "'a circ_array \<Rightarrow> int \<Rightarrow> 'a list \<Rightarrow> 'a list res" where
  "ca_resize_loop c i temp =
     (if (word_of_int i :: u64) < ca_size c then
        bindr (ca_get c (word_of_int i)) (\<lambda>v.
        bindr (arr_store temp (word_of_int i) v) (\<lambda>temp'.
          if i \<ge> int_max then Inl Int_overflow else ca_resize_loop c (i + 1) temp'))
      else Inr temp)"
  by pat_completeness auto
termination
  by (relation "measure (\<lambda>(c, i, temp). nat (int_max - i))") auto

(* src/cpp/circ_array.hpp:149-165 CircArray::resize_by_two *)
definition ca_resize_by_two :: "(nat \<Rightarrow> 'a) \<Rightarrow> 'a circ_array \<Rightarrow> 'a circ_array res" where
  "ca_resize_by_two junk c =
     bindr (new_array junk (ca_capacity c * 2)) (\<lambda>temp0.
     bindr (ca_resize_loop c 0 temp0) (\<lambda>temp.
       Inr (c\<lparr>ca_capacity := ca_capacity c * 2, ca_start := 0, ca_array := temp\<rparr>)))"

(* src/cpp/circ_array.hpp:143-146 CircArray::deep_copy (loop) *)
function ca_copy_loop :: "'a circ_array \<Rightarrow> int \<Rightarrow> 'a circ_array \<Rightarrow> 'a circ_array res" where
  "ca_copy_loop rhs i lhs =
     (if (word_of_int i :: u64) < ca_size rhs then
        bindr (ca_get rhs (word_of_int i)) (\<lambda>v.
        bindr (ca_set lhs (word_of_int i) v) (\<lambda>lhs'.
          if i \<ge> int_max then Inl Int_overflow else ca_copy_loop rhs (i + 1) lhs'))
      else Inr lhs)"
  by pat_completeness auto
termination
  by (relation "measure (\<lambda>(rhs, i, lhs). nat (int_max - i))") auto

text \<open>\<open>deep_copy\<close> into a buffer that is not \<open>rhs\<close> itself; what \<open>lhs\<close> held is deleted.\<close>

(* src/cpp/circ_array.hpp:129-147 CircArray::deep_copy *)
definition ca_deep_copy :: "(nat \<Rightarrow> 'a) \<Rightarrow> 'a circ_array \<Rightarrow> 'a circ_array res" where
  "ca_deep_copy junk rhs =
     bindr (new_array junk (ca_capacity rhs)) (\<lambda>arr.
       ca_copy_loop rhs 0
         \<lparr>ca_array = arr, ca_start = ca_start rhs, ca_size = ca_size rhs,
          ca_capacity = ca_capacity rhs\<rparr>)"

(* src/cpp/circ_array.hpp:112-120 CircArray::CircArray(const CircArray&) *)
definition ca_copy :: "(nat \<Rightarrow> 'a) \<Rightarrow> 'a circ_array \<Rightarrow> 'a circ_array res" where
  "ca_copy junk rhs = ca_deep_copy junk rhs"

text \<open>
  The shifting loop of \<open>pop_at\<close>. \<open>_size\<close> is read afresh in every test, and \<open>pop_back\<close>
  changes it in the last round.
\<close>

(* src/cpp/circ_array.hpp:326-337 CircArray::pop_at (loop) *)
function ca_pop_at_loop :: "int \<Rightarrow> 'a circ_array \<Rightarrow> 'a circ_array res" where
  "ca_pop_at_loop i c =
     (if (word_of_int i :: u64) < ca_size c then
        bindr
          (if (word_of_int i :: u64) = ca_size c - 1
           then bindr (ca_pop_back c) (\<lambda>(_, c'). Inr c')
           else if i \<ge> int_max then Inl Int_overflow
           else bindr (ca_get c (word_of_int (i + 1))) (\<lambda>v. ca_set c (word_of_int i) v))
          (\<lambda>c'. if i \<ge> int_max then Inl Int_overflow else ca_pop_at_loop (i + 1) c')
      else Inr c)"
  by pat_completeness auto
termination
  by (relation "measure (\<lambda>(i, c). nat (int_max - i))") auto

declare ca_resize_loop.simps [simp del] ca_copy_loop.simps [simp del] ca_pop_at_loop.simps [simp del]

(* src/cpp/circ_array.hpp:308-340 CircArray::pop_at *)
definition ca_pop_at :: "'a circ_array \<Rightarrow> u64 \<Rightarrow> ('a \<times> 'a circ_array) res" where
  "ca_pop_at c index =
     (if index > ca_size c - 1 then Inl Invalid_index
      else bindr (ca_get c index) (\<lambda>element.
           bindr (ca_pop_at_loop (sint (ucast index :: u32)) c) (\<lambda>c'.
             Inr (element, c'))))"

section \<open>Well-formedness and the list a buffer stands for\<close>

definition ca_wf :: "'a circ_array \<Rightarrow> bool" where
  "ca_wf c \<longleftrightarrow> length (ca_array c) = unat (ca_capacity c) \<and> ca_size c \<le> ca_capacity c \<and>
     (ca_capacity c \<noteq> 0 \<longrightarrow> ca_start c < ca_capacity c) \<and> unat (ca_capacity c) \<le> max_new"

definition ca_list :: "'a circ_array \<Rightarrow> 'a list" where
  "ca_list c = ring_view (ca_array c) (unat (ca_start c)) (unat (ca_size c))"

definition ca_bound :: "'a circ_array \<Rightarrow> nat" where
  "ca_bound c = unat (ca_capacity c)"

lemma ca_wfD:
  assumes "ca_wf c"
  shows "length (ca_array c) = ca_bound c" and "length (ca_list c) = unat (ca_size c)"
    and "unat (ca_size c) \<le> ca_bound c" and "0 < ca_bound c \<Longrightarrow> unat (ca_start c) < ca_bound c"
    and "ca_bound c \<le> max_new"
  using assms
  by (auto simp: ca_wf_def ca_list_def ca_bound_def word_le_nat_alt word_less_nat_alt
      unat_gt_0)

lemma ca_wfI:
  assumes "length (ca_array c) = ca_bound c" and "unat (ca_size c) \<le> ca_bound c"
    and "0 < ca_bound c \<Longrightarrow> unat (ca_start c) < ca_bound c" and "ca_bound c \<le> max_new"
  shows "ca_wf c"
  using assms
  by (auto simp: ca_wf_def ca_list_def ca_bound_def word_le_nat_alt word_less_nat_alt
      unat_gt_0)

lemma ca_list_length: "ca_wf c \<Longrightarrow> length (ca_list c) \<le> ca_bound c"
  by (simp add: ca_wfD)

lemma ca_empty_iff: "ca_empty c \<longleftrightarrow> ca_list c = []"
  by (simp add: ca_empty_def ca_list_def ring_view_def unat_eq_zero)

lemma ca_full_iff: "ca_wf c \<Longrightarrow> ca_is_full c \<longleftrightarrow> length (ca_list c) = ca_bound c"
  by (simp add: ca_is_full_def ca_wfD ca_bound_def word_unat_eq_iff)

lemma ca_occupancy_length: "unat (ca_occupancy c) = length (ca_list c)"
  by (simp add: ca_occupancy_def ca_list_def)

text \<open>The slot arithmetic does not wrap in a well-formed buffer.\<close>

lemma ca_slot_unat:
  assumes wf: "ca_wf c" and i: "unat i \<le> ca_bound c" and pos: "0 < ca_bound c"
  shows "unat ((ca_start c + i) mod ca_capacity c) = (unat (ca_start c) + unat i) mod ca_bound c"
proof -
  have "unat (ca_start c) + unat i < 2 ^ 64"
    using ca_wfD [OF wf] i pos by (simp add: max_new_def)
  then have "unat (ca_start c + i) = unat (ca_start c) + unat i"
    by (simp add: unat_add_nowrap)
  then show ?thesis by (simp add: unat_mod ca_bound_def)
qed

lemma ca_capacity_nonzero: "0 < ca_bound c \<longleftrightarrow> ca_capacity c \<noteq> 0"
  by (auto simp: ca_bound_def unat_gt_0)

lemma ca_index_ok:
  assumes "ca_size c \<noteq> 0"
  shows "index > ca_size c - 1 \<longleftrightarrow> unat (ca_size c) \<le> unat index"
  using assms unat_pos [OF assms]
  by (auto simp: word_less_nat_alt unat_dec)

lemma ca_slot_ok:
  assumes wf: "ca_wf c" and i: "unat i < length (ca_list c)"
  shows "\<exists>k. ca_slot c i = Inr k \<and> unat k = (unat (ca_start c) + unat i) mod ca_bound c \<and>
    unat k < length (ca_array c)"
proof -
  note D = ca_wfD [OF wf]
  have n: "unat i < unat (ca_size c)" using i D by simp
  then have nz: "ca_size c \<noteq> 0" and pos: "0 < ca_bound c" using D by auto
  have "\<not> index > ca_size c - 1" if "index = i" for index
    using ca_index_ok [OF nz, of i] n that by simp
  then have "ca_slot c i = Inr ((ca_start c + i) mod ca_capacity c)"
    using pos by (simp add: ca_slot_def u64_mod_def ca_capacity_nonzero)
  moreover have "unat ((ca_start c + i) mod ca_capacity c) = (unat (ca_start c) + unat i) mod ca_bound c"
    using ca_slot_unat [OF wf _ pos] n D by simp
  moreover have "(unat (ca_start c) + unat i) mod ca_bound c < length (ca_array c)"
    using D(1) pos by simp
  ultimately show ?thesis by simp
qed

lemma ca_get_ok [abs_simps]:
  assumes "ca_wf c" and "unat i < length (ca_list c)"
  shows "ca_get c i = Inr (ca_list c ! unat i)"
proof -
  note D = ca_wfD [OF assms(1)]
  obtain k where "ca_slot c i = Inr k"
    and "unat k = (unat (ca_start c) + unat i) mod ca_bound c" "unat k < length (ca_array c)"
    using ca_slot_ok [OF assms] by blast
  then show ?thesis
    using D(1) assms(2) by (simp add: ca_get_def arr_load_def ca_list_def)
qed

lemma ca_set_ok [abs_simps]:
  assumes "ca_wf c" and "unat i < length (ca_list c)"
  shows "\<exists>c'. ca_set c i v = Inr c' \<and> ca_wf c' \<and> ca_list c' = (ca_list c)[unat i := v] \<and>
    ca_bound c' = ca_bound c \<and> ca_size c' = ca_size c"
proof -
  note D = ca_wfD [OF assms(1)]
  obtain k where k: "ca_slot c i = Inr k"
      "unat k = (unat (ca_start c) + unat i) mod ca_bound c" "unat k < length (ca_array c)"
    using ca_slot_ok [OF assms] by blast
  define c' where "c' = c\<lparr>ca_array := (ca_array c)[unat k := v]\<rparr>"
  have "ca_set c i v = Inr c'"
    using k by (simp add: ca_set_def arr_store_def c'_def)
  moreover have "ca_wf c'"
    using assms(1) by (simp add: c'_def ca_wf_def)
  moreover have "ca_list c' = (ca_list c)[unat i := v]"
    using ring_view_set [of "unat (ca_size c)" "ca_array c" "unat i" "unat (ca_start c)" v]
      k(2) assms(2) D by (simp add: c'_def ca_list_def)
  ultimately show ?thesis by (simp add: c'_def ca_bound_def)
qed

section \<open>What the end operations do to the list\<close>

lemma ca_store_back_ok:
  assumes wf: "ca_wf c" and room: "length (ca_list c) < ca_bound c"
  shows "\<exists>c'. ca_store_back c v = Inr (SUCCESS, c') \<and> ca_wf c' \<and> ca_list c' = ca_list c @ [v] \<and>
    ca_bound c' = ca_bound c"
proof -
  note D = ca_wfD [OF wf]
  define k where "k = (ca_start c + ca_size c) mod ca_capacity c"
  define c' where "c' = c\<lparr>ca_array := (ca_array c)[unat k := v], ca_size := ca_size c + 1\<rparr>"
  have pos: "0 < ca_bound c" using room by simp
  have k: "unat k = (unat (ca_start c) + unat (ca_size c)) mod length (ca_array c)"
    using ca_slot_unat [OF wf _ pos] D by (simp add: k_def)
  then have "unat k < length (ca_array c)" using pos D(1) by simp
  then have "ca_store_back c v = Inr (SUCCESS, c')"
    using pos by (simp add: ca_store_back_def u64_mod_def ca_capacity_nonzero arr_store_def
        k_def [symmetric] c'_def)
  moreover have n': "unat (ca_size c + 1) = Suc (unat (ca_size c))"
    using room D by (subst unat_inc_nowrap) (auto simp: max_new_def)
  moreover have "ca_wf c'"
    using wf room D n' by (intro ca_wfI) (simp_all add: c'_def ca_bound_def)
  moreover have "ca_list c' = ca_list c @ [v]"
    using ring_view_push_back [of "unat (ca_size c)" "ca_array c" "unat (ca_start c)" v] room D k n'
    by (simp add: c'_def ca_list_def)
  ultimately show ?thesis by (simp add: c'_def ca_bound_def)
qed

lemma ca_pop_back_ref_ok:
  assumes wf: "ca_wf c" and ne: "ca_list c \<noteq> []"
  shows "\<exists>c'. ca_pop_back_ref c = Inr (SUCCESS, Some (last (ca_list c)), c') \<and> ca_wf c' \<and>
    ca_list c' = butlast (ca_list c) \<and> ca_bound c' = ca_bound c"
proof -
  note D = ca_wfD [OF wf]
  define c' where "c' = c\<lparr>ca_size := ca_size c - 1\<rparr>"
  define k where "k = (ca_start c + (ca_size c - 1)) mod ca_capacity c"
  have nz: "ca_size c \<noteq> 0" using ne D by (auto simp: ca_list_def)
  have n1: "unat (ca_size c - 1) = unat (ca_size c) - 1" by (rule unat_dec [OF nz])
  have n: "unat (ca_size c) = Suc (unat (ca_size c) - 1)" using unat_pos [OF nz] by simp
  have pos: "0 < ca_bound c" using D n by linarith
  have k: "unat k = (unat (ca_start c) + (unat (ca_size c) - 1)) mod length (ca_array c)"
    using ca_slot_unat [OF wf _ pos, of "ca_size c - 1"] D n1 by (simp add: k_def)
  then have kl: "unat k < length (ca_array c)" using pos D(1) by simp
  have split: "ca_list c = ring_view (ca_array c) (unat (ca_start c)) (unat (ca_size c) - 1)
      @ [ca_array c ! unat k]"
    using ring_view_snoc [of "ca_array c" "unat (ca_start c)" "unat (ca_size c) - 1"] n k
    by (simp add: ca_list_def)
  have "ca_pop_back_ref c = Inr (SUCCESS, Some (ca_array c ! unat k), c')"
    using pos kl nz by (simp add: ca_pop_back_ref_def u64_mod_def ca_capacity_nonzero arr_load_def
        k_def [symmetric] c'_def add_diff_eq [symmetric])
  moreover have "ca_wf c'"
    using wf D n1 by (intro ca_wfI) (simp_all add: c'_def ca_bound_def)
  ultimately show ?thesis
    using split n1 by (simp add: c'_def ca_bound_def ca_list_def)
qed

lemma ca_pop_front_ref_ok:
  assumes wf: "ca_wf c" and ne: "ca_list c \<noteq> []"
  shows "\<exists>c'. ca_pop_front_ref c = Inr (SUCCESS, Some (hd (ca_list c)), c') \<and> ca_wf c' \<and>
    ca_list c' = tl (ca_list c) \<and> ca_bound c' = ca_bound c"
proof -
  note D = ca_wfD [OF wf]
  define s' where "s' = (ca_start c + 1) mod ca_capacity c"
  define c' where "c' = c\<lparr>ca_size := ca_size c - 1, ca_start := s'\<rparr>"
  have nz: "ca_size c \<noteq> 0" using ne D by (auto simp: ca_list_def)
  have n1: "unat (ca_size c - 1) = unat (ca_size c) - 1" by (rule unat_dec [OF nz])
  have n: "unat (ca_size c) = Suc (unat (ca_size c) - 1)" using unat_pos [OF nz] by simp
  have pos: "0 < ca_bound c" using D n by linarith
  have s': "unat s' = (unat (ca_start c) + 1) mod length (ca_array c)"
    using ca_slot_unat [OF wf _ pos, of 1] D pos by (simp add: s'_def)
  have sl: "unat (ca_start c) < length (ca_array c)" using D pos by simp
  have split: "ca_list c = ca_array c ! unat (ca_start c)
      # ring_view (ca_array c) (unat s') (unat (ca_size c) - 1)"
    using ring_view_shift [of "ca_array c" "unat (ca_start c)" "unat (ca_size c) - 1"] n s' sl pos D
    by (simp add: ca_list_def)
  have "ca_pop_front_ref c = Inr (SUCCESS, Some (ca_array c ! unat (ca_start c)), c')"
    using pos sl nz by (simp add: ca_pop_front_ref_def u64_mod_def ca_capacity_nonzero arr_load_def
        s'_def [symmetric] c'_def)
  moreover have "ca_wf c'"
    using wf D n1 s' pos by (intro ca_wfI) (simp_all add: c'_def ca_bound_def)
  ultimately show ?thesis
    using split n1 by (simp add: c'_def ca_bound_def ca_list_def)
qed

lemma ca_store_front_ok:
  assumes wf: "ca_wf c" and room: "length (ca_list c) < ca_bound c"
  shows "\<exists>c'. ca_store_front c v = Inr (SUCCESS, c') \<and> ca_wf c' \<and> ca_list c' = v # ca_list c \<and>
    ca_bound c' = ca_bound c"
proof -
  note D = ca_wfD [OF wf]
  define m where "m = length (ca_array c)"
  define s where "s = (if ca_start c = 0 then ca_capacity c - 1 else ca_start c - 1)"
  define c' where "c' = c\<lparr>ca_array := (ca_array c)[unat s := v], ca_start := s,
    ca_size := ca_size c + 1\<rparr>"
  have pos: "0 < ca_bound c" using room by simp
  have m: "m = ca_bound c" "0 < m" using D pos by (simp_all add: m_def)
  have s: "unat s = (if unat (ca_start c) = 0 then m - 1 else unat (ca_start c) - 1)"
    using pos m by (auto simp: s_def unat_dec ca_bound_def unat_eq_zero unat_gt_0)
  then have sl: "unat s < m" using m D(4) [OF pos] by auto
  have nxt: "(unat s + 1) mod m = unat (ca_start c)"
    using s m D(4) [OF pos] by (cases "unat (ca_start c) = 0") auto
  have prev: "(unat (ca_start c) + (m - 1)) mod m = unat s"
  proof (cases "unat (ca_start c)")
    case 0
    then show ?thesis using s m by simp
  next
    case (Suc j)
    then have "unat (ca_start c) + (m - 1) = j + m" using m by simp
    then show ?thesis using s m D(4) [OF pos] Suc by simp
  qed
  have "ca_store_front c v = Inr (SUCCESS, c')"
    using sl by (simp add: ca_store_front_def arr_store_def s_def [symmetric] c'_def m_def Let_def)
  moreover have n': "unat (ca_size c + 1) = Suc (unat (ca_size c))"
    using room D by (subst unat_inc_nowrap) (auto simp: max_new_def)
  moreover have "ca_wf c'"
    using D room n' sl m by (intro ca_wfI) (simp_all add: c'_def ca_bound_def)
  moreover have "ca_list c' = v # ca_list c"
  proof -
    have keep: "ring_view ((ca_array c)[unat s := v]) (unat (ca_start c)) (unat (ca_size c))
        = ca_list c"
      using ring_view_update_other [of "unat (ca_size c)" "m - 1" "ca_array c" "unat (ca_start c)" v]
        prev m D room by (simp add: ca_list_def m_def)
    have "ca_array c \<noteq> []" using m by (auto simp: m_def)
    then show ?thesis
      using ring_view_shift [of "(ca_array c)[unat s := v]" "unat s" "unat (ca_size c)"]
        keep n' sl nxt m by (simp add: c'_def ca_list_def m_def)
  qed
  ultimately show ?thesis by (simp add: c'_def ca_bound_def)
qed

section \<open>The abstract deque and the refinement\<close>

text \<open>
  What the buffer promises: a list of at most \<open>b\<close> elements, open at both ends, whose
  additions are refused or displace the far end when it is full.
\<close>

datatype 'a end_op = Push_back 'a bool | Push_front 'a bool | Pop_back | Pop_front

datatype 'a end_out = Pushed ca_rc | Popped 'a

fun dq_do :: "nat \<Rightarrow> 'a end_op \<Rightarrow> 'a list \<Rightarrow> ('a end_out \<times> 'a list) res" where
  "dq_do b (Push_back v over) xs =
     (if length xs \<noteq> b then Inr (Pushed SUCCESS, xs @ [v])
      else if \<not> over then Inr (Pushed NO_SPACE_ERROR, xs)
      else if xs = [] then Inl Empty_buffer
      else Inr (Pushed SUCCESS, tl xs @ [v]))"
| "dq_do b (Push_front v over) xs =
     (if length xs \<noteq> b then Inr (Pushed SUCCESS, v # xs)
      else if \<not> over then Inr (Pushed NO_SPACE_ERROR, xs)
      else if xs = [] then Inl Empty_buffer
      else Inr (Pushed SUCCESS, v # butlast xs))"
| "dq_do b Pop_back xs = (if xs = [] then Inl Empty_buffer else Inr (Popped (last xs), butlast xs))"
| "dq_do b Pop_front xs = (if xs = [] then Inl Empty_buffer else Inr (Popped (hd xs), tl xs))"

fun ca_do :: "'a end_op \<Rightarrow> 'a circ_array \<Rightarrow> ('a end_out \<times> 'a circ_array) res" where
  "ca_do (Push_back v over) c = bindr (ca_push_back c v over) (\<lambda>(rc, c'). Inr (Pushed rc, c'))"
| "ca_do (Push_front v over) c = bindr (ca_push_front c v over) (\<lambda>(rc, c'). Inr (Pushed rc, c'))"
| "ca_do Pop_back c = bindr (ca_pop_back c) (\<lambda>(x, c'). Inr (Popped x, c'))"
| "ca_do Pop_front c = bindr (ca_pop_front c) (\<lambda>(x, c'). Inr (Popped x, c'))"

text \<open>A client that catches the exceptions sees the outputs of a sequence of calls.\<close>

fun ca_run :: "'a end_op list \<Rightarrow> 'a circ_array \<Rightarrow> 'a end_out res list" where
  "ca_run [] c = []"
| "ca_run (p # ps) c =
     (case ca_do p c of Inl e \<Rightarrow> Inl e # ca_run ps c | Inr (x, c') \<Rightarrow> Inr x # ca_run ps c')"

fun dq_run :: "nat \<Rightarrow> 'a end_op list \<Rightarrow> 'a list \<Rightarrow> 'a end_out res list" where
  "dq_run b [] xs = []"
| "dq_run b (p # ps) xs =
     (case dq_do b p xs of Inl e \<Rightarrow> Inl e # dq_run b ps xs | Inr (x, ys) \<Rightarrow> Inr x # dq_run b ps ys)"

lemma ca_pop_back_ok [abs_simps]:
  assumes "ca_wf c" and "ca_list c \<noteq> []"
  shows "\<exists>c'. ca_pop_back c = Inr (last (ca_list c), c') \<and> ca_wf c' \<and>
    ca_list c' = butlast (ca_list c) \<and> ca_bound c' = ca_bound c"
  using ca_pop_back_ref_ok [OF assms] by (auto simp: ca_pop_back_def popped_or_throw_def)

lemma ca_pop_front_ok [abs_simps]:
  assumes "ca_wf c" and "ca_list c \<noteq> []"
  shows "\<exists>c'. ca_pop_front c = Inr (hd (ca_list c), c') \<and> ca_wf c' \<and>
    ca_list c' = tl (ca_list c) \<and> ca_bound c' = ca_bound c"
  using ca_pop_front_ref_ok [OF assms] by (auto simp: ca_pop_front_def popped_or_throw_def)

lemma ca_pop_empty [abs_simps]:
  assumes "ca_list c = []"
  shows "ca_pop_back c = Inl Empty_buffer" and "ca_pop_front c = Inl Empty_buffer"
  using assms ca_empty_iff [of c]
  by (simp_all add: ca_pop_back_def ca_pop_front_def popped_or_throw_def ca_pop_back_ref_def
      ca_pop_front_ref_def ca_empty_def)

lemma ca_size_lt_capacity:
  "ca_wf c \<Longrightarrow> ca_size c < ca_capacity c \<longleftrightarrow> length (ca_list c) < ca_bound c"
  by (simp add: ca_wfD ca_bound_def word_less_nat_alt)

lemma ca_do_refines:
  assumes wf: "ca_wf c"
  shows "case ca_do p c of
      Inl e \<Rightarrow> dq_do (ca_bound c) p (ca_list c) = Inl e
    | Inr (x, c') \<Rightarrow> ca_wf c' \<and> ca_bound c' = ca_bound c \<and>
        dq_do (ca_bound c) p (ca_list c) = Inr (x, ca_list c')"
proof -
  have full: "ca_size c = ca_capacity c \<longleftrightarrow> length (ca_list c) = ca_bound c"
    using ca_full_iff [OF wf] by (simp add: ca_is_full_def)
  have room: "length (ca_list c) < ca_bound c" if "length (ca_list c) \<noteq> ca_bound c"
    using that ca_list_length [OF wf] by simp
  show ?thesis
  proof (cases p)
    case (Push_back v over)
    show ?thesis
    proof (cases "length (ca_list c) = ca_bound c \<and> over \<and> ca_list c \<noteq> []")
      case True
      then obtain c1 where c1: "ca_pop_front c = Inr (hd (ca_list c), c1)" "ca_wf c1"
          "ca_list c1 = tl (ca_list c)" "ca_bound c1 = ca_bound c"
        using ca_pop_front_ok [OF wf] by blast
      then have r: "length (ca_list c1) < ca_bound c1" using True by (cases "ca_list c") auto
      then show ?thesis
        using Push_back True c1 ca_store_back_ok [OF c1(2) r, of v] full ca_size_lt_capacity [OF c1(2)]
        by (auto simp: ca_push_back_def)
    qed (use Push_back full room ca_store_back_ok [OF wf, of v] ca_pop_empty [of c] wf in
        \<open>auto simp: ca_push_back_def\<close>)
  next
    case (Push_front v over)
    show ?thesis
    proof (cases "length (ca_list c) = ca_bound c \<and> over \<and> ca_list c \<noteq> []")
      case True
      then obtain c1 where c1: "ca_pop_back c = Inr (last (ca_list c), c1)" "ca_wf c1"
          "ca_list c1 = butlast (ca_list c)" "ca_bound c1 = ca_bound c"
        using ca_pop_back_ok [OF wf] by blast
      then have r: "length (ca_list c1) < ca_bound c1" using True by (cases "ca_list c") auto
      then show ?thesis
        using Push_front True c1 ca_store_front_ok [OF c1(2) r, of v] full ca_size_lt_capacity [OF c1(2)]
        by (auto simp: ca_push_front_def)
    qed (use Push_front full room ca_store_front_ok [OF wf, of v] ca_pop_empty [of c] wf in
        \<open>auto simp: ca_push_front_def\<close>)
  next
    case Pop_back
    then show ?thesis
      using ca_pop_back_ok [OF wf] ca_pop_empty [of c] by (cases "ca_list c = []") auto
  next
    case Pop_front
    then show ?thesis
      using ca_pop_front_ok [OF wf] ca_pop_empty [of c] by (cases "ca_list c = []") auto
  qed
qed

lemma ca_new_ok [wf_intros]:
  assumes "ca_new junk cap = Inr c"
  shows "ca_wf c" and "ca_list c = []" and "ca_bound c = unat cap"
  using assms
  by (auto simp: ca_new_def ca_set_initial_values_def new_array_def ca_wf_def ca_list_def
      ca_bound_def bindr_Inr_iff word_gt_0 split: if_splits)

lemma ca_new_small: "unat cap \<le> max_new \<Longrightarrow> \<exists>c. ca_new junk cap = Inr c"
  by (simp add: ca_new_def ca_set_initial_values_def new_array_def)

lemma ca_run_refines:
  assumes "ca_wf c"
  shows "ca_run ps c = dq_run (ca_bound c) ps (ca_list c)"
  using assms
proof (induction ps arbitrary: c)
  case Nil
  then show ?case by simp
next
  case (Cons p ps)
  show ?case
    using ca_do_refines [OF Cons.prems, of p] Cons.IH [OF Cons.prems] Cons.IH
    by (auto split: sum.splits prod.splits)
qed

section \<open>The loops over the whole buffer\<close>

lemma ca_index_less:
  assumes "ca_wf c" and "i < 2 ^ 64"
  shows "(of_nat i :: u64) < ca_size c \<longleftrightarrow> i < length (ca_list c)"
  using assms by (simp add: ca_wfD word_less_nat_alt unat_of_nat_small)

lemma ca_index_last:
  assumes "ca_wf c" and "i < length (ca_list c)"
  shows "(of_nat i :: u64) = ca_size c - 1 \<longleftrightarrow> Suc i = length (ca_list c)"
proof -
  note D = ca_wfD [OF assms(1)]
  have nz: "ca_size c \<noteq> 0" using assms(2) D by auto
  have "i < 2 ^ 64" using assms(2) D by (simp add: max_new_def)
  then have "(of_nat i :: u64) = ca_size c - 1 \<longleftrightarrow> i = unat (ca_size c) - 1"
    by (simp add: word_unat_eq_iff unat_dec [OF nz] unat_of_nat_small)
  then show ?thesis using assms(2) D by auto
qed

lemma ca_pop_at_loop_ok:
  assumes "ca_wf c" and "i < length (ca_list c)" and "length (ca_list c) < 2 ^ 31"
  shows "\<exists>c'. ca_pop_at_loop (int i) c = Inr c' \<and> ca_wf c' \<and> ca_bound c' = ca_bound c \<and>
    ca_list c' = take i (ca_list c) @ drop (Suc i) (ca_list c)"
  using assms
proof (induction "length (ca_list c) - i" arbitrary: i c)
  case 0
  then show ?case by simp
next
  case (Suc d)
  note wf = Suc.prems(1) and i = Suc.prems(2)
  have bnd: "i < 2 ^ 64" "\<not> int i \<ge> int_max" "Suc i < 2 ^ 64" using Suc.prems by simp_all
  have lt: "(of_nat i :: u64) < ca_size c" using ca_index_less [OF wf bnd(1)] i by simp
  have unf: "ca_pop_at_loop (int i) c =
      bindr (if Suc i = length (ca_list c)
        then bindr (ca_pop_back c) (\<lambda>(_, c'). Inr c')
        else bindr (ca_get c (of_nat (Suc i))) (\<lambda>v. ca_set c (of_nat i) v))
        (ca_pop_at_loop (int (Suc i)))"
    using lt bnd ca_index_last [OF wf i]
    by (subst ca_pop_at_loop.simps) (simp add: add.commute)
  show ?case
  proof (cases "Suc i = length (ca_list c)")
    case True
    have "ca_list c \<noteq> []" using i by auto
    then obtain c' where c': "ca_pop_back c = Inr (last (ca_list c), c')" "ca_wf c'"
        "ca_list c' = butlast (ca_list c)" "ca_bound c' = ca_bound c"
      using ca_pop_back_ok [OF wf] by blast
    have "\<not> (of_nat (Suc i) :: u64) < ca_size c'"
      using ca_index_less [OF c'(2) bnd(3)] c'(3) True by simp
    then have "ca_pop_at_loop (int (Suc i)) c' = Inr c'"
      by (subst ca_pop_at_loop.simps) simp
    moreover have "butlast (ca_list c) = take i (ca_list c) @ drop (Suc i) (ca_list c)"
      by (simp add: butlast_conv_take True [symmetric])
    ultimately show ?thesis using unf True c' by simp
  next
    case False
    then have si: "Suc i < length (ca_list c)" using i by simp
    have u: "unat (of_nat (Suc i) :: u64) = Suc i" "unat (of_nat i :: u64) = i"
      by (rule unat_of_nat_small, use bnd in simp)+
    obtain c1 where c1: "ca_set c (of_nat i) (ca_list c ! Suc i) = Inr c1" "ca_wf c1"
        "ca_list c1 = (ca_list c)[i := ca_list c ! Suc i]" "ca_bound c1 = ca_bound c"
      using ca_set_ok [OF wf, of "of_nat i" "ca_list c ! Suc i"] i u by auto
    have g: "ca_get c (of_nat (Suc i)) = Inr (ca_list c ! Suc i)"
      using ca_get_ok [OF wf, of "of_nat (Suc i)"] si u(1) by simp
    have "d = length (ca_list c1) - Suc i" "Suc i < length (ca_list c1)"
        "length (ca_list c1) < 2 ^ 31"
      using Suc.hyps(2) c1(3) si Suc.prems(3) by simp_all
    then obtain c' where c': "ca_pop_at_loop (int (Suc i)) c1 = Inr c'" "ca_wf c'"
        "ca_bound c' = ca_bound c1" "ca_list c' = take (Suc i) (ca_list c1) @ drop (Suc (Suc i)) (ca_list c1)"
      using Suc.hyps(1) c1(2) by blast
    have "take (Suc i) (ca_list c1) @ drop (Suc (Suc i)) (ca_list c1)
        = take i (ca_list c) @ drop (Suc i) (ca_list c)"
      using c1(3) si by (simp add: take_Suc_conv_app_nth Cons_nth_drop_Suc)
    then show ?thesis using unf False g c1 c' by simp
  qed
qed

lemma ca_pop_at_ok [abs_simps]:
  assumes wf: "ca_wf c" and i: "unat i < length (ca_list c)" and n: "length (ca_list c) < 2 ^ 31"
  shows "\<exists>c'. ca_pop_at c i = Inr (ca_list c ! unat i, c') \<and> ca_wf c' \<and> ca_bound c' = ca_bound c \<and>
    ca_list c' = take (unat i) (ca_list c) @ drop (Suc (unat i)) (ca_list c)"
proof -
  note D = ca_wfD [OF wf]
  have nz: "ca_size c \<noteq> 0" using i D by auto
  have ok: "\<not> i > ca_size c - 1" using ca_index_ok [OF nz, of i] i D by simp
  have "sint (ucast i :: u32) = int (unat i)" using i n by (simp add: sint_ucast_small)
  then show ?thesis
    using ok ca_get_ok [OF wf i] ca_pop_at_loop_ok [OF wf i n]
    by (auto simp: ca_pop_at_def)
qed

lemma ca_resize_loop_ok:
  assumes wf: "ca_wf c" and n: "length (ca_list c) < 2 ^ 31"
    and t: "length (ca_list c) \<le> length temp"
  shows "i \<le> length (ca_list c) \<Longrightarrow> ca_resize_loop c (int i) temp =
    Inr (take i temp @ drop i (ca_list c) @ drop (length (ca_list c)) temp)"
  using t
proof (induction "length (ca_list c) - i" arbitrary: i temp)
  case 0
  then have "\<not> (of_nat i :: u64) < ca_size c"
    using ca_index_less [OF wf, of i] n by simp
  then show ?case using 0 by (subst ca_resize_loop.simps) simp
next
  case (Suc d)
  let ?L = "ca_list c"
  have i: "i < length ?L" and b: "i < 2 ^ 64" "\<not> int i \<ge> int_max"
    using Suc.hyps(2) n by simp_all
  have u: "unat (of_nat i :: u64) = i" by (rule unat_of_nat_small) (use b in simp)
  have lt: "(of_nat i :: u64) < ca_size c" using ca_index_less [OF wf b(1)] i by simp
  have g: "ca_get c (of_nat i) = Inr (?L ! i)"
    using ca_get_ok [OF wf, of "of_nat i"] i u by simp
  have st: "arr_store temp (of_nat i) (?L ! i) = Inr (temp[i := ?L ! i])"
    using i Suc.prems(2) u by (simp add: arr_store_def)
  have step: "ca_resize_loop c (int i) temp = ca_resize_loop c (int (Suc i)) (temp[i := ?L ! i])"
    using lt g st b(2) by (subst ca_resize_loop.simps) (simp add: add.commute)
  have h: "d = length ?L - Suc i" "Suc i \<le> length ?L" "length ?L \<le> length (temp[i := ?L ! i])"
    using Suc.hyps(2) Suc.prems by simp_all
  have il: "i < length temp" using i Suc.prems(2) by simp
  have "take (Suc i) (temp[i := ?L ! i]) @ drop (Suc i) ?L @ drop (length ?L) (temp[i := ?L ! i])
      = take i temp @ drop i ?L @ drop (length ?L) temp"
    using i il by (simp add: take_Suc_conv_app_nth Cons_nth_drop_Suc [symmetric])
  then show ?case using Suc.hyps(1) [OF h] step by simp
qed

lemma ca_resize_ok [abs_simps]:
  assumes wf: "ca_wf c" and n: "length (ca_list c) < 2 ^ 31" and b: "2 * ca_bound c \<le> max_new"
  shows "\<exists>c'. ca_resize_by_two junk c = Inr c' \<and> ca_wf c' \<and> ca_list c' = ca_list c \<and>
    ca_bound c' = 2 * ca_bound c"
proof -
  note D = ca_wfD [OF wf]
  have u: "unat (ca_capacity c * 2) = 2 * ca_bound c"
    using b by (subst unat_word_ariths) (simp add: ca_bound_def max_new_def)
  define temp0 where "temp0 = map junk [0..<2 * ca_bound c]"
  define temp where "temp = ca_list c @ drop (length (ca_list c)) temp0"
  define c' where "c' = c\<lparr>ca_capacity := ca_capacity c * 2, ca_start := 0, ca_array := temp\<rparr>"
  have t0: "length (ca_list c) \<le> length temp0" using D by (simp add: temp0_def)
  have "new_array junk (ca_capacity c * 2) = Inr temp0"
    using u b by (simp add: new_array_def temp0_def)
  moreover have "ca_resize_loop c 0 temp0 = Inr temp"
    using ca_resize_loop_ok [OF wf n t0, of 0] by (simp add: temp_def)
  ultimately have "ca_resize_by_two junk c = Inr c'"
    by (simp add: ca_resize_by_two_def c'_def)
  moreover have "ca_wf c'"
    using D u b t0 by (intro ca_wfI) (simp_all add: c'_def ca_bound_def temp_def temp0_def)
  moreover have "ca_list c' = ca_list c"
  proof (rule nth_equalityI)
    have l: "ca_list c' = ring_view temp 0 (unat (ca_size c))" by (simp add: c'_def ca_list_def)
    then show "length (ca_list c') = length (ca_list c)" using D by simp
    fix i assume "i < length (ca_list c')"
    then have "i < unat (ca_size c)" using l by simp
    then show "ca_list c' ! i = ca_list c ! i"
      using l D(2) by (simp add: temp_def nth_append)
  qed
  ultimately show ?thesis using u by (simp add: c'_def ca_bound_def)
qed

lemma ca_copy_loop_ok:
  assumes wf: "ca_wf rhs" and n: "length (ca_list rhs) < 2 ^ 31"
  shows "i \<le> length (ca_list rhs) \<Longrightarrow> ca_wf lhs \<Longrightarrow> length (ca_list lhs) = length (ca_list rhs) \<Longrightarrow>
    \<exists>lhs'. ca_copy_loop rhs (int i) lhs = Inr lhs' \<and> ca_wf lhs' \<and> ca_bound lhs' = ca_bound lhs \<and>
      ca_list lhs' = take i (ca_list lhs) @ drop i (ca_list rhs)"
proof (induction "length (ca_list rhs) - i" arbitrary: i lhs)
  case 0
  then have "\<not> (of_nat i :: u64) < ca_size rhs"
    using ca_index_less [OF wf, of i] n by simp
  then show ?case using 0 by (subst ca_copy_loop.simps) simp
next
  case (Suc d)
  let ?L = "ca_list rhs"
  have i: "i < length ?L" and b: "i < 2 ^ 64" "\<not> int i \<ge> int_max"
    using Suc.hyps(2) n by simp_all
  have u: "unat (of_nat i :: u64) = i" by (rule unat_of_nat_small) (use b in simp)
  have lt: "(of_nat i :: u64) < ca_size rhs" using ca_index_less [OF wf b(1)] i by simp
  have g: "ca_get rhs (of_nat i) = Inr (?L ! i)"
    using ca_get_ok [OF wf, of "of_nat i"] i u by simp
  have il: "i < length (ca_list lhs)" using i Suc.prems(3) by simp
  then have iu: "unat (of_nat i :: u64) < length (ca_list lhs)" using u by simp
  obtain l1 where l1: "ca_set lhs (of_nat i) (?L ! i) = Inr l1" "ca_wf l1"
      "ca_list l1 = (ca_list lhs)[i := ?L ! i]" "ca_bound l1 = ca_bound lhs"
    using ca_set_ok [OF Suc.prems(2) iu, of "?L ! i"] u by auto
  have step: "ca_copy_loop rhs (int i) lhs = ca_copy_loop rhs (int (Suc i)) l1"
    using lt g l1(1) b(2) by (subst ca_copy_loop.simps) (simp add: add.commute)
  have h: "d = length ?L - Suc i" "Suc i \<le> length ?L" "length (ca_list l1) = length ?L"
    using Suc.hyps(2) Suc.prems l1(3) by simp_all
  have "take (Suc i) (ca_list l1) @ drop (Suc i) ?L = take i (ca_list lhs) @ drop i ?L"
    using i il l1(3) by (simp add: take_Suc_conv_app_nth Cons_nth_drop_Suc [symmetric])
  then show ?case using Suc.hyps(1) [OF h(1,2) l1(2) h(3)] step l1(4) by simp
qed

lemma ca_copy_ok [abs_simps]:
  assumes wf: "ca_wf c" and n: "length (ca_list c) < 2 ^ 31"
  shows "\<exists>c'. ca_copy junk c = Inr c' \<and> ca_wf c' \<and> ca_list c' = ca_list c \<and> ca_bound c' = ca_bound c"
proof -
  note D = ca_wfD [OF wf]
  define arr where "arr = map junk [0..<ca_bound c]"
  define l where "l = \<lparr>ca_array = arr, ca_start = ca_start c, ca_size = ca_size c,
    ca_capacity = ca_capacity c\<rparr>"
  have "new_array junk (ca_capacity c) = Inr arr"
    using D(5) by (simp add: new_array_def arr_def ca_bound_def)
  moreover have "ca_wf l"
    using wf by (simp add: l_def ca_wf_def arr_def ca_bound_def)
  moreover have "length (ca_list l) = length (ca_list c)" by (simp add: ca_list_def l_def)
  ultimately show ?thesis
    using ca_copy_loop_ok [OF wf n, of 0 l]
    by (auto simp: ca_copy_def ca_deep_copy_def l_def ca_bound_def)
qed

section \<open>The buffer provides the queue contracts\<close>

definition ca_enq :: "'a \<Rightarrow> 'a circ_array \<Rightarrow> 'a circ_array res" where
  "ca_enq x c = drop_result (ca_push_back c x False)"

definition ca_enq_over :: "'a \<Rightarrow> 'a circ_array \<Rightarrow> 'a circ_array res" where
  "ca_enq_over x c = drop_result (ca_push_back c x True)"

definition ca_rev_list :: "'a circ_array \<Rightarrow> 'a list" where
  "ca_rev_list c = rev (ca_list c)"

definition ca_enq_front :: "'a \<Rightarrow> 'a circ_array \<Rightarrow> 'a circ_array res" where
  "ca_enq_front x c = drop_result (ca_push_front c x False)"

lemma ca_push_back_room [abs_simps]:
  assumes "ca_wf c" and "length (ca_list c) < ca_bound c"
  shows "\<exists>c'. ca_push_back c x over = Inr (SUCCESS, c') \<and> ca_wf c' \<and>
    ca_list c' = ca_list c @ [x] \<and> ca_bound c' = ca_bound c"
  using ca_do_refines [OF assms(1), of "Push_back x over"] assms(2)
  by (auto simp: bindr_Inr_iff split: sum.splits)

lemma ca_push_back_full [abs_simps]:
  assumes "ca_wf c" and "length (ca_list c) = ca_bound c"
  shows "ca_push_back c x False = Inr (NO_SPACE_ERROR, c)"
  using ca_full_iff [OF assms(1)] assms(2) by (simp add: ca_push_back_def ca_is_full_def)

lemma ca_push_back_over:
  assumes "ca_wf c" and "length (ca_list c) = ca_bound c" and "0 < ca_bound c"
  shows "\<exists>c'. ca_push_back c x True = Inr (SUCCESS, c') \<and> ca_wf c' \<and>
    ca_list c' = tl (ca_list c) @ [x] \<and> ca_bound c' = ca_bound c"
  using ca_do_refines [OF assms(1), of "Push_back x True"] assms(2,3)
  by (cases "ca_list c") (auto simp: bindr_Inr_iff split: sum.splits)

lemma ca_push_front_room [abs_simps]:
  assumes "ca_wf c" and "length (ca_list c) < ca_bound c"
  shows "\<exists>c'. ca_push_front c x over = Inr (SUCCESS, c') \<and> ca_wf c' \<and>
    ca_list c' = x # ca_list c \<and> ca_bound c' = ca_bound c"
  using ca_do_refines [OF assms(1), of "Push_front x over"] assms(2)
  by (auto simp: bindr_Inr_iff split: sum.splits)

lemma ca_push_front_full [abs_simps]:
  assumes "ca_wf c" and "length (ca_list c) = ca_bound c"
  shows "ca_push_front c x False = Inr (NO_SPACE_ERROR, c)"
  using ca_full_iff [OF assms(1)] assms(2) by (simp add: ca_push_front_def ca_is_full_def)

interpretation ca_fifo: fifo_queue ca_wf ca_list ca_bound ca_enq ca_pop_front
proof unfold_locales
  fix q :: "'a circ_array" and x
  assume wf: "ca_wf q"
  show "length (ca_list q) \<le> ca_bound q" by (rule ca_list_length [OF wf])
  show "\<exists>q'. ca_enq x q = Inr q' \<and> ca_wf q' \<and> ca_list q' = ca_list q @ [x] \<and> ca_bound q' = ca_bound q"
    if "length (ca_list q) < ca_bound q"
    using ca_push_back_room [OF wf that, of x False] by (auto simp: ca_enq_def)
  show "\<exists>q'. ca_pop_front q = Inr (hd (ca_list q), q') \<and> ca_wf q' \<and> ca_list q' = tl (ca_list q) \<and>
      ca_bound q' = ca_bound q" if "ca_list q \<noteq> []"
    by (rule ca_pop_front_ok [OF wf that])
  show "ca_pop_front q = Inl Empty_buffer" if "ca_list q = []"
    by (rule ca_pop_empty(2) [OF that])
  show "ca_enq x q = Inr q" if "length (ca_list q) = ca_bound q"
    using ca_push_back_full [OF wf that] by (simp add: ca_enq_def)
qed

interpretation ca_sliding: sliding_queue ca_wf ca_list ca_bound ca_enq_over ca_pop_front
proof unfold_locales
  fix q :: "'a circ_array" and x
  assume wf: "ca_wf q"
  show "\<exists>q'. ca_enq_over x q = Inr q' \<and> ca_wf q' \<and> ca_list q' = ca_list q @ [x] \<and> ca_bound q' = ca_bound q"
    if "length (ca_list q) < ca_bound q"
    using ca_push_back_room [OF wf that, of x True] by (auto simp: ca_enq_over_def)
  show "\<exists>q'. ca_enq_over x q = Inr q' \<and> ca_wf q' \<and> ca_list q' = tl (ca_list q) @ [x] \<and>
      ca_bound q' = ca_bound q" if "length (ca_list q) = ca_bound q" "0 < ca_bound q"
    using ca_push_back_over [OF wf that, of x] by (auto simp: ca_enq_over_def)
qed (use ca_fifo.bounded ca_fifo.deq_some ca_fifo.deq_none in auto)

interpretation ca_mirror: fifo_queue ca_wf ca_rev_list ca_bound ca_enq_front ca_pop_back
proof unfold_locales
  fix q :: "'a circ_array" and x
  assume wf: "ca_wf q"
  show "length (ca_rev_list q) \<le> ca_bound q"
    using ca_list_length [OF wf] by (simp add: ca_rev_list_def)
  show "\<exists>q'. ca_enq_front x q = Inr q' \<and> ca_wf q' \<and> ca_rev_list q' = ca_rev_list q @ [x] \<and>
      ca_bound q' = ca_bound q" if "length (ca_rev_list q) < ca_bound q"
    using ca_push_front_room [OF wf, of x False] that by (auto simp: ca_enq_front_def ca_rev_list_def)
  show "\<exists>q'. ca_pop_back q = Inr (hd (ca_rev_list q), q') \<and> ca_wf q' \<and>
      ca_rev_list q' = tl (ca_rev_list q) \<and> ca_bound q' = ca_bound q" if "ca_rev_list q \<noteq> []"
    using ca_pop_back_ok [OF wf] that
    by (auto simp: ca_rev_list_def hd_rev rev_butlast)
  show "ca_pop_back q = Inl Empty_buffer" if "ca_rev_list q = []"
    by (rule ca_pop_empty(1)) (use that in \<open>simp add: ca_rev_list_def\<close>)
  show "ca_enq_front x q = Inr q" if "length (ca_rev_list q) = ca_bound q"
    using ca_push_front_full [OF wf] that by (simp add: ca_enq_front_def ca_rev_list_def)
qed

section \<open>Properties\<close>

text \<open>C12: A ring buffer is observationally a bounded deque. For every sequence of pushes (with
  and without overwriting) and throwing pops at either end, from a freshly constructed buffer
  of any capacity the allocator grants, the return codes, the values popped and the exceptions
  thrown are exactly those of a list of at most \<open>capacity\<close> elements.\<close>
theorem circ_array_refines_deque:
  assumes "ca_new junk cap = Inr c"
  shows "ca_run ps c = dq_run (unat cap) ps []"
  using ca_run_refines [OF ca_new_ok(1) [OF assms]] ca_new_ok(2,3) [OF assms] by simp

theorem circ_array_refines_deque_witness:
  "\<exists>c. ca_new (\<lambda>_. 0 :: nat) 2 = Inr c \<and>
     ca_run [Push_back 7 False, Push_front 5 False, Push_back 9 False, Push_back 8 True,
             Pop_front, Pop_back, Pop_back] c =
       [Inr (Pushed SUCCESS), Inr (Pushed SUCCESS), Inr (Pushed NO_SPACE_ERROR),
        Inr (Pushed SUCCESS), Inr (Popped 7), Inr (Popped 8), Inl Empty_buffer]"
proof -
  obtain c where c: "ca_new (\<lambda>_. 0 :: nat) 2 = Inr c"
    using ca_new_small [of 2] by (auto simp: max_new_def)
  show ?thesis
    using c circ_array_refines_deque [OF c] by (intro exI [of _ c]) simp
qed

text \<open>\<open>pop_at\<close> returns the element at the index and closes the gap: the elements after it
  move one place left, the order of the others and the capacity are unchanged. The \<open>int\<close>
  loop counter needs fewer than \<open>2^31\<close> elements.\<close>
theorem circ_array_pop_at_removes:
  assumes "ca_wf c" and "unat i < length (ca_list c)" and "length (ca_list c) < 2 ^ 31"
  shows "\<exists>c'. ca_pop_at c i = Inr (ca_list c ! unat i, c') \<and> ca_wf c' \<and>
    ca_bound c' = ca_bound c \<and>
    ca_list c' = take (unat i) (ca_list c) @ drop (Suc (unat i)) (ca_list c)"
  by (rule ca_pop_at_ok [OF assms])

theorem circ_array_pop_at_removes_witness:
  "\<exists>c'. ca_pop_at \<lparr>ca_array = [10, 20, 30 :: nat], ca_start = 2, ca_size = 3, ca_capacity = 3\<rparr> 1 =
    Inr (10, c') \<and> ca_list c' = [30, 20]"
proof -
  define c :: "nat circ_array" where
    "c = \<lparr>ca_array = [10, 20, 30], ca_start = 2, ca_size = 3, ca_capacity = 3\<rparr>"
  have l: "ca_list c = [30, 10, 20]"
    by (simp add: c_def ca_list_def ring_view_def upt_rec)
  have wf: "ca_wf c" by (simp add: c_def ca_wf_def max_new_def)
  have i: "unat (1 :: u64) < length (ca_list c)" by (simp add: l)
  have n: "length (ca_list c) < 2 ^ 31" by (rule length_lt_2_31) (simp add: l)
  obtain c' where "ca_pop_at c 1 = Inr (ca_list c ! 1, c')"
      "ca_list c' = take 1 (ca_list c) @ drop 2 (ca_list c)"
    using circ_array_pop_at_removes [OF wf i n] by (auto simp: numeral_2_eq_2)
  then show ?thesis using l by (simp add: c_def)
qed

text \<open>\<open>resize_by_two\<close> doubles the capacity and keeps the elements and their order, for any
  position of the window in the old array, and the result is well formed (its window starts
  at slot 0).\<close>
theorem circ_array_resize_keeps_contents:
  assumes "ca_wf c" and "length (ca_list c) < 2 ^ 31" and "2 * ca_bound c \<le> max_new"
  shows "\<exists>c'. ca_resize_by_two junk c = Inr c' \<and> ca_wf c' \<and> ca_list c' = ca_list c \<and>
    ca_bound c' = 2 * ca_bound c"
  by (rule ca_resize_ok [OF assms])

theorem circ_array_resize_keeps_contents_witness:
  "\<exists>c'. ca_resize_by_two (\<lambda>_. 0)
      \<lparr>ca_array = [10, 20, 30 :: nat], ca_start = 2, ca_size = 3, ca_capacity = 3\<rparr> = Inr c' \<and>
    ca_list c' = [30, 10, 20] \<and> ca_bound c' = 6"
proof -
  define c :: "nat circ_array" where
    "c = \<lparr>ca_array = [10, 20, 30], ca_start = 2, ca_size = 3, ca_capacity = 3\<rparr>"
  have l: "ca_list c = [30, 10, 20]"
    by (simp add: c_def ca_list_def ring_view_def upt_rec)
  have wf: "ca_wf c" by (simp add: c_def ca_wf_def max_new_def)
  have n: "length (ca_list c) < 2 ^ 31" by (rule length_lt_2_31) (simp add: l)
  have b: "2 * ca_bound c \<le> max_new" by (simp add: c_def ca_bound_def max_new_def)
  obtain c' where "ca_resize_by_two (\<lambda>_. 0) c = Inr c'" "ca_list c' = ca_list c"
      "ca_bound c' = 2 * ca_bound c"
    using circ_array_resize_keeps_contents [OF wf n b, of "\<lambda>_. 0"] by blast
  then show ?thesis using l by (simp add: c_def ca_bound_def)
qed

text \<open>C34: A push that may overwrite keeps the newest elements: after any sequence of overwriting
  \<open>push_back\<close> calls the buffer holds the last \<open>capacity\<close> elements of everything it was given,
  in order.\<close>
theorem circ_array_overwrite_keeps_newest:
  assumes "ca_wf c" and "0 < ca_bound c"
  shows "\<exists>c'. foldr_res ca_enq_over xs c = Inr c' \<and> ca_wf c' \<and> ca_bound c' = ca_bound c \<and>
    ca_list c' = drop (length (ca_list c @ xs) - ca_bound c) (ca_list c @ xs)"
  by (rule ca_sliding.enq_all_keeps_newest [OF assms])

theorem circ_array_overwrite_keeps_newest_witness:
  "\<exists>c'. foldr_res ca_enq_over [1, 2, 3, 4, 5 :: nat]
      \<lparr>ca_array = [0, 0, 0], ca_start = 1, ca_size = 0, ca_capacity = 3\<rparr> = Inr c' \<and>
    ca_list c' = [3, 4, 5]"
proof -
  define c :: "nat circ_array" where
    "c = \<lparr>ca_array = [0, 0, 0], ca_start = 1, ca_size = 0, ca_capacity = 3\<rparr>"
  have l: "ca_list c = []" by (simp add: c_def ca_list_def)
  have wf: "ca_wf c" by (simp add: c_def ca_wf_def max_new_def)
  have b: "0 < ca_bound c" by (simp add: c_def ca_bound_def)
  show ?thesis
    using circ_array_overwrite_keeps_newest [OF wf b, of "[1, 2, 3, 4, 5]"] l
    unfolding c_def by (auto simp: ca_bound_def)
qed

text \<open>The bounds check of \<open>operator[]\<close> protects a non-empty buffer and nothing else. On a
  non-empty well-formed buffer it throws exactly for the indices outside the contents; on an
  empty one \<open>_size - 1\<close> wraps to the largest \<open>size_t\<close>, so no index throws and a stale or
  uninitialised slot is read.\<close>
theorem circ_array_index_check:
  assumes "ca_wf c" and "0 < ca_bound c"
  shows "(ca_get c i = Inl Invalid_index \<longleftrightarrow> ca_list c \<noteq> [] \<and> length (ca_list c) \<le> unat i) \<and>
    (ca_list c = [] \<longrightarrow> (\<exists>v \<in> set (ca_array c). ca_get c i = Inr v))"
proof -
  note D = ca_wfD [OF assms(1)]
  have stale: "\<exists>v \<in> set (ca_array c). ca_get c i = Inr v" if "ca_list c = []"
  proof -
    have z: "ca_size c - 1 = - 1" using that D by (simp add: unat_eq_zero)
    have "unat ((ca_start c + i) mod ca_capacity c) < length (ca_array c)"
      using assms(2) D by (simp add: unat_mod ca_bound_def)
    then show ?thesis
      using z assms(2) by (simp add: ca_get_def ca_slot_def u64_mod_def arr_load_def
          ca_capacity_nonzero not_less [THEN iffD2, OF word_n1_ge])
  qed
  moreover have "ca_get c i = Inl Invalid_index \<longleftrightarrow> ca_list c \<noteq> [] \<and> length (ca_list c) \<le> unat i"
  proof (cases "ca_list c = []")
    case True
    then show ?thesis using stale by auto
  next
    case False
    then have nz: "ca_size c \<noteq> 0" using D by auto
    then have "i > ca_size c - 1 \<longleftrightarrow> length (ca_list c) \<le> unat i"
      using ca_index_ok [OF nz, of i] D by simp
    then show ?thesis
      using False ca_get_ok [OF assms(1), of i] by (auto simp: ca_get_def ca_slot_def)
  qed
  ultimately show ?thesis by blast
qed

theorem circ_array_index_check_witness:
  "ca_get \<lparr>ca_array = [42 :: nat], ca_start = 0, ca_size = 0, ca_capacity = 1\<rparr> 0 \<noteq>
    Inl Invalid_index"
  using circ_array_index_check
    [of "\<lparr>ca_array = [42 :: nat], ca_start = 0, ca_size = 0, ca_capacity = 1\<rparr>" 0]
  by (simp add: ca_wf_def ca_bound_def ca_list_def max_new_def)

end
