(* ===== verification/Ocl_Ds.thy ===== *)
theory Ocl_Ds
  imports Prelude
begin

text \<open>
  The OpenCL objects of \<^verbatim>\<open>il/ocl_ds.h\<close>: reference counting, contexts, programs, memory
  objects, kernels and their arguments, events, and the commands a queue holds. Every class
  with a counter is a record that extends \<open>ref_counter\<close>, as every class derives from it.
  Objects live in the heaps of an \<open>objs\<close> record; constructors and destructors act on it,
  because they count references of the objects they point to.
\<close>

section \<open>OpenCL constants\<close>

(* src/il/CL/cl.h:137-137 CL_SUCCESS *)
definition CL_SUCCESS :: int where "CL_SUCCESS = 0"
(* src/il/CL/cl.h:141-141 CL_MEM_OBJECT_ALLOCATION_FAILURE *)
definition CL_MEM_OBJECT_ALLOCATION_FAILURE :: int where "CL_MEM_OBJECT_ALLOCATION_FAILURE = -4"
(* src/il/CL/cl.h:148-148 CL_BUILD_PROGRAM_FAILURE *)
definition CL_BUILD_PROGRAM_FAILURE :: int where "CL_BUILD_PROGRAM_FAILURE = -11"
(* src/il/CL/cl.h:158-158 CL_INVALID_VALUE *)
definition CL_INVALID_VALUE :: int where "CL_INVALID_VALUE = -30"
(* src/il/CL/cl.h:162-162 CL_INVALID_CONTEXT *)
definition CL_INVALID_CONTEXT :: int where "CL_INVALID_CONTEXT = -34"
(* src/il/CL/cl.h:164-164 CL_INVALID_COMMAND_QUEUE *)
definition CL_INVALID_COMMAND_QUEUE :: int where "CL_INVALID_COMMAND_QUEUE = -36"
(* src/il/CL/cl.h:166-166 CL_INVALID_MEM_OBJECT *)
definition CL_INVALID_MEM_OBJECT :: int where "CL_INVALID_MEM_OBJECT = -38"
(* src/il/CL/cl.h:172-172 CL_INVALID_PROGRAM *)
definition CL_INVALID_PROGRAM :: int where "CL_INVALID_PROGRAM = -44"
(* src/il/CL/cl.h:176-176 CL_INVALID_KERNEL *)
definition CL_INVALID_KERNEL :: int where "CL_INVALID_KERNEL = -48"
(* src/il/CL/cl.h:181-181 CL_INVALID_WORK_DIMENSION *)
definition CL_INVALID_WORK_DIMENSION :: int where "CL_INVALID_WORK_DIMENSION = -53"
(* src/il/CL/cl.h:182-182 CL_INVALID_WORK_GROUP_SIZE *)
definition CL_INVALID_WORK_GROUP_SIZE :: int where "CL_INVALID_WORK_GROUP_SIZE = -54"
(* src/il/CL/cl.h:191-191 CL_INVALID_GLOBAL_WORK_SIZE *)
definition CL_INVALID_GLOBAL_WORK_SIZE :: int where "CL_INVALID_GLOBAL_WORK_SIZE = -63"
(* src/il/CL/cl.h:642-642 CL_COMPLETE *)
definition CL_COMPLETE :: int where "CL_COMPLETE = 0"
(* src/il/CL/cl.h:643-643 CL_RUNNING *)
definition CL_RUNNING :: int where "CL_RUNNING = 1"
(* src/il/CL/cl.h:645-645 CL_QUEUED *)
definition CL_QUEUED :: int where "CL_QUEUED = 3"

lemmas cl_codes =
  CL_SUCCESS_def CL_MEM_OBJECT_ALLOCATION_FAILURE_def CL_BUILD_PROGRAM_FAILURE_def
  CL_INVALID_VALUE_def CL_INVALID_CONTEXT_def CL_INVALID_COMMAND_QUEUE_def
  CL_INVALID_MEM_OBJECT_def CL_INVALID_PROGRAM_def CL_INVALID_KERNEL_def
  CL_INVALID_WORK_DIMENSION_def CL_INVALID_WORK_GROUP_SIZE_def CL_INVALID_GLOBAL_WORK_SIZE_def
  CL_COMPLETE_def CL_RUNNING_def CL_QUEUED_def

section \<open>Reference counting\<close>

(* src/il/ocl_ds.h:62-64 ref_counter *)
record ref_counter =
  m_counter :: u32

text \<open>\<open>None\<close>: the object deleted itself.\<close>

(* src/il/ocl_ds.h:41-53 ref_counter::ref_cnt_down *)
definition ref_cnt_down :: "'a ref_counter_scheme \<Rightarrow> 'a ref_counter_scheme option" where
  "ref_cnt_down r =
     (let r' = (if m_counter r > 0 then r\<lparr>m_counter := m_counter r - 1\<rparr> else r)
      in if m_counter r' = 0 then None else Some r')"

(* src/il/ocl_ds.h:55-55 ref_counter::ref_cnt_up *)
definition ref_cnt_up :: "'a ref_counter_scheme \<Rightarrow> 'a ref_counter_scheme" where
  "ref_cnt_up r = r\<lparr>m_counter := m_counter r + 1\<rparr>"

text \<open>The same through a pointer.\<close>

definition heap_down :: "('a ref_counter_scheme) heap \<Rightarrow> ptr \<Rightarrow> ('a ref_counter_scheme) heap res" where
  "heap_down h p = bindr (deref h p) (\<lambda>r. Inr (h(p := ref_cnt_down r)))"

definition heap_up :: "('a ref_counter_scheme) heap \<Rightarrow> ptr \<Rightarrow> ('a ref_counter_scheme) heap res" where
  "heap_up h p = bindr (deref h p) (\<lambda>r. Inr (h(p \<mapsto> ref_cnt_up r)))"

section \<open>Contexts and programs\<close>

(* src/il/ocl_ds.h:67-87 _cl_context *)
record cl_context = ref_counter +
  m_allocated_mems :: "ptr set"

(* src/il/ocl_ds.h:70-73 _cl_context::is_mem_obj *)
definition is_mem_obj :: "cl_context \<Rightarrow> ptr \<Rightarrow> bool" where
  "is_mem_obj c mem \<longleftrightarrow> mem \<in> m_allocated_mems c"

(* src/il/ocl_ds.h:75-78 _cl_context::add_mem_obj *)
definition add_mem_obj :: "cl_context \<Rightarrow> ptr \<Rightarrow> bool \<times> cl_context" where
  "add_mem_obj c mem =
     (mem \<notin> m_allocated_mems c, c\<lparr>m_allocated_mems := insert mem (m_allocated_mems c)\<rparr>)"

(* src/il/ocl_ds.h:80-83 _cl_context::remove_mem_obj *)
definition remove_mem_obj :: "cl_context \<Rightarrow> ptr \<Rightarrow> cl_context" where
  "remove_mem_obj c mem = c\<lparr>m_allocated_mems := m_allocated_mems c - {mem}\<rparr>"

(* src/il/ocl_ds.h:90-99 _cl_program *)
record cl_program = ref_counter +
  m_xml_name :: string
  m_build_log :: string
  m_context :: "ptr option"

section \<open>Memory objects\<close>

text \<open>
  The block \<open>UnimemPtr\<close> points to is allocated once, filled and never written again, so the
  pointer is modelled by the bytes of the block.
\<close>

(* src/il/ocl_ds.h:121-130 UnimemPtr *)
record unimem_ptr =
  up_ptr :: "byte list option"
  up_ptr_size :: u64

(* src/il/ocl_ds.h:125-125 UnimemPtr::UnimemPtr *)
definition empty_unimem_ptr :: unimem_ptr where
  "empty_unimem_ptr = \<lparr>up_ptr = None, up_ptr_size = 0\<rparr>"

(* src/il/ocl_ds.h:132-139 _cl_mem *)
record cl_mem = ref_counter +
  m_unimem_ptr :: unimem_ptr
  m_size :: u64

(* src/il/ocl_ds.h:136-139 _cl_mem::_cl_mem *)
definition new_cl_mem :: cl_mem where
  "new_cl_mem = \<lparr>m_counter = 1, m_unimem_ptr = empty_unimem_ptr, m_size = 0\<rparr>"

(* src/il/ocl_ds.h:141-141 _cl_mem::set_unimem_ptr *)
definition set_unimem_ptr :: "cl_mem \<Rightarrow> unimem_ptr \<Rightarrow> u64 \<Rightarrow> cl_mem" where
  "set_unimem_ptr m u_ptr sz = m\<lparr>m_unimem_ptr := u_ptr, m_size := sz\<rparr>"

text \<open>The bus address is the second word of the block; \<open>unsigned\<close> keeps its low half.\<close>

(* src/il/ocl_ds.h:145-160 _cl_mem::get_unimem_bus_address *)
definition get_unimem_bus_address :: "cl_mem \<Rightarrow> u32 res" where
  "get_unimem_bus_address m =
     (case up_ptr (m_unimem_ptr m) of
        None \<Rightarrow> Inr 0
      | Some bs \<Rightarrow>
          (if up_ptr_size (m_unimem_ptr m) = 0 then Inr 0
           else if up_ptr_size (m_unimem_ptr m) < 16 then Inr 0
           else if length bs < 12 then Inl Out_of_bounds
           else Inr (of_nat (le_nat (take 4 (drop 8 bs))))))"

section \<open>Kernels and their arguments\<close>

(* src/il/ocl_ds.h:210-212 KernelArg *)
record kernel_arg =
  ka_value :: "byte list option"
  ka_value_size :: int

text \<open>
  \<open>arg_value\<close> is the readable memory from the user's pointer on, \<open>None\<close> for a null pointer.
\<close>

(* src/il/ocl_ds.h:198-208 KernelArg::set_values *)
definition ka_set_values :: "kernel_arg \<Rightarrow> u64 \<Rightarrow> byte list option \<Rightarrow> kernel_arg res" where
  "ka_set_values a arg_size arg_value =
     (case arg_value of
        None \<Rightarrow> Inr a
      | Some mem \<Rightarrow>
          (if arg_size < 1 then Inr a
           else if length mem < unat arg_size then Inl Out_of_bounds
           else Inr (a\<lparr>ka_value := Some (take (unat arg_size) mem)\<rparr>)))"

(* src/il/ocl_ds.h:175-181 KernelArg::KernelArg *)
definition new_kernel_arg :: "u64 \<Rightarrow> byte list option \<Rightarrow> kernel_arg res" where
  "new_kernel_arg arg_size arg_value =
     ka_set_values \<lparr>ka_value = None, ka_value_size = sint (ucast arg_size :: u32)\<rparr> arg_size arg_value"

(* src/il/ocl_ds.h:191-196 KernelArg::KernelArg(const KernelArg&) *)
definition copy_kernel_arg :: "kernel_arg \<Rightarrow> kernel_arg res" where
  "copy_kernel_arg c =
     ka_set_values \<lparr>ka_value = None, ka_value_size = ka_value_size c\<rparr>
       (word_of_int (ka_value_size c)) (ka_value c)"

(* src/il/ocl_ds.h:214-250 _cl_kernel *)
record cl_kernel = ref_counter +
  k_program :: "ptr option"
  m_args_vector :: "kernel_arg option list"

(* src/il/ocl_ds.h:218-218 _cl_kernel::_cl_kernel *)
definition new_cl_kernel :: "ptr option \<Rightarrow> cl_kernel" where
  "new_cl_kernel prog = \<lparr>m_counter = 1, k_program = prog, m_args_vector = []\<rparr>"

text \<open>\<open>vector::resize\<close>: cut, or filled up with null pointers.\<close>

definition vec_resize :: "'a option list \<Rightarrow> nat \<Rightarrow> 'a option list" where
  "vec_resize v n = take n v @ replicate (n - length v) None"

text \<open>\<open>arg_index + 1\<close> is computed in \<open>cl_uint\<close> and compared as \<open>size_t\<close>.\<close>

(* src/il/ocl_ds.h:231-240 _cl_kernel::set_args *)
definition set_args :: "cl_kernel \<Rightarrow> u32 \<Rightarrow> u64 \<Rightarrow> byte list option \<Rightarrow> cl_kernel res" where
  "set_args k arg_index arg_size arg_value =
     (let v = (if unat (arg_index + 1) > length (m_args_vector k)
               then vec_resize (m_args_vector k) (unat (arg_index + 1))
               else m_args_vector k)
      in bindr (new_kernel_arg arg_size arg_value) (\<lambda>a.
           if unat arg_index < length v
           then Inr (k\<lparr>m_args_vector := v[unat arg_index := Some a]\<rparr>)
           else Inl Out_of_bounds))"

section \<open>Events\<close>

text \<open>
  The one callback the program registers is \<open>on_event_complete\<close> of a command queue; its data
  is the queue's watcher, named by the queue. The callback fields are not initialised by the
  constructor, so calling them before a registration is undefined: \<open>None\<close>.
\<close>

datatype event_cb = On_event_complete ptr

(* src/il/ocl_ds.h:300-309 _cl_event *)
record cl_event = ref_counter +
  m_event_state :: int
  m_error_code :: int
  m_cb :: "event_cb option"

(* src/il/ocl_ds.h:258-262 _cl_event::_cl_event *)
definition new_cl_event :: cl_event where
  "new_cl_event = \<lparr>m_counter = 1, m_event_state = CL_QUEUED, m_error_code = CL_SUCCESS, m_cb = None\<rparr>"

(* src/il/ocl_ds.h:264-264 _cl_event::set_as_running *)
definition set_as_running :: "cl_event \<Rightarrow> cl_event" where
  "set_as_running e = e\<lparr>m_event_state := CL_RUNNING\<rparr>"

text \<open>The event after the call and the callback it makes.\<close>

(* src/il/ocl_ds.h:266-275 _cl_event::set_as_complete *)
definition set_as_complete :: "cl_event \<Rightarrow> (cl_event \<times> event_cb) res" where
  "set_as_complete e =
     (case m_cb e of
        None \<Rightarrow> Inl Null_deref
      | Some cb \<Rightarrow> Inr (e\<lparr>m_event_state := CL_COMPLETE\<rparr>, cb))"

(* src/il/ocl_ds.h:277-277 _cl_event::set_error *)
definition set_error :: "cl_event \<Rightarrow> int \<Rightarrow> cl_event" where
  "set_error e err_code = e\<lparr>m_error_code := err_code\<rparr>"

text \<open>A thread in \<open>wait_until_complete\<close> leaves the loop when this holds.\<close>

(* src/il/ocl_ds.h:279-288 _cl_event::wait_until_complete *)
definition wait_is_over :: "cl_event \<Rightarrow> bool" where
  "wait_is_over e \<longleftrightarrow> \<not> (m_event_state e \<noteq> CL_COMPLETE \<and> m_event_state e > -1)"

(* src/il/ocl_ds.h:293-298 _cl_event::register_on_complete_cb_func *)
definition register_on_complete_cb_func :: "cl_event \<Rightarrow> event_cb \<Rightarrow> cl_event" where
  "register_on_complete_cb_func e cb = e\<lparr>m_cb := Some cb\<rparr>"

section \<open>The object heap\<close>

record objs =
  o_events :: "cl_event heap"
  o_mems :: "cl_mem heap"
  o_kernels :: "cl_kernel heap"
  o_programs :: "cl_program heap"
  o_contexts :: "cl_context heap"
  o_next :: ptr

text \<open>\<open>new\<close> takes an address no object has had.\<close>

definition fresh :: "objs \<Rightarrow> ptr \<times> objs" where
  "fresh s = (o_next s, s\<lparr>o_next := Suc (o_next s)\<rparr>)"

definition event_down :: "objs \<Rightarrow> ptr \<Rightarrow> objs res" where
  "event_down s p = bindr (heap_down (o_events s) p) (\<lambda>h. Inr (s\<lparr>o_events := h\<rparr>))"

definition event_up :: "objs \<Rightarrow> ptr \<Rightarrow> objs res" where
  "event_up s p = bindr (heap_up (o_events s) p) (\<lambda>h. Inr (s\<lparr>o_events := h\<rparr>))"

definition mem_down :: "objs \<Rightarrow> ptr \<Rightarrow> objs res" where
  "mem_down s p = bindr (heap_down (o_mems s) p) (\<lambda>h. Inr (s\<lparr>o_mems := h\<rparr>))"

definition mem_up :: "objs \<Rightarrow> ptr \<Rightarrow> objs res" where
  "mem_up s p = bindr (heap_up (o_mems s) p) (\<lambda>h. Inr (s\<lparr>o_mems := h\<rparr>))"

definition kernel_down :: "objs \<Rightarrow> ptr \<Rightarrow> objs res" where
  "kernel_down s p = bindr (heap_down (o_kernels s) p) (\<lambda>h. Inr (s\<lparr>o_kernels := h\<rparr>))"

definition kernel_up :: "objs \<Rightarrow> ptr \<Rightarrow> objs res" where
  "kernel_up s p = bindr (heap_up (o_kernels s) p) (\<lambda>h. Inr (s\<lparr>o_kernels := h\<rparr>))"

definition update_event :: "objs \<Rightarrow> ptr \<Rightarrow> (cl_event \<Rightarrow> cl_event) \<Rightarrow> objs res" where
  "update_event s p f =
     bindr (deref (o_events s) p) (\<lambda>e. Inr (s\<lparr>o_events := (o_events s)(p \<mapsto> f e)\<rparr>))"

section \<open>Commands\<close>

(* src/il/ocl_ds.h:317-323 MLCLCommand::Type *)
datatype cmd_type = WRITE_BUFFER | READ_BUFFER | NDRANGE | EMPTY

text \<open>
  The command classes: a pointer to host memory is the address of the user's buffer. The
  read and write commands carry a \<open>cl_mem\<close>, which may be null.
\<close>

(* src/il/ocl_ds.h:376-380 MLCLCommandWB (fields) *)
datatype cmd_body =
    WB "ptr option" u64 u64 "u64 option"                 \<comment> \<open>\<open>m_mem\<close>, \<open>m_offset\<close>, \<open>m_size\<close>, \<open>m_ptr\<close>\<close>
  | RB "ptr option" u64 u64 "u64 option"
  | NDR "ptr option" u32 "u64 list" "u64 list" "u64 list" \<comment> \<open>\<open>m_kernel\<close>, \<open>m_work_dim\<close>, offset, global and local size\<close>
  | NoBody

(* src/il/ocl_ds.h:311-352 MLCLCommand *)
record mlcl_command =
  m_command_type :: cmd_type
  m_command_id :: int
  m_event :: "ptr option"
  m_body :: cmd_body

(* src/il/ocl_ds.h:340-340 MLCLCommand::set_command_id *)
definition set_command_id :: "mlcl_command \<Rightarrow> int \<Rightarrow> mlcl_command" where
  "set_command_id c n = c\<lparr>m_command_id := n\<rparr>"

(* src/il/ocl_ds.h:325-330 MLCLCommand::MLCLCommand *)
definition new_mlcl_command :: "cmd_type \<Rightarrow> cmd_body \<Rightarrow> objs \<Rightarrow> mlcl_command \<times> objs" where
  "new_mlcl_command t body s =
     (let (p, s1) = fresh s
      in (\<lparr>m_command_type = t, m_command_id = 0, m_event = Some p, m_body = body\<rparr>,
          s1\<lparr>o_events := (o_events s1)(p \<mapsto> new_cl_event)\<rparr>))"

(* src/il/ocl_ds.h:356-369 MLCLCommandWB::MLCLCommandWB *)
definition new_MLCLCommandWB ::
  "ptr option \<Rightarrow> u64 \<Rightarrow> u64 \<Rightarrow> u64 option \<Rightarrow> objs \<Rightarrow> (mlcl_command \<times> objs) res" where
  "new_MLCLCommandWB mem offset sz p s =
     (let (c, s1) = new_mlcl_command WRITE_BUFFER (WB mem offset sz p) s
      in bindr (nonnull mem) (\<lambda>m. bindr (mem_up s1 m) (\<lambda>s2. Inr (c, s2))))"

(* src/il/ocl_ds.h:438-450 MLCLCommandRB::MLCLCommandRB *)
definition new_MLCLCommandRB ::
  "ptr option \<Rightarrow> u64 \<Rightarrow> u64 \<Rightarrow> u64 option \<Rightarrow> objs \<Rightarrow> (mlcl_command \<times> objs) res" where
  "new_MLCLCommandRB mem offset sz p s =
     (let (c, s1) = new_mlcl_command READ_BUFFER (RB mem offset sz p) s
      in bindr (nonnull mem) (\<lambda>m. bindr (mem_up s1 m) (\<lambda>s2. Inr (c, s2))))"

text \<open>The size arguments are the first elements of the user's arrays, \<open>None\<close> for null.\<close>

(* src/il/ocl_ds.h:386-421 MLCLCommandNDR::MLCLCommandNDR *)
definition new_MLCLCommandNDR ::
  "ptr option \<Rightarrow> u32 \<Rightarrow> u64 option \<Rightarrow> u64 option \<Rightarrow> u64 option \<Rightarrow> objs \<Rightarrow>
     (mlcl_command \<times> objs) res" where
  "new_MLCLCommandNDR krn work_dim goff gsize lsize s =
     (let off = (case goff of None \<Rightarrow> [0, 0, 0] | Some x \<Rightarrow> [x, 0, 0]);
          glob = (case gsize of None \<Rightarrow> [0, 0, 0] | Some x \<Rightarrow> [x, 1, 1]);
          loc = (case lsize of None \<Rightarrow> [0, 0, 0] | Some x \<Rightarrow> [x, 0, 0]);
          (c, s1) = new_mlcl_command NDRANGE (NDR krn work_dim off glob loc) s
      in bindr (nonnull krn) (\<lambda>k. bindr (kernel_up s1 k) (\<lambda>s2.
           if work_dim > 1
           then Inl (Runtime_error ''MLCLCommandNDR work dimension is > 1'')
           else Inr (c, s2))))"

text \<open>\<open>delete cmd\<close>: the derived destructor, then the base destructor.\<close>

(* src/il/ocl_ds.h:371-374 MLCLCommandWB::~MLCLCommandWB *)
definition delete_derived :: "cmd_body \<Rightarrow> objs \<Rightarrow> objs res" where
  "delete_derived b s =
     (case b of
        WB mem _ _ _ \<Rightarrow> bindr (nonnull mem) (mem_down s)
      | RB mem _ _ _ \<Rightarrow> bindr (nonnull mem) (mem_down s)
      | NDR k _ _ _ _ \<Rightarrow> bindr (nonnull k) (kernel_down s)
      | NoBody \<Rightarrow> Inr s)"

(* src/il/ocl_ds.h:332-338 MLCLCommand::~MLCLCommand *)
definition delete_command :: "mlcl_command \<Rightarrow> objs \<Rightarrow> objs res" where
  "delete_command c s =
     bindr (delete_derived (m_body c) s) (\<lambda>s1.
       case m_event c of None \<Rightarrow> Inr s1 | Some e \<Rightarrow> event_down s1 e)"

section \<open>Facts about the objects\<close>

lemma ref_cnt_down_one: "m_counter r = 1 \<Longrightarrow> ref_cnt_down r = None"
  by (simp add: ref_cnt_down_def)

lemma ref_cnt_down_more:
  "m_counter r \<noteq> 0 \<Longrightarrow> m_counter r \<noteq> 1 \<Longrightarrow>
    ref_cnt_down r = Some (r\<lparr>m_counter := m_counter r - 1\<rparr>)"
  by (simp add: ref_cnt_down_def word_gt_0 Let_def)

lemma ref_cnt_down_up:
  assumes "m_counter r \<noteq> 0" and "m_counter r \<noteq> -1"
  shows "ref_cnt_down (ref_cnt_up r) = Some r"
proof -
  have "m_counter r + 1 \<noteq> 0" using assms(2) by (metis add_eq_0_iff minus_equation_iff)
  then show ?thesis using assms(1) by (simp add: ref_cnt_down_def ref_cnt_up_def word_gt_0)
qed

fun releases :: "nat \<Rightarrow> 'a ref_counter_scheme \<Rightarrow> 'a ref_counter_scheme option" where
  "releases 0 r = Some r"
| "releases (Suc k) r = (case ref_cnt_down r of None \<Rightarrow> None | Some r' \<Rightarrow> releases k r')"

lemma releases_counter:
  "k < n \<Longrightarrow> n < 2 ^ 32 \<Longrightarrow> m_counter r = of_nat n \<Longrightarrow>
    releases k r = Some (r\<lparr>m_counter := of_nat (n - k)\<rparr>)"
proof (induction k arbitrary: n r)
  case 0
  then show ?case by simp
next
  case (Suc k)
  have u: "unat (of_nat n :: u32) = n" by (rule unat_of_nat_small) (use Suc.prems in simp)
  have "m_counter r \<noteq> 0" "m_counter r \<noteq> 1"
    using u Suc.prems by (auto simp: word_unat_eq_iff)
  then have "ref_cnt_down r = Some (r\<lparr>m_counter := of_nat (n - 1)\<rparr>)"
    using Suc.prems by (simp add: ref_cnt_down_more of_nat_diff)
  then show ?case
    using Suc.IH [of "n - 1" "r\<lparr>m_counter := of_nat (n - 1)\<rparr>"] Suc.prems by simp
qed

lemma releases_append:
  "releases (j + k) r = (case releases j r of None \<Rightarrow> None | Some r' \<Rightarrow> releases k r')"
  by (induction j arbitrary: r) (auto split: option.splits)

lemma vec_resize_props:
  "length (vec_resize v n) = n"
  "i < n \<Longrightarrow> vec_resize v n ! i = (if i < length v then v ! i else None)"
  by (auto simp: vec_resize_def nth_append)

lemma unat_index_inc: "i \<noteq> -1 \<Longrightarrow> unat (i + 1 :: u32) = unat i + 1"
proof -
  assume "i \<noteq> -1"
  then have "1 + i \<noteq> 0" by (metis add_eq_0_iff minus_equation_iff)
  then show ?thesis using unatSuc [of i] by (simp add: add.commute)
qed

section \<open>Properties\<close>

text \<open>An object whose counter is \<open>n\<close> survives \<open>n - 1\<close> releases, with the counter lowered by
  each and nothing else changed, and is deleted by the \<open>n\<close>-th.\<close>
theorem ref_counter_deletes_at_last_release:
  assumes "m_counter r = of_nat n" and "0 < n" and "n < 2 ^ 32"
  shows "(\<forall>k<n. releases k r = Some (r\<lparr>m_counter := of_nat (n - k)\<rparr>)) \<and> releases n r = None"
proof (intro conjI allI impI)
  show "releases k r = Some (r\<lparr>m_counter := of_nat (n - k)\<rparr>)" if "k < n" for k
    by (rule releases_counter [OF that assms(3,1)])
  have "releases (n - 1) r = Some (r\<lparr>m_counter := 1\<rparr>)"
    using releases_counter [of "n - 1" n r] assms by simp
  then have "releases ((n - 1) + 1) r = None"
    by (simp only: releases_append) (simp add: ref_cnt_down_one)
  then show "releases n r = None" using assms(2) by simp
qed

theorem ref_counter_deletes_at_last_release_witness:
  "releases 2 (new_cl_event\<lparr>m_counter := 3\<rparr>) = Some (new_cl_event\<lparr>m_counter := 1\<rparr>) \<and>
   releases 3 (new_cl_event\<lparr>m_counter := 3\<rparr>) = None"
  using ref_counter_deletes_at_last_release [of "new_cl_event\<lparr>m_counter := 3\<rparr>" 3] by simp

text \<open>\<open>set_args\<close> stores a copy of the argument's bytes at the index, grows the argument vector
  with null entries up to the index and keeps every other argument, for every index but the
  largest \<open>cl_uint\<close>: there \<open>arg_index + 1\<close> wraps to 0, the vector is not grown, and the store
  is outside of it.\<close>
theorem set_args_stores_argument:
  assumes "1 \<le> sz" and "unat sz \<le> length mem"
  shows "(i \<noteq> -1 \<longrightarrow> (\<exists>k' a. set_args k i sz (Some mem) = Inr k' \<and>
      ka_value a = Some (take (unat sz) mem) \<and> k_program k' = k_program k \<and>
      length (m_args_vector k') = max (length (m_args_vector k)) (unat i + 1) \<and>
      (\<forall>j<length (m_args_vector k'). m_args_vector k' ! j =
         (if j = unat i then Some a
          else if j < length (m_args_vector k) then m_args_vector k ! j else None)))) \<and>
    (length (m_args_vector k) \<le> unat (-1 :: u32) \<longrightarrow>
      set_args k (-1) sz (Some mem) = Inl Out_of_bounds)"
proof -
  define a where "a = \<lparr>ka_value = Some (take (unat sz) mem), ka_value_size = sint (ucast sz :: u32)\<rparr>"
  have "\<not> sz < 1" using assms(1) by (simp only: not_less)
  then have arg: "new_kernel_arg sz (Some mem) = Inr a"
    using assms(2) by (simp add: new_kernel_arg_def ka_set_values_def a_def)
  have "\<exists>k' a. set_args k i sz (Some mem) = Inr k' \<and>
      ka_value a = Some (take (unat sz) mem) \<and> k_program k' = k_program k \<and>
      length (m_args_vector k') = max (length (m_args_vector k)) (unat i + 1) \<and>
      (\<forall>j<length (m_args_vector k'). m_args_vector k' ! j =
         (if j = unat i then Some a
          else if j < length (m_args_vector k) then m_args_vector k ! j else None))"
    if i: "i \<noteq> -1"
  proof -
    define v where "v = (if unat i + 1 > length (m_args_vector k)
      then vec_resize (m_args_vector k) (unat i + 1) else m_args_vector k)"
    have l: "length v = max (length (m_args_vector k)) (unat i + 1)"
      by (simp add: v_def vec_resize_props)
    have e: "v ! j = (if j < length (m_args_vector k) then m_args_vector k ! j else None)"
      if "j < length v" for j
      using that by (auto simp: v_def vec_resize_props)
    have s: "set_args k i sz (Some mem) = Inr (k\<lparr>m_args_vector := v[unat i := Some a]\<rparr>)"
      using arg unat_index_inc [OF i] by (simp add: set_args_def Let_def v_def vec_resize_props)
    show ?thesis
      using l e by (intro exI [of _ "k\<lparr>m_args_vector := v[unat i := Some a]\<rparr>"] exI [of _ a])
        (auto simp: s nth_list_update a_def)
  qed
  moreover have "set_args k (-1) sz (Some mem) = Inl Out_of_bounds"
    if "length (m_args_vector k) \<le> unat (-1 :: u32)"
    using that arg by (simp add: set_args_def Let_def)
  ultimately show ?thesis by blast
qed

theorem set_args_stores_argument_witness:
  "(\<exists>k' a. set_args (new_cl_kernel None) 2 2 (Some [7, 8, 9]) = Inr k' \<and>
      length (m_args_vector k') = 3 \<and> m_args_vector k' ! 0 = None \<and>
      m_args_vector k' ! 2 = Some a \<and> ka_value a = Some [7, 8]) \<and>
   set_args (new_cl_kernel None) (-1) 1 (Some [7]) = Inl Out_of_bounds"
proof -
  let ?k = "new_cl_kernel None"
  have n: "(2 :: u32) \<noteq> -1" by simp
  have s1: "(1 :: u64) \<le> 2" and s2: "unat (2 :: u64) \<le> length [7, 8, 9 :: byte]"
    and s3: "(1 :: u64) \<le> 1" and s4: "unat (1 :: u64) \<le> length [7 :: byte]" by simp_all
  have v: "m_args_vector ?k = []" by (simp add: new_cl_kernel_def)
  note ex = set_args_stores_argument [OF s1 s2, of 2 ?k, THEN conjunct1, rule_format, OF n]
  have "\<exists>k' a. set_args ?k 2 2 (Some [7, 8, 9]) = Inr k' \<and>
      length (m_args_vector k') = 3 \<and> m_args_vector k' ! 0 = None \<and>
      m_args_vector k' ! 2 = Some a \<and> ka_value a = Some [7, 8]"
    using ex by (elim exE conjE) (auto simp: v)
  moreover have "set_args ?k (-1) 1 (Some [7]) = Inl Out_of_bounds"
    using set_args_stores_argument [OF s3 s4, of 0 ?k, THEN conjunct2] v by simp
  ultimately show ?thesis by (rule conjI)
qed

end
