(* ===== verification/ND_Range.thy ===== *)
theory ND_Range
  imports Ocl_Ds
begin

text \<open>
  \<^verbatim>\<open>cpp/ndrange.h\<close> and \<^verbatim>\<open>cpp/ndrange.cc\<close>: an \<open>NDRange\<close> is the index space of one kernel
  launch, counted in work groups; \<open>carve_wgs\<close> cuts a \<open>WorkGroupRange\<close> off its front, and the
  last work-group range that finishes completes the launch's event and deletes the
  \<open>NDRange\<close>. All counters are \<open>unsigned\<close>; the number of groups asked for is a \<open>size_t\<close>, so
  the comparison in \<open>carve_wgs\<close> is done in 64 bits.
\<close>

section \<open>Work-group ranges\<close>

(* src/cpp/ndrange.h:26-74 WorkGroupRange *)
record work_group_range =
  w_parent :: "ptr option"
  w_start_x :: u32
  w_size_x :: u32
  w_start_y :: u32
  w_size_y :: u32
  w_start_z :: u32
  w_size_z :: u32
  w_execution_cost :: u64
  w_execution_start_time :: u64
  w_total_size :: u32

text \<open>The default constructor leaves \<open>m_total_size\<close> as it finds it: the argument.\<close>

(* src/cpp/ndrange.cc:12-17 WorkGroupRange::WorkGroupRange() *)
definition empty_WorkGroupRange :: "u32 \<Rightarrow> work_group_range" where
  "empty_WorkGroupRange garbage =
     \<lparr>w_parent = None, w_start_x = 0, w_size_x = 0, w_start_y = 0, w_size_y = 0,
      w_start_z = 0, w_size_z = 0, w_execution_cost = 0, w_execution_start_time = 0,
      w_total_size = garbage\<rparr>"

(* src/cpp/ndrange.cc:19-35 WorkGroupRange::WorkGroupRange *)
definition new_WorkGroupRange ::
  "ptr \<Rightarrow> u32 \<Rightarrow> u32 \<Rightarrow> u32 \<Rightarrow> u32 \<Rightarrow> u32 \<Rightarrow> u32 \<Rightarrow> work_group_range" where
  "new_WorkGroupRange ndrange start_x size_x start_y size_y start_z size_z =
     \<lparr>w_parent = Some ndrange, w_start_x = start_x, w_size_x = size_x, w_start_y = start_y,
      w_size_y = size_y, w_start_z = start_z, w_size_z = size_z, w_execution_cost = 0,
      w_execution_start_time = 0, w_total_size = size_x * size_y * size_z\<rparr>"

section \<open>The index space\<close>

(* src/cpp/ndrange.h:76-143 NDRange *)
record ndrange =
  n_kernel :: ptr
  n_event :: ptr
  n_resource_string :: string
  n_size_x :: u32
  n_size_y :: u32
  n_size_z :: u32
  n_next_wgr :: u32
  n_total_size :: u32
  n_wgrs_in_the_wild :: u32
  n_dimensions :: nat

text \<open>
  The constructor's member initialisers and the two references it takes come before the check
  of the dimensions; when the check throws, the inner result carries the exception and the
  outer state keeps the references, because no destructor runs.
\<close>

(* src/cpp/ndrange.cc:60-107 NDRange::NDRange *)
definition new_NDRange ::
  "ptr \<Rightarrow> ptr \<Rightarrow> string \<Rightarrow> u32 \<Rightarrow> u32 \<Rightarrow> u32 \<Rightarrow> objs \<Rightarrow> (ndrange res \<times> objs) res" where
  "new_NDRange krn event resource_string size_x size_y size_z s =
     (let nd = \<lparr>n_kernel = krn, n_event = event, n_resource_string = resource_string,
                n_size_x = size_x, n_size_y = size_y, n_size_z = size_z, n_next_wgr = 0,
                n_total_size = size_x * size_y * size_z, n_wgrs_in_the_wild = 0,
                n_dimensions = 0\<rparr>;
          dims = (if size_x > 1 then 1 else 0) + (if size_y > 1 then 1 else 0)
                 + (if size_z > 1 then 1 else (0 :: nat))
      in bindr (kernel_up s krn) (\<lambda>s1. bindr (event_up s1 event) (\<lambda>s2.
           if dims > 1
           then Inr (Inl (Runtime_error ''Currently only 1D NDRange is supported''), s2)
           else Inr (Inr (nd\<lparr>n_dimensions := dims\<rparr>), s2))))"

(* src/cpp/ndrange.cc:109-113 NDRange::~NDRange *)
definition delete_NDRange :: "ndrange \<Rightarrow> objs \<Rightarrow> objs res" where
  "delete_NDRange nd s = bindr (kernel_down s (n_kernel nd)) (\<lambda>s1. event_down s1 (n_event nd))"

(* src/cpp/ndrange.cc:115-118 NDRange::has_more_wgs *)
definition has_more_wgs :: "ndrange \<Rightarrow> bool" where
  "has_more_wgs nd \<longleftrightarrow> n_next_wgr nd < n_total_size nd"

(* src/cpp/ndrange.h:99-99 NDRange::is_finished *)
definition is_finished :: "ndrange \<Rightarrow> bool" where
  "is_finished nd \<longleftrightarrow> \<not> has_more_wgs nd \<and> n_wgrs_in_the_wild nd = 0"

(* src/cpp/ndrange.cc:120-132 NDRange::get_3d_from_1d *)
definition get_3d_from_1d :: "ndrange \<Rightarrow> u32 \<Rightarrow> (u32 \<times> u32 \<times> u32) res" where
  "get_3d_from_1d nd c =
     (if n_size_z nd = 0 then Inl Div_by_zero
      else let start_z = c mod n_size_z nd;
               xy_coord = c div n_size_z nd
           in if n_size_y nd = 0 then Inl Div_by_zero
              else Inr (xy_coord div n_size_y nd, xy_coord mod n_size_y nd, start_z))"

text \<open>
  \<open>this\<close> is the address of the index space. The number of groups to carve is compared with
  the rest in \<open>size_t\<close> and kept in \<open>unsigned\<close>.
\<close>

(* src/cpp/ndrange.cc:134-155 NDRange::carve_wgs *)
definition carve_wgs :: "ptr \<Rightarrow> ndrange \<Rightarrow> u64 \<Rightarrow> work_group_range \<times> ndrange" where
  "carve_wgs this nd num_wgs =
     (let start_coord = n_next_wgr nd;
          wgs_to_carve =
            (if ucast (n_next_wgr nd) + num_wgs > (ucast (n_total_size nd - 1) :: u64)
             then n_total_size nd - n_next_wgr nd
             else ucast num_wgs)
      in (new_WorkGroupRange this start_coord (start_coord + wgs_to_carve) 0 1 0 1,
          nd\<lparr>n_next_wgr := n_next_wgr nd + wgs_to_carve,
             n_wgrs_in_the_wild := n_wgrs_in_the_wild nd + 1\<rparr>))"

section \<open>Index spaces in the heap\<close>

record nd_store =
  ns_objs :: objs
  ns_ndranges :: "ndrange heap"

definition carve_at :: "nd_store \<Rightarrow> ptr \<Rightarrow> u64 \<Rightarrow> (work_group_range \<times> nd_store) res" where
  "carve_at st p num_wgs =
     bindr (deref (ns_ndranges st) p) (\<lambda>nd.
       let (w, nd') = carve_wgs p nd num_wgs
       in Inr (w, st\<lparr>ns_ndranges := (ns_ndranges st)(p \<mapsto> nd')\<rparr>))"

text \<open>The callbacks made are returned in order, for the command queue to receive.\<close>

definition complete_event :: "objs \<Rightarrow> ptr \<Rightarrow> (objs \<times> event_cb) res" where
  "complete_event s e =
     bindr (deref (o_events s) e) (\<lambda>ev. bindr (set_as_complete ev) (\<lambda>(ev', cb).
       Inr (s\<lparr>o_events := (o_events s)(e \<mapsto> ev')\<rparr>, cb)))"

(* src/cpp/ndrange.cc:187-207 NDRange::decrement_wgrs_counter *)
definition decrement_wgrs_counter :: "nd_store \<Rightarrow> ptr \<Rightarrow> (nd_store \<times> event_cb list) res" where
  "decrement_wgrs_counter st p =
     bindr (deref (ns_ndranges st) p) (\<lambda>nd.
       let nd' = nd\<lparr>n_wgrs_in_the_wild := n_wgrs_in_the_wild nd - 1\<rparr>
       in if n_wgrs_in_the_wild nd' = 0
          then bindr (complete_event (ns_objs st) (n_event nd')) (\<lambda>(s1, cb).
                 bindr (delete_NDRange nd' s1) (\<lambda>s2.
                   Inr (st\<lparr>ns_objs := s2, ns_ndranges := (ns_ndranges st)(p := None)\<rparr>, [cb])))
          else Inr (st\<lparr>ns_ndranges := (ns_ndranges st)(p \<mapsto> nd')\<rparr>, []))"

(* src/cpp/ndrange.cc:37-41 WorkGroupRange::mark_as_finished *)
definition mark_as_finished :: "nd_store \<Rightarrow> work_group_range \<Rightarrow> (nd_store \<times> event_cb list) res" where
  "mark_as_finished st w =
     (case w_parent w of None \<Rightarrow> Inl Assert_failed | Some p \<Rightarrow> decrement_wgrs_counter st p)"

text \<open>The name of the kernel's bitstream description, read through the launch's kernel.\<close>

(* src/cpp/ndrange.h:101-101 NDRange::get_kernel_name *)
definition nd_get_kernel_name :: "objs \<Rightarrow> ndrange \<Rightarrow> string res" where
  "nd_get_kernel_name s nd =
     bindr (deref (o_kernels s) (n_kernel nd)) (\<lambda>k.
       bindr (nonnull (k_program k)) (\<lambda>pp.
         bindr (deref (o_programs s) pp) (\<lambda>p. Inr (m_xml_name p))))"

(* src/cpp/ndrange.cc:43-46 WorkGroupRange::get_kernel_name *)
definition wgr_get_kernel_name :: "nd_store \<Rightarrow> work_group_range \<Rightarrow> string res" where
  "wgr_get_kernel_name st w =
     bindr (nonnull (w_parent w)) (\<lambda>p.
       bindr (deref (ns_ndranges st) p) (nd_get_kernel_name (ns_objs st)))"

(* src/cpp/ndrange.cc:48-59 WorkGroupRange::get_kernel_args *)
definition wgr_get_kernel_args :: "nd_store \<Rightarrow> work_group_range \<Rightarrow> kernel_arg option list res" where
  "wgr_get_kernel_args st w =
     (case w_parent w of
        None \<Rightarrow> Inr []
      | Some p \<Rightarrow>
          bindr (deref (ns_ndranges st) p) (\<lambda>nd.
            bindr (deref (o_kernels (ns_objs st)) (n_kernel nd)) (\<lambda>k. Inr (m_args_vector k))))"

section \<open>Facts about carving\<close>

text \<open>An index space with groups, of which a prefix is carved.\<close>

definition nd_wf :: "ndrange \<Rightarrow> bool" where
  "nd_wf nd \<longleftrightarrow> n_total_size nd \<noteq> 0 \<and> n_next_wgr nd \<le> n_total_size nd"

definition nd_rest :: "ndrange \<Rightarrow> nat" where
  "nd_rest nd = unat (n_total_size nd) - unat (n_next_wgr nd)"

text \<open>
  The groups of a carved range, read off its fields: \<open>carve_wgs\<close> passes the coordinate after the last
  group where \<^verbatim>\<open>ndrange.h\<close> has the size.
\<close>

definition wgr_groups :: "work_group_range \<Rightarrow> nat list" where
  "wgr_groups w = [unat (w_start_x w)..<unat (w_size_x w)]"

lemma carve_amount:
  assumes wf: "nd_wf nd" and nowrap: "unat (n_next_wgr nd) + unat num < 2 ^ 64"
  shows "(if ucast (n_next_wgr nd) + num > (ucast (n_total_size nd - 1) :: u64)
          then n_total_size nd - n_next_wgr nd else ucast num)
    = of_nat (min (unat num) (nd_rest nd))"
proof -
  let ?n = "n_next_wgr nd" and ?t = "n_total_size nd"
  have t: "unat (?t - 1) = unat ?t - 1" "0 < unat ?t"
    using wf by (simp_all add: nd_wf_def unat_dec unat_pos)
  have le: "unat ?n \<le> unat ?t" using wf by (simp add: nd_wf_def word_le_nat_alt)
  have un: "unat (ucast ?n :: u64) = unat ?n" and ut: "unat (ucast (?t - 1) :: u64) = unat (?t - 1)"
    using unat_bound32 [of ?n] unat_bound32 [of "?t - 1"] by (simp_all add: unat_ucast_small)
  have s: "unat (ucast ?n + num) = unat ?n + unat num"
    using nowrap un by (subst unat_add_nowrap) simp_all
  have cond: "ucast ?n + num > (ucast (?t - 1) :: u64) \<longleftrightarrow> nd_rest nd \<le> unat num"
    unfolding word_less_nat_alt s ut using t le by (auto simp: nd_rest_def)
  show ?thesis
  proof (cases "nd_rest nd \<le> unat num")
    case True
    then show ?thesis using le unfolding cond
      by (simp add: nd_rest_def of_nat_diff)
  next
    case False
    then have "min (unat num) (nd_rest nd) = unat num" by simp
    with False show ?thesis unfolding cond by simp
  qed
qed

lemma carve_step:
  assumes wf: "nd_wf nd" and nowrap: "unat (n_next_wgr nd) + unat num < 2 ^ 64"
  defines "m \<equiv> min (unat num) (nd_rest nd)"
  shows "carve_wgs p nd num =
    (new_WorkGroupRange p (n_next_wgr nd) (n_next_wgr nd + of_nat m) 0 1 0 1,
     nd\<lparr>n_next_wgr := n_next_wgr nd + of_nat m,
        n_wgrs_in_the_wild := n_wgrs_in_the_wild nd + 1\<rparr>)"
  and "unat (n_next_wgr nd + of_nat m) = unat (n_next_wgr nd) + m"
  and "nd_wf (snd (carve_wgs p nd num))"
  and "nd_rest (snd (carve_wgs p nd num)) = nd_rest nd - m"
proof -
  show c: "carve_wgs p nd num =
    (new_WorkGroupRange p (n_next_wgr nd) (n_next_wgr nd + of_nat m) 0 1 0 1,
     nd\<lparr>n_next_wgr := n_next_wgr nd + of_nat m,
        n_wgrs_in_the_wild := n_wgrs_in_the_wild nd + 1\<rparr>)"
    by (simp only: carve_wgs_def Let_def carve_amount [OF wf nowrap] m_def)
  have le: "unat (n_next_wgr nd) \<le> unat (n_total_size nd)"
    using wf by (simp add: nd_wf_def word_le_nat_alt)
  then have b: "unat (n_next_wgr nd) + m \<le> unat (n_total_size nd)"
    by (simp add: m_def nd_rest_def)
  then have um: "unat (of_nat m :: u32) = m"
    using unat_bound32 [of "n_total_size nd"] by (intro unat_of_nat_small) simp
  show u: "unat (n_next_wgr nd + of_nat m) = unat (n_next_wgr nd) + m"
    using b um unat_bound32 [of "n_total_size nd"] by (subst unat_add_nowrap) simp_all
  show "nd_wf (snd (carve_wgs p nd num))"
    using wf b u unfolding c by (simp add: nd_wf_def word_le_nat_alt)
  show "nd_rest (snd (carve_wgs p nd num)) = nd_rest nd - m"
    using u unfolding c by (simp add: nd_rest_def)
qed

text \<open>
  The ranges a list of requests carves, each with the launch's counter after it was carved. The
  groups a carve takes are those from the range's start up to that counter; this is what has to be
  right whatever the range's size field means.
\<close>

fun carve_seq :: "ptr \<Rightarrow> ndrange \<Rightarrow> u64 list \<Rightarrow> (work_group_range \<times> u32) list \<times> ndrange" where
  "carve_seq p nd [] = ([], nd)"
| "carve_seq p nd (q # qs) =
     (let (w, nd1) = carve_wgs p nd q; (ws, nd2) = carve_seq p nd1 qs in ((w, n_next_wgr nd1) # ws, nd2))"

definition groups_taken :: "work_group_range \<times> u32 \<Rightarrow> nat list" where
  "groups_taken wc = [unat (w_start_x (fst wc))..<unat (snd wc)]"

lemma wgr_groups_carve:
  assumes "nd_wf nd" and "unat (n_next_wgr nd) + unat num < 2 ^ 64"
  shows "wgr_groups (fst (carve_wgs p nd num)) =
    [unat (n_next_wgr nd)..<unat (n_next_wgr nd) + min (unat num) (nd_rest nd)]"
  using carve_step(2) [OF assms]
  by (simp add: carve_step(1) [OF assms] wgr_groups_def new_WorkGroupRange_def)

lemma carve_next:
  assumes "nd_wf nd" and "unat (n_next_wgr nd) + unat num < 2 ^ 64"
  shows "unat (n_next_wgr (snd (carve_wgs p nd num))) =
    unat (n_next_wgr nd) + min (unat num) (nd_rest nd)"
  using carve_step(2) [OF assms] by (simp add: carve_step(1) [OF assms])

text \<open>A request below \<open>2 ^ 64 - 2 ^ 32\<close> never wraps the comparison.\<close>

lemma request_nowrap:
  "unat (num :: u64) \<le> 2 ^ 64 - 2 ^ 32 \<Longrightarrow> unat (n_next_wgr nd) + unat num < 2 ^ 64"
  using unat_bound32 [of "n_next_wgr nd"] by simp

lemma min_split: "min (a + b) r = min a r + min b (r - min a (r :: nat))"
  by auto

lemma carve_seq_groups:
  assumes "nd_wf nd" and "\<forall>q\<in>set qs. unat q \<le> 2 ^ 64 - 2 ^ 32"
  shows "concat (map groups_taken (fst (carve_seq p nd qs))) =
      [unat (n_next_wgr nd)..<unat (n_next_wgr nd) + min (sum_list (map unat qs)) (nd_rest nd)]
    \<and> nd_rest (snd (carve_seq p nd qs)) = nd_rest nd - min (sum_list (map unat qs)) (nd_rest nd)
    \<and> nd_wf (snd (carve_seq p nd qs))
    \<and> n_wgrs_in_the_wild (snd (carve_seq p nd qs)) = n_wgrs_in_the_wild nd + of_nat (length qs)
    \<and> (\<forall>wc\<in>set (fst (carve_seq p nd qs)). w_parent (fst wc) = Some p)"
  using assms
proof (induction qs arbitrary: nd)
  case Nil
  then show ?case by simp
next
  case (Cons q qs)
  define w where "w = fst (carve_wgs p nd q)"
  define nd1 where "nd1 = snd (carve_wgs p nd q)"
  have c: "carve_wgs p nd q = (w, nd1)" by (simp add: w_def nd1_def)
  have nw: "unat (n_next_wgr nd) + unat q < 2 ^ 64"
    using Cons.prems(2) by (intro request_nowrap) simp
  note step = carve_step [OF Cons.prems(1) nw]
  have wf1: "nd_wf nd1" using step(3) by (simp add: nd1_def)
  have rest1: "nd_rest nd1 = nd_rest nd - min (unat q) (nd_rest nd)"
    using step(4) by (simp only: nd1_def)
  have next1: "unat (n_next_wgr nd1) = unat (n_next_wgr nd) + min (unat q) (nd_rest nd)"
    unfolding nd1_def by (rule carve_next [OF Cons.prems(1) nw])
  have wild: "n_wgrs_in_the_wild nd1 = n_wgrs_in_the_wild nd + 1"
    by (simp add: nd1_def step(1) [of p])
  have gw: "groups_taken (w, n_next_wgr nd1) =
      [unat (n_next_wgr nd)..<unat (n_next_wgr nd) + min (unat q) (nd_rest nd)]" "w_parent w = Some p"
    by (simp_all add: groups_taken_def next1) (simp_all add: w_def step(1) [of p] new_WorkGroupRange_def)
  have qs: "\<forall>q\<in>set qs. unat q \<le> 2 ^ 64 - 2 ^ 32" using Cons.prems(2) by simp
  note IH = Cons.IH [OF wf1 qs]
  have up: "[a..<a + x] @ [a + x..<a + x + y] = [a..<a + (x + y)]" for a x y :: nat
    using upt_add_eq_append [of a "a + x" y] by (simp add: add.assoc)
  show ?case
    using IH by (simp add: c split_beta gw next1 rest1 wild up min_split [symmetric])
qed

lemma has_more_rest: "nd_wf nd \<Longrightarrow> has_more_wgs nd \<longleftrightarrow> 0 < nd_rest nd"
  by (auto simp: nd_wf_def has_more_wgs_def nd_rest_def word_less_nat_alt word_le_nat_alt)

lemma new_NDRange_wf:
  assumes "new_NDRange k e rs sx sy sz s = Inr (Inr nd, s')" and "sx * sy * sz \<noteq> 0"
  shows "nd_wf nd" and "nd_rest nd = unat (sx * sy * sz)" and "n_next_wgr nd = 0"
    and "n_wgrs_in_the_wild nd = 0" and "n_kernel nd = k" and "n_event nd = e"
  using assms
  by (auto simp: new_NDRange_def Let_def bindr_Inr_iff nd_wf_def nd_rest_def split: if_splits)

section \<open>Facts about finishing\<close>

text \<open>Ranges that finish one after the other, with the callbacks they cause.\<close>

fun finish_all :: "nd_store \<Rightarrow> work_group_range list \<Rightarrow> (nd_store \<times> event_cb list) res" where
  "finish_all st [] = Inr (st, [])"
| "finish_all st (w # ws) =
     bindr (mark_as_finished st w) (\<lambda>(st1, c1).
       bindr (finish_all st1 ws) (\<lambda>(st2, c2). Inr (st2, c1 @ c2)))"

lemma mark_as_finished_not_last:
  assumes "w_parent w = Some p" and "ns_ndranges st p = Some nd" and "n_wgrs_in_the_wild nd \<noteq> 1"
  shows "mark_as_finished st w = Inr (st\<lparr>ns_ndranges := (ns_ndranges st)
    (p \<mapsto> nd\<lparr>n_wgrs_in_the_wild := n_wgrs_in_the_wild nd - 1\<rparr>)\<rparr>, [])"
  using assms by (simp add: mark_as_finished_def decrement_wgrs_counter_def)

text \<open>The objects after the completion of a launch: event complete, both references given back.\<close>

definition completed_objs :: "objs \<Rightarrow> ptr \<Rightarrow> cl_kernel \<Rightarrow> ptr \<Rightarrow> cl_event \<Rightarrow> objs" where
  "completed_objs s kp k ep ev =
     s\<lparr>o_kernels := (o_kernels s)(kp := ref_cnt_down k),
       o_events := (o_events s)(ep := ref_cnt_down (ev\<lparr>m_event_state := CL_COMPLETE\<rparr>))\<rparr>"

lemma mark_as_finished_last:
  assumes "w_parent w = Some p" and "ns_ndranges st p = Some nd" and "n_wgrs_in_the_wild nd = 1"
    and "o_kernels (ns_objs st) (n_kernel nd) = Some k"
    and "o_events (ns_objs st) (n_event nd) = Some ev" and "m_cb ev = Some cb"
  shows "mark_as_finished st w =
    Inr (st\<lparr>ns_objs := completed_objs (ns_objs st) (n_kernel nd) k (n_event nd) ev,
           ns_ndranges := (ns_ndranges st)(p := None)\<rparr>, [cb])"
  using assms
  by (simp add: mark_as_finished_def decrement_wgrs_counter_def complete_event_def
      set_as_complete_def delete_NDRange_def kernel_down_def event_down_def heap_down_def
      completed_objs_def)

lemma finish_all_last:
  assumes "\<forall>w\<in>set ws. w_parent w = Some p" and "ws \<noteq> []" and "length ws < 2 ^ 32"
    and "ns_ndranges st p = Some nd" and "n_wgrs_in_the_wild nd = of_nat (length ws)"
    and "o_kernels (ns_objs st) (n_kernel nd) = Some k"
    and "o_events (ns_objs st) (n_event nd) = Some ev" and "m_cb ev = Some cb"
  shows "finish_all st ws =
    Inr (st\<lparr>ns_objs := completed_objs (ns_objs st) (n_kernel nd) k (n_event nd) ev,
           ns_ndranges := (ns_ndranges st)(p := None)\<rparr>, [cb])"
  using assms
proof (induction ws arbitrary: st nd)
  case Nil
  then show ?case by simp
next
  case (Cons w ws)
  have w: "w_parent w = Some p" using Cons.prems(1) by simp
  show ?case
  proof (cases "ws = []")
    case True
    then have "n_wgrs_in_the_wild nd = 1" using Cons.prems(5) by simp
    note last = mark_as_finished_last [OF w Cons.prems(4) this Cons.prems(6,7,8)]
    show ?thesis by (simp only: True finish_all.simps last bindr.simps prod.case append_Nil2)
  next
    case False
    let ?nd = "nd\<lparr>n_wgrs_in_the_wild := n_wgrs_in_the_wild nd - 1\<rparr>"
    let ?st = "st\<lparr>ns_ndranges := (ns_ndranges st)(p \<mapsto> ?nd)\<rparr>"
    have l: "unat (of_nat (length (w # ws)) :: u32) = length (w # ws)"
      by (rule unat_of_nat_small) (use Cons.prems(3) in simp)
    then have "n_wgrs_in_the_wild nd \<noteq> 1" using False Cons.prems(5) by (metis
      length_0_conv length_Cons nat.inject One_nat_def unat_1)
    then have m: "mark_as_finished st w = Inr (?st, [])"
      by (rule mark_as_finished_not_last [OF w Cons.prems(4)])
    have "finish_all ?st ws =
      Inr (?st\<lparr>ns_objs := completed_objs (ns_objs ?st) (n_kernel ?nd) k (n_event ?nd) ev,
           ns_ndranges := (ns_ndranges ?st)(p := None)\<rparr>, [cb])"
      by (rule Cons.IH) (use Cons.prems False in simp_all)
    then have "finish_all ?st ws =
      Inr (st\<lparr>ns_objs := completed_objs (ns_objs st) (n_kernel nd) k (n_event nd) ev,
           ns_ndranges := (ns_ndranges st)(p := None)\<rparr>, [cb])" by simp
    then show ?thesis by (simp only: finish_all.simps m bindr.simps prod.case append_Nil)
  qed
qed

lemma finish_all_before_last:
  assumes "\<forall>w\<in>set ws. w_parent w = Some p" and "ns_ndranges st p = Some nd"
    and "n_wgrs_in_the_wild nd = of_nat m" and "length ws < m" and "m < 2 ^ 32"
  shows "\<exists>st1. finish_all st ws = Inr (st1, []) \<and> ns_objs st1 = ns_objs st"
  using assms
proof (induction ws arbitrary: st nd m)
  case Nil
  then show ?case by simp
next
  case (Cons w ws)
  let ?nd = "nd\<lparr>n_wgrs_in_the_wild := n_wgrs_in_the_wild nd - 1\<rparr>"
  let ?st = "st\<lparr>ns_ndranges := (ns_ndranges st)(p \<mapsto> ?nd)\<rparr>"
  have "unat (of_nat m :: u32) = m" by (rule unat_of_nat_small) (use Cons.prems in simp)
  then have "n_wgrs_in_the_wild nd \<noteq> 1" using Cons.prems by (auto simp: word_unat_eq_iff)
  then have m: "mark_as_finished st w = Inr (?st, [])"
    by (intro mark_as_finished_not_last) (use Cons.prems in simp_all)
  have "\<exists>st1. finish_all ?st ws = Inr (st1, []) \<and> ns_objs st1 = ns_objs ?st"
    by (rule Cons.IH [of _ ?nd "m - 1"]) (use Cons.prems in \<open>simp_all add: of_nat_diff\<close>)
  then show ?case using m by auto
qed

lemma row_major_less:
  fixes a b m n :: nat
  assumes "a < m" and "b < n"
  shows "a * n + b < m * n"
proof -
  have "a * n + b < Suc a * n" using assms(2) by simp
  also have "\<dots> \<le> m * n" using assms(1) by (intro mult_le_mono1) simp
  finally show ?thesis .
qed

section \<open>Properties\<close>

text \<open>C14: Carving cuts the index space of a launch that has groups into consecutive ranges. Each carve
  takes the groups from the start of its range up to the launch's counter after it; for any sizes
  asked for up to \<open>2 ^ 64 - 2 ^ 32\<close> each, the groups of all carves, one after the other, are exactly
  the first \<open>min (sum of the sizes) total\<close> groups of the launch, each once. \<open>has_more_wgs\<close> then
  holds exactly if groups are left; every carved range belongs to the launch and is counted in
  the wild, one that gets no group included. (Larger sizes wrap around the comparison, and a
  launch without groups hands out groups that do not exist.)\<close>
theorem ndrange_carving_partitions:
  assumes "new_NDRange k e rs sx sy sz s = Inr (Inr nd, s')" and "sx * sy * sz \<noteq> 0"
    and "\<forall>q\<in>set qs. unat q \<le> 2 ^ 64 - 2 ^ 32"
    and "carve_seq p nd qs = (ws, nd')"
  shows "concat (map groups_taken ws) = [0..<min (sum_list (map unat qs)) (unat (sx * sy * sz))]
    \<and> (has_more_wgs nd' \<longleftrightarrow> sum_list (map unat qs) < unat (sx * sy * sz))
    \<and> n_wgrs_in_the_wild nd' = of_nat (length qs) \<and> (\<forall>wc\<in>set ws. w_parent (fst wc) = Some p)"
  using carve_seq_groups [OF new_NDRange_wf(1) [OF assms(1,2)] assms(3), of p]
    new_NDRange_wf [OF assms(1,2)] assms(4) by (auto simp: has_more_rest)

definition demo_objs :: objs where
  "demo_objs = \<lparr>o_events = [1 \<mapsto> new_cl_event\<lparr>m_cb := Some (On_event_complete 9)\<rparr>],
     o_mems = Map.empty, o_kernels = [0 \<mapsto> new_cl_kernel (Some 8)],
     o_programs = [8 \<mapsto> \<lparr>m_counter = 1, m_xml_name = ''k.xml'', m_build_log = [], m_context = None\<rparr>],
     o_contexts = Map.empty, o_next = 2\<rparr>"

definition demo_nd :: ndrange where
  "demo_nd = \<lparr>n_kernel = 0, n_event = 1, n_resource_string = [], n_size_x = 5, n_size_y = 1,
     n_size_z = 1, n_next_wgr = 0, n_total_size = 5, n_wgrs_in_the_wild = 0, n_dimensions = 1\<rparr>"

lemma demo_nd_new:
  "\<exists>s'. new_NDRange 0 1 [] 5 1 1 demo_objs = Inr (Inr demo_nd, s') \<and>
    o_kernels s' 0 = Some ((new_cl_kernel (Some 8))\<lparr>m_counter := 2\<rparr>) \<and>
    o_events s' 1 = Some (new_cl_event\<lparr>m_counter := 2, m_cb := Some (On_event_complete 9)\<rparr>)"
  by (simp add: new_NDRange_def demo_objs_def demo_nd_def kernel_up_def event_up_def heap_up_def
      ref_cnt_up_def new_cl_kernel_def new_cl_event_def)

theorem ndrange_carving_partitions_witness:
  "concat (map groups_taken (fst (carve_seq 7 demo_nd [2, 2, 9]))) = [0..<5] \<and>
   \<not> has_more_wgs (snd (carve_seq 7 demo_nd [2, 2, 9]))"
proof -
  obtain s' where s': "new_NDRange 0 1 [] 5 1 1 demo_objs = Inr (Inr demo_nd, s')"
    using demo_nd_new by blast
  have n: "(5 :: u32) * 1 * 1 \<noteq> 0" by simp
  have q: "\<forall>q\<in>set [2, 2, 9 :: u64]. unat q \<le> 2 ^ 64 - 2 ^ 32" by simp
  show ?thesis
    using ndrange_carving_partitions [OF s' n q surjective_pairing [of "carve_seq 7 demo_nd _"]]
    by simp
qed

text \<open>The size a carved range reports is the coordinate after its last group, not its number of
  groups: it exceeds the number of groups by the range's start, so only the first range of a
  launch reports its true size.\<close>
theorem carved_range_size_is_its_end:
  assumes "nd_wf nd" and "unat num \<le> 2 ^ 64 - 2 ^ 32"
  shows "unat (w_total_size (fst (carve_wgs p nd num))) =
    unat (n_next_wgr nd) + length (wgr_groups (fst (carve_wgs p nd num)))"
proof -
  note nw = request_nowrap [OF assms(2), of nd]
  show ?thesis
    unfolding wgr_groups_carve [OF assms(1) nw] using carve_step(2) [OF assms(1) nw]
    by (simp add: carve_step(1) [OF assms(1) nw] new_WorkGroupRange_def)
qed

theorem carved_range_size_is_its_end_witness:
  "w_total_size (fst (carve_wgs 7 (demo_nd\<lparr>n_next_wgr := 2\<rparr>) 2)) = 4 \<and>
   length (wgr_groups (fst (carve_wgs 7 (demo_nd\<lparr>n_next_wgr := 2\<rparr>) 2))) = 2"
proof -
  let ?nd = "demo_nd\<lparr>n_next_wgr := 2\<rparr>"
  have wf: "nd_wf ?nd" and u: "unat (2 :: u64) \<le> 2 ^ 64 - 2 ^ 32"
    by (simp_all add: nd_wf_def demo_nd_def)
  have l: "length (wgr_groups (fst (carve_wgs 7 ?nd 2))) = 2"
    using wgr_groups_carve [OF wf request_nowrap [OF u], of 7]
    by (simp add: nd_rest_def demo_nd_def)
  have "unat (w_total_size (fst (carve_wgs 7 ?nd 2))) = 4"
    using carved_range_size_is_its_end [OF wf u, of 7] l by (simp add: demo_nd_def)
  then show ?thesis using l by (simp add: word_unat_eq_iff)
qed

text \<open>C19: A launch of \<open>n\<close> carved ranges completes exactly when the last of them finishes: the first
  \<open>n - 1\<close> ranges to finish, in any order, make no callback and touch no object; the last sets
  the event complete, calls its callback once, gives back the references to kernel and event,
  and deletes the index space.\<close>
theorem ndrange_completes_with_last_range:
  assumes "\<forall>w\<in>set (ws @ [w]). w_parent w = Some p" and "length (ws @ [w]) < 2 ^ 32"
    and "ns_ndranges st p = Some nd" and "n_wgrs_in_the_wild nd = of_nat (length (ws @ [w]))"
    and "o_kernels (ns_objs st) (n_kernel nd) = Some k"
    and "o_events (ns_objs st) (n_event nd) = Some ev" and "m_cb ev = Some cb"
  shows "(\<exists>st1. finish_all st ws = Inr (st1, []) \<and> ns_objs st1 = ns_objs st) \<and>
    finish_all st (ws @ [w]) =
      Inr (st\<lparr>ns_objs := completed_objs (ns_objs st) (n_kernel nd) k (n_event nd) ev,
             ns_ndranges := (ns_ndranges st)(p := None)\<rparr>, [cb])"
proof
  show "finish_all st (ws @ [w]) =
      Inr (st\<lparr>ns_objs := completed_objs (ns_objs st) (n_kernel nd) k (n_event nd) ev,
             ns_ndranges := (ns_ndranges st)(p := None)\<rparr>, [cb])"
    using assms by (intro finish_all_last) simp_all
  show "\<exists>st1. finish_all st ws = Inr (st1, []) \<and> ns_objs st1 = ns_objs st"
    using assms(1-4) by (intro finish_all_before_last [where p = p and nd = nd and m = "length (ws @ [w])"]) auto
qed

definition demo_store :: nd_store where
  "demo_store = \<lparr>ns_objs = demo_objs, ns_ndranges = [7 \<mapsto> demo_nd\<lparr>n_wgrs_in_the_wild := 2\<rparr>]\<rparr>"

theorem ndrange_completes_with_last_range_witness:
  "\<exists>st1 st2. finish_all demo_store [new_WorkGroupRange 7 0 2 0 1 0 1] = Inr (st1, []) \<and>
     finish_all demo_store [new_WorkGroupRange 7 0 2 0 1 0 1, new_WorkGroupRange 7 2 5 0 1 0 1]
       = Inr (st2, [On_event_complete 9])"
  using ndrange_completes_with_last_range [of "[new_WorkGroupRange 7 0 2 0 1 0 1]"
      "new_WorkGroupRange 7 2 5 0 1 0 1" 7 demo_store "demo_nd\<lparr>n_wgrs_in_the_wild := 2\<rparr>"
      "new_cl_kernel (Some 8)" "new_cl_event\<lparr>m_cb := Some (On_event_complete 9)\<rparr>" "On_event_complete 9"]
  by (auto simp: demo_store_def demo_objs_def demo_nd_def new_WorkGroupRange_def)

text \<open>The completion does not look at \<open>has_more_wgs\<close>: when the ranges carved so far have all
  finished while groups are still left, the event is already reported complete, the index space
  is deleted, and the next \<open>carve_wgs\<close> on it is a use after free.\<close>
theorem ndrange_completes_with_groups_left:
  assumes "ns_ndranges st p = Some nd" and "n_wgrs_in_the_wild nd = 0" and "nd_wf nd"
    and "unat num < nd_rest nd"
    and "o_kernels (ns_objs st) (n_kernel nd) = Some k"
    and "o_events (ns_objs st) (n_event nd) = Some ev" and "m_cb ev = Some cb"
  shows "\<exists>w st1 nd1 st2. carve_at st p num = Inr (w, st1) \<and> ns_ndranges st1 p = Some nd1 \<and>
    has_more_wgs nd1 \<and> mark_as_finished st1 w = Inr (st2, [cb]) \<and>
    carve_at st2 p num = Inl Use_after_free"
proof -
  have "nd_rest nd < 2 ^ 32"
    using unat_bound32 [of "n_total_size nd"] by (simp add: nd_rest_def)
  then have nw: "unat (n_next_wgr nd) + unat num < 2 ^ 64"
    using assms(4) unat_bound32 [of "n_next_wgr nd"] by simp
  obtain w nd1 where c: "carve_wgs p nd num = (w, nd1)" by (cases "carve_wgs p nd num")
  let ?st1 = "st\<lparr>ns_ndranges := (ns_ndranges st)(p \<mapsto> nd1)\<rparr>"
  have at: "carve_at st p num = Inr (w, ?st1)"
    using assms(1) c by (simp add: carve_at_def)
  have nd1: "n_wgrs_in_the_wild nd1 = 1" "n_kernel nd1 = n_kernel nd" "n_event nd1 = n_event nd"
    and w: "w_parent w = Some p"
    using c assms(2) by (auto simp: carve_wgs_def Let_def new_WorkGroupRange_def)
  have wf1: "nd_wf nd1" and r1: "nd_rest nd1 = nd_rest nd - min (unat num) (nd_rest nd)"
    using carve_step(3,4) [OF assms(3) nw, of p] c by simp_all
  have more: "has_more_wgs nd1"
    using has_more_rest [OF wf1] r1 assms(4) by simp
  have m: "mark_as_finished ?st1 w =
    Inr (?st1\<lparr>ns_objs := completed_objs (ns_objs ?st1) (n_kernel nd1) k (n_event nd1) ev,
           ns_ndranges := (ns_ndranges ?st1)(p := None)\<rparr>, [cb])"
    by (rule mark_as_finished_last [OF w]) (use assms nd1 in simp_all)
  have "carve_at (?st1\<lparr>ns_objs := completed_objs (ns_objs ?st1) (n_kernel nd1) k (n_event nd1) ev,
           ns_ndranges := (ns_ndranges ?st1)(p := None)\<rparr>) p num = Inl Use_after_free"
    by (simp add: carve_at_def)
  then show ?thesis using at m more by fastforce
qed

theorem ndrange_completes_with_groups_left_witness:
  "\<exists>w st1 st2. carve_at (demo_store\<lparr>ns_ndranges := [7 \<mapsto> demo_nd]\<rparr>) 7 2 = Inr (w, st1) \<and>
    mark_as_finished st1 w = Inr (st2, [On_event_complete 9]) \<and>
    carve_at st2 7 2 = Inl Use_after_free"
  using ndrange_completes_with_groups_left [of "demo_store\<lparr>ns_ndranges := [7 \<mapsto> demo_nd]\<rparr>" 7 demo_nd 2
      "new_cl_kernel (Some 8)" "new_cl_event\<lparr>m_cb := Some (On_event_complete 9)\<rparr>" "On_event_complete 9"]
  by (auto simp: demo_store_def demo_objs_def demo_nd_def nd_wf_def nd_rest_def)

text \<open>\<open>carve_wgs\<close> on an index space with no groups cuts off groups that do not exist: the
  comparison with \<open>m_total_size - 1\<close> wraps, so every request below \<open>2 ^ 32\<close> is granted in full.\<close>
theorem empty_ndrange_carves_absent_groups:
  assumes "n_total_size nd = 0" and "n_next_wgr nd = 0" and "unat num < 2 ^ 32"
  shows "wgr_groups (fst (carve_wgs p nd num)) = [0..<unat num] \<and> \<not> has_more_wgs nd"
proof -
  have "unat (ucast (0 - 1 :: u32) :: u64) = 2 ^ 32 - 1"
    by (subst unat_ucast_small) (simp_all add: unsigned_minus_1_eq_mask mask_eq_exp_minus_1)
  then have "\<not> num > (ucast (0 - 1 :: u32) :: u64)"
    using assms(3) by (simp add: word_less_nat_alt)
  moreover have "unat (ucast num :: u32) = unat num"
    using assms(3) by (intro unat_ucast_small) simp
  ultimately show ?thesis using assms(1,2)
    by (simp add: carve_wgs_def wgr_groups_def new_WorkGroupRange_def has_more_wgs_def Let_def)
qed

theorem empty_ndrange_carves_absent_groups_witness:
  "wgr_groups (fst (carve_wgs 7 (demo_nd\<lparr>n_total_size := 0\<rparr>) 3)) = [0, 1, 2]"
  using empty_ndrange_carves_absent_groups [of "demo_nd\<lparr>n_total_size := 0\<rparr>" 3 7]
  by (simp add: demo_nd_def upt_rec)

text \<open>\<open>get_3d_from_1d\<close> inverts the row-major numbering of the groups: every coordinate triple
  inside the index space comes back from its number, when the numbering fits \<open>unsigned\<close>.\<close>
theorem get_3d_from_1d_inverts_numbering:
  assumes "x < n_size_x nd" and "y < n_size_y nd" and "z < n_size_z nd"
    and "unat (n_size_x nd) * unat (n_size_y nd) * unat (n_size_z nd) < 2 ^ 32"
  shows "get_3d_from_1d nd ((x * n_size_y nd + y) * n_size_z nd + z) = Inr (x, y, z)"
proof -
  let ?X = "unat (n_size_x nd)" and ?Y = "unat (n_size_y nd)" and ?Z = "unat (n_size_z nd)"
  have x: "unat x < ?X" and y: "unat y < ?Y" and z: "unat z < ?Z"
    using assms by (simp_all add: word_less_nat_alt)
  have nz: "n_size_z nd \<noteq> 0" "n_size_y nd \<noteq> 0" using y z by auto
  have xy: "unat x * ?Y + unat y < ?X * ?Y" by (rule row_major_less [OF x y])
  have xyz: "(unat x * ?Y + unat y) * ?Z + unat z < ?X * ?Y * ?Z"
    by (rule row_major_less [OF xy z])
  have c: "unat ((x * n_size_y nd + y) * n_size_z nd + z) = (unat x * ?Y + unat y) * ?Z + unat z"
    using assms(4) xyz by (simp add: unat_word_ariths mod_simps)
  have "unat (((x * n_size_y nd + y) * n_size_z nd + z) mod n_size_z nd) = unat z"
    unfolding unat_mod c using z by simp
  moreover have d: "unat (((x * n_size_y nd + y) * n_size_z nd + z) div n_size_z nd)
      = unat x * ?Y + unat y"
    unfolding unat_div c using z by simp
  moreover have "unat (((x * n_size_y nd + y) * n_size_z nd + z) div n_size_z nd mod n_size_y nd)
      = unat y"
    unfolding unat_mod [of "_ div _"] d using y by simp
  moreover have "unat (((x * n_size_y nd + y) * n_size_z nd + z) div n_size_z nd div n_size_y nd)
      = unat x"
    unfolding unat_div [of "_ div _"] d using y by simp
  ultimately show ?thesis using nz
    by (simp add: get_3d_from_1d_def Let_def word_unat_eq_iff)
qed

theorem get_3d_from_1d_inverts_numbering_witness:
  "get_3d_from_1d (demo_nd\<lparr>n_size_x := 4, n_size_y := 3, n_size_z := 2\<rparr>) ((3 * 3 + 2) * 2 + 1)
    = Inr (3, 2, 1)"
  using get_3d_from_1d_inverts_numbering [of 3 "demo_nd\<lparr>n_size_x := 4, n_size_y := 3, n_size_z := 2\<rparr>" 2 1]
  by simp

end
