(* ===== verification/Scheduler.thy ===== *)
theory Scheduler
  imports Circ_Array ND_Range Complex_Main
begin

text \<open>
  The schedulers (\<^verbatim>\<open>cpp/scheduler_common.cc\<close>, \<^verbatim>\<open>cpp/scheduler_emu.cc\<close>), one per programmable
  region, the manager of the free ones (\<^verbatim>\<open>cpp/free_sched_mgr.cc\<close>) and the timers both run on
  (\<^verbatim>\<open>cpp/ev_timer.cc\<close>). The schedulers live in one state, because submitting work to one
  updates the list of free schedulers and finishing work completes launches. Times are exact
  rationals, in seconds.

  \<open>submit_wgr\<close> is declared to return a code and has no \<open>return\<close> statement; no caller reads
  the result, and the model returns none.
\<close>

section \<open>Timers\<close>

text \<open>
  The watcher's fields are those the macros of \<^verbatim>\<open>ev.h\<close> read and write; starting, stopping and
  expiring a watcher is done in the event library, which is a parameter \<open>lv\<close>. The first
  argument of its operations is the loop's time.
\<close>

(* src/cpp/ev_timer.h:16-32 EvTimerBase *)
record ev_timer =
  t_active :: bool
  t_at :: rat
  t_repeat :: rat

record libev =
  lv_start :: "rat \<Rightarrow> ev_timer \<Rightarrow> ev_timer"
  lv_stop :: "rat \<Rightarrow> ev_timer \<Rightarrow> ev_timer"
  lv_expire :: "rat \<Rightarrow> ev_timer \<Rightarrow> ev_timer"

text \<open>
  What the event library documents: a started watcher is active and keeps its repeat value, a
  stopped one is not active, and a watcher without repeat is stopped before its callback runs.
\<close>

definition libev_ok :: "libev \<Rightarrow> bool" where
  "libev_ok lv \<longleftrightarrow> (\<forall>now t. t_active (lv_start lv now t)) \<and>
     (\<forall>now t. t_repeat (lv_start lv now t) = t_repeat t) \<and> (\<forall>now t. \<not> t_active (lv_stop lv now t)) \<and>
     (\<forall>now t. t_repeat t = 0 \<longrightarrow> \<not> t_active (lv_expire lv now t))"

(* src/cpp/ev_timer.cc:31-37 EvTimerBase::EvTimerBase *)
definition new_EvTimerBase :: ev_timer where
  "new_EvTimerBase = \<lparr>t_active = False, t_at = 0, t_repeat = 0\<rparr>"

(* src/cpp/ev_timer.cc:40-43 EvTimerBase::is_active *)
definition is_active :: "ev_timer \<Rightarrow> bool" where
  "is_active t = t_active t"

(* src/cpp/ev_timer.cc:45-52 EvTimerBase::start_timer *)
definition start_timer :: "libev \<Rightarrow> rat \<Rightarrow> ev_timer \<Rightarrow> rat \<Rightarrow> rat \<Rightarrow> ev_timer" where
  "start_timer lv now t after rep = lv_start lv now (t\<lparr>t_at := after, t_repeat := rep\<rparr>)"

(* src/cpp/ev_timer.cc:54-57 EvTimerBase::stop_timer *)
definition stop_timer :: "libev \<Rightarrow> rat \<Rightarrow> ev_timer \<Rightarrow> ev_timer" where
  "stop_timer lv now t = lv_stop lv now t"

section \<open>The manager of free schedulers\<close>

text \<open>\<open>f_cb\<close>: whether the slicing algorithm is registered as the callback.\<close>

(* src/cpp/free_sched_mgr.h:21-36 FreeSchedulersManager *)
record free_sched_mgr =
  f_free_schedulers :: "u32 circ_array"
  f_free_sched_timer :: ev_timer
  f_cb :: bool

(* src/cpp/free_sched_mgr.cc:6-11 FreeSchedulersManager::FreeSchedulersManager *)
definition new_FreeSchedulersManager :: "(nat \<Rightarrow> u32) \<Rightarrow> u64 \<Rightarrow> free_sched_mgr res" where
  "new_FreeSchedulersManager junk free_sc_size =
     bindr (ca_new junk free_sc_size) (\<lambda>c.
       Inr \<lparr>f_free_schedulers = c, f_free_sched_timer = new_EvTimerBase, f_cb = False\<rparr>)"

(* src/cpp/free_sched_mgr.cc:13-17 FreeSchedulersManager::register_on_free_schedulers_cb *)
definition register_on_free_schedulers_cb :: "free_sched_mgr \<Rightarrow> free_sched_mgr" where
  "register_on_free_schedulers_cb m = m\<lparr>f_cb := True\<rparr>"

text \<open>The repeat time is the \<open>float\<close> nearest to 0.000001.\<close>

(* src/cpp/free_sched_mgr.cc:19-28 FreeSchedulersManager::add_free_scheduler *)
definition add_free_scheduler :: "libev \<Rightarrow> rat \<Rightarrow> free_sched_mgr \<Rightarrow> u32 \<Rightarrow> free_sched_mgr res" where
  "add_free_scheduler lv now m sid =
     (if ca_is_full (f_free_schedulers m) then Inl Assert_failed
      else bindr (ca_push_back (f_free_schedulers m) sid False) (\<lambda>(_, c).
        let m1 = m\<lparr>f_free_schedulers := c\<rparr>
        in Inr (if \<not> is_active (f_free_sched_timer m1)
                then m1\<lparr>f_free_sched_timer :=
                        start_timer lv now (f_free_sched_timer m1) 0 (8796093 / 2 ^ 43)\<rparr>
                else m1)))"

text \<open>The search loop: \<open>int i\<close> is converted to \<open>size_t\<close> in the test and in the index.\<close>

(* src/cpp/free_sched_mgr.cc:32-39 FreeSchedulersManager::remove_free_scheduler (loop) *)
function remove_id_loop :: "int \<Rightarrow> u32 \<Rightarrow> u32 circ_array \<Rightarrow> u32 circ_array res" where
  "remove_id_loop i sid c =
     (if (word_of_int i :: u64) < ca_occupancy c then
        bindr (ca_get c (word_of_int i)) (\<lambda>x.
          if x = sid then bindr (ca_pop_at c (word_of_int i)) (\<lambda>(_, c'). Inr c')
          else if i \<ge> int_max then Inl Int_overflow
          else remove_id_loop (i + 1) sid c)
      else Inr c)"
  by pat_completeness auto
termination
  by (relation "measure (\<lambda>(i, sid, c). nat (int_max - i))") auto

declare remove_id_loop.simps [simp del]

(* src/cpp/free_sched_mgr.cc:30-45 FreeSchedulersManager::remove_free_scheduler *)
definition remove_free_scheduler :: "libev \<Rightarrow> rat \<Rightarrow> free_sched_mgr \<Rightarrow> u32 \<Rightarrow> free_sched_mgr res" where
  "remove_free_scheduler lv now m sid =
     bindr (remove_id_loop 0 sid (f_free_schedulers m)) (\<lambda>c.
       let m1 = m\<lparr>f_free_schedulers := c\<rparr>
       in Inr (if ca_empty c
               then m1\<lparr>f_free_sched_timer := stop_timer lv now (f_free_sched_timer m1)\<rparr>
               else m1))"

section \<open>Schedulers\<close>

(* src/cpp/scheduler.h:16-70 Scheduler *)
record scheduler =
  s_timer :: ev_timer
  s_in_queue :: "work_group_range circ_array"
  s_id :: u32
  s_last_kernel :: string
  s_mock_would_need_reconf :: bool
  s_end_time :: rat
  s_sched_addr :: u64
  s_dcplr_addr :: u64
  s_mlbx_wraddr :: u64
  s_mlbx_rdaddr :: u64
  s_ICAP_addr :: u64
  s_mem_base :: u64
  s_is_local :: bool
  s_polling_interval :: rat

text \<open>The identifier is computed in 64 bits and kept in 32.\<close>

(* src/cpp/scheduler_common.cc:27-27 Scheduler::m_id *)
definition scheduler_id :: "u64 \<Rightarrow> u32 \<Rightarrow> u32 \<Rightarrow> u32" where
  "scheduler_id Board_ID FPGA_ID PR_ID =
     ucast (Board_ID * 16 + ucast ((FPGA_ID - 1) * 4) + ucast PR_ID)"

(* src/cpp/scheduler_common.cc:7-19 PR_Slot *)
definition PR_Slot :: "u64 \<Rightarrow> u32 \<Rightarrow> u32 \<Rightarrow> u64 \<times> u64 \<times> u64 \<times> u64 \<times> u64" where
  "PR_Slot Board_ID FPGA_ID PR_ID = (0, 0, 0, 0, 0)"

text \<open>
  \<open>m_mock_would_need_reconf\<close> and \<open>m_end_time\<close> are left uninitialised: the last two arguments.
\<close>

(* src/cpp/scheduler_common.cc:21-82 Scheduler::Scheduler *)
definition new_Scheduler ::
  "(nat \<Rightarrow> work_group_range) \<Rightarrow> u64 \<Rightarrow> u32 \<Rightarrow> u32 \<Rightarrow> rat \<Rightarrow> bool \<Rightarrow> rat \<Rightarrow> scheduler res" where
  "new_Scheduler junk Board_ID FPGA_ID PR_ID polling_interval junk_reconf junk_end =
     bindr (ca_new junk 100) (\<lambda>q.
       let (sched, dcplr, wr, rd, icap) = PR_Slot Board_ID FPGA_ID PR_ID
       in if Board_ID \<le> 3
          then Inr \<lparr>s_timer = new_EvTimerBase, s_in_queue = q,
                    s_id = scheduler_id Board_ID FPGA_ID PR_ID, s_last_kernel = [],
                    s_mock_would_need_reconf = junk_reconf, s_end_time = junk_end,
                    s_sched_addr = sched, s_dcplr_addr = dcplr, s_mlbx_wraddr = wr,
                    s_mlbx_rdaddr = rd, s_ICAP_addr = icap, s_mem_base = push_bit 5 Board_ID,
                    s_is_local = (Board_ID = 0 \<and> FPGA_ID = 1),
                    s_polling_interval = polling_interval\<rparr>
          else Inl (Runtime_error ''wrong board_id''))"

(* src/cpp/scheduler_emu.cc:40-43 Scheduler::would_need_reconf *)
definition would_need_reconf :: "scheduler \<Rightarrow> string \<Rightarrow> bool" where
  "would_need_reconf s kernel_name = s_mock_would_need_reconf s"

text \<open>A time is converted to \<open>unsigned\<close> by truncation; a value that does not fit is undefined.\<close>

definition rat_to_unsigned :: "rat \<Rightarrow> u32 res" where
  "rat_to_unsigned t = (if floor t < 2 ^ 32 then Inr (word_of_int (floor t)) else Inl Int_overflow)"

(* src/cpp/scheduler_emu.cc:28-38 Scheduler::get_remaining_time *)
definition get_remaining_time :: "rat \<Rightarrow> scheduler \<Rightarrow> u32 res" where
  "get_remaining_time now s =
     (if s_end_time s - now < 0 then Inr 0 else rat_to_unsigned (s_end_time s - now))"

text \<open>An execution cost in milliseconds, as seconds.\<close>

definition cost_seconds :: "work_group_range \<Rightarrow> rat" where
  "cost_seconds w = of_nat (unat (w_execution_cost w)) / 1000"

section \<open>The state the schedulers share\<close>

record sched_state =
  ss_store :: nd_store
  ss_schedulers :: "scheduler list"
  ss_free :: free_sched_mgr
  ss_now :: rat

definition sched_at :: "sched_state \<Rightarrow> nat \<Rightarrow> scheduler res" where
  "sched_at w i =
     (if i < length (ss_schedulers w) then Inr (ss_schedulers w ! i) else Inl Out_of_bounds)"

definition set_sched :: "sched_state \<Rightarrow> nat \<Rightarrow> scheduler \<Rightarrow> sched_state" where
  "set_sched w i s = w\<lparr>ss_schedulers := (ss_schedulers w)[i := s]\<rparr>"

text \<open>
  The messages the code logs name the kernel of the range. The arguments of the logging macro are
  evaluated, so the range's launch, its kernel and the kernel's program are read: the name goes
  nowhere, but reading it can fault.
\<close>

(* src/cpp/scheduler_emu.cc:45-88 Scheduler::submit_wgr *)
definition submit_wgr :: "libev \<Rightarrow> nat \<Rightarrow> work_group_range \<Rightarrow> sched_state \<Rightarrow> sched_state res" where
  "submit_wgr lv i wgr w =
     bindr (sched_at w i) (\<lambda>s.
     bindr (ca_push_back (s_in_queue s) wgr False) (\<lambda>(_, q).
       let s1 = s\<lparr>s_in_queue := q\<rparr>
       in bindr (if \<not> is_active (s_timer s1) \<and> ca_occupancy q < 2
                 then bindr (wgr_get_kernel_name (ss_store w) wgr) (\<lambda>_.
                        Inr (s1\<lparr>s_end_time := ss_now w + cost_seconds wgr,
                                s_timer := start_timer lv (ss_now w) (s_timer s1) (cost_seconds wgr) 0\<rparr>))
                 else Inr s1) (\<lambda>s2.
          bindr (remove_free_scheduler lv (ss_now w) (ss_free w) (s_id s2)) (\<lambda>f.
            Inr ((set_sched w i s2)\<lparr>ss_free := f\<rparr>)))))"

text \<open>The callbacks of completed launches are returned, in order.\<close>

(* src/cpp/scheduler_emu.cc:91-120 Scheduler::on_timer *)
definition on_timer :: "libev \<Rightarrow> nat \<Rightarrow> sched_state \<Rightarrow> (sched_state \<times> event_cb list) res" where
  "on_timer lv i w =
     bindr (sched_at w i) (\<lambda>s.
     bindr (ca_pop_front (s_in_queue s)) (\<lambda>(wgr, q).
     bindr (wgr_get_kernel_name (ss_store w) wgr) (\<lambda>_.
     bindr (mark_as_finished (ss_store w) wgr) (\<lambda>(st, cbs).
       let s1 = s\<lparr>s_in_queue := q\<rparr>; w1 = w\<lparr>ss_store := st\<rparr>
       in if ca_empty q
          then bindr (add_free_scheduler lv (ss_now w) (ss_free w) (s_id s1)) (\<lambda>f.
                 Inr ((set_sched w1 i (s1\<lparr>s_end_time := 0\<rparr>))\<lparr>ss_free := f\<rparr>, cbs))
          else bindr (ca_get q 0) (\<lambda>wgr_new.
               bindr (wgr_get_kernel_name st wgr_new) (\<lambda>_.
                 Inr (set_sched w1 i
                        (s1\<lparr>s_end_time := ss_now w + cost_seconds wgr_new,
                            s_timer := start_timer lv (ss_now w) (s_timer s1) (cost_seconds wgr_new) 0\<rparr>),
                      cbs)))))))"

text \<open>The loop's dispatch of an expired scheduler timer.\<close>

(* src/cpp/ev_timer.cc:12-26 on_timer_cb *)
definition fire_scheduler :: "libev \<Rightarrow> nat \<Rightarrow> sched_state \<Rightarrow> (sched_state \<times> event_cb list) res" where
  "fire_scheduler lv i w =
     bindr (sched_at w i) (\<lambda>s.
       on_timer lv i (set_sched w i (s\<lparr>s_timer := lv_expire lv (ss_now w) (s_timer s)\<rparr>)))"

section \<open>Facts about timers and the free list\<close>

lemma libev_okD:
  assumes "libev_ok lv"
  shows "t_active (lv_start lv now t)" and "t_repeat (lv_start lv now t) = t_repeat t"
    and "\<not> t_active (lv_stop lv now t)" and "t_repeat t = 0 \<Longrightarrow> \<not> t_active (lv_expire lv now t)"
  using assms by (simp_all add: libev_ok_def)

lemma start_timer_active: "libev_ok lv \<Longrightarrow> t_active (start_timer lv now t after rep)"
  and start_timer_repeat: "libev_ok lv \<Longrightarrow> t_repeat (start_timer lv now t after rep) = rep"
  by (simp_all add: start_timer_def libev_okD)

text \<open>The loop finds the first entry equal to the id and takes it out.\<close>

lemma remove_id_loop_ok:
  assumes wf: "ca_wf c" and n: "length (ca_list c) < 2 ^ 31" and i: "i \<le> length (ca_list c)"
    and before: "sid \<notin> set (take i (ca_list c))"
  shows "\<exists>c'. remove_id_loop (int i) sid c = Inr c' \<and> ca_wf c' \<and> ca_bound c' = ca_bound c \<and>
    ca_list c' = remove1 sid (ca_list c)"
  using i before
proof (induction "length (ca_list c) - i" arbitrary: i)
  case 0
  then have il: "i = length (ca_list c)" by simp
  have "\<not> (word_of_int (int i) :: u64) < ca_occupancy c"
    using n il by (simp add: word_less_nat_alt ca_occupancy_length unat_of_nat_small)
  moreover have "sid \<notin> set (ca_list c)" using 0 il by simp
  ultimately show ?case using wf by (subst remove_id_loop.simps) (simp add: remove1_idem)
next
  case (Suc k)
  then have il: "i < length (ca_list c)" by simp
  have u: "unat (word_of_int (int i) :: u64) = i" using il n by (simp add: unat_of_nat_small)
  have lt: "(word_of_int (int i) :: u64) < ca_occupancy c"
    unfolding word_less_nat_alt ca_occupancy_length u by (rule il)
  have g: "ca_get c (word_of_int (int i)) = Inr (ca_list c ! i)"
    using ca_get_ok [OF wf, of "word_of_int (int i)"] il unfolding u by simp
  show ?case
  proof (cases "ca_list c ! i = sid")
    case True
    obtain c' where c': "ca_pop_at c (word_of_int (int i)) = Inr (ca_list c ! i, c')" "ca_wf c'"
        "ca_bound c' = ca_bound c" "ca_list c' = take i (ca_list c) @ drop (Suc i) (ca_list c)"
      using ca_pop_at_ok [OF wf, of "word_of_int (int i)"] il n unfolding u by blast
    have "ca_list c = take i (ca_list c) @ sid # drop (Suc i) (ca_list c)"
      using True il id_take_nth_drop by metis
    then have "remove1 sid (ca_list c) = take i (ca_list c) @ drop (Suc i) (ca_list c)"
      using Suc.prems(2) by (metis remove1.simps(2) remove1_append)
    then show ?thesis using lt g c' True by (subst remove_id_loop.simps) simp
  next
    case False
    have "sid \<notin> set (take (Suc i) (ca_list c))"
      using Suc.prems(2) False il by (simp add: take_Suc_conv_app_nth)
    moreover have "k = length (ca_list c) - Suc i" using Suc.hyps(2) by simp
    ultimately have IH: "\<exists>c'. remove_id_loop (int (Suc i)) sid c = Inr c' \<and> ca_wf c' \<and>
        ca_bound c' = ca_bound c \<and> ca_list c' = remove1 sid (ca_list c)"
      using Suc.hyps(1) [of "Suc i"] il by auto
    have "\<not> int i \<ge> int_max" using il n by simp
    then have "remove_id_loop (int i) sid c = remove_id_loop (int i + 1) sid c"
      using lt g False by (subst remove_id_loop.simps) simp
    moreover have "int i + 1 = int (Suc i)" by simp
    ultimately show ?thesis using IH by (simp only:)
  qed
qed

definition free_ids :: "free_sched_mgr \<Rightarrow> u32 list" where
  "free_ids m = ca_list (f_free_schedulers m)"

definition free_wf :: "free_sched_mgr \<Rightarrow> bool" where
  "free_wf m \<longleftrightarrow> ca_wf (f_free_schedulers m) \<and> distinct (free_ids m) \<and> length (free_ids m) < 2 ^ 31 \<and>
     (t_active (f_free_sched_timer m) \<longleftrightarrow> free_ids m \<noteq> [])"

abbreviation free_bound :: "free_sched_mgr \<Rightarrow> nat" where
  "free_bound m \<equiv> ca_bound (f_free_schedulers m)"

lemma remove_free_scheduler_ok:
  assumes lv: "libev_ok lv" and wf: "free_wf m"
  shows "\<exists>m'. remove_free_scheduler lv now m sid = Inr m' \<and> free_wf m' \<and> free_bound m' = free_bound m \<and>
    f_cb m' = f_cb m \<and> free_ids m' = remove1 sid (free_ids m)"
proof -
  obtain c' where c': "remove_id_loop (int 0) sid (f_free_schedulers m) = Inr c'" "ca_wf c'"
      "ca_bound c' = free_bound m" "ca_list c' = remove1 sid (free_ids m)"
    using remove_id_loop_ok [of "f_free_schedulers m" 0 sid] wf by (auto simp: free_wf_def free_ids_def)
  have l: "length (remove1 sid (free_ids m)) < 2 ^ 31"
    using wf by (auto simp: free_wf_def length_remove1)
  have ne: "remove1 sid (free_ids m) \<noteq> [] \<Longrightarrow> free_ids m \<noteq> []" by auto
  show ?thesis
    using c' wf l ne lv
    by (auto simp: remove_free_scheduler_def free_wf_def free_ids_def ca_empty_iff stop_timer_def
        libev_okD Let_def)
qed

lemma add_free_scheduler_ok:
  assumes lv: "libev_ok lv" and wf: "free_wf m" and room: "length (free_ids m) < free_bound m"
    and new: "sid \<notin> set (free_ids m)" and small: "free_bound m < 2 ^ 31"
  shows "\<exists>m'. add_free_scheduler lv now m sid = Inr m' \<and> free_wf m' \<and> free_bound m' = free_bound m \<and>
    f_cb m' = f_cb m \<and> free_ids m' = free_ids m @ [sid]"
proof -
  have w: "ca_wf (f_free_schedulers m)" using wf by (simp add: free_wf_def)
  have nf: "\<not> ca_is_full (f_free_schedulers m)"
    using room ca_full_iff [OF w] by (simp add: free_ids_def)
  obtain c' where c': "ca_push_back (f_free_schedulers m) sid False = Inr (SUCCESS, c')" "ca_wf c'"
      "ca_list c' = free_ids m @ [sid]" "ca_bound c' = free_bound m"
    using ca_push_back_room [OF w, of sid False] room by (auto simp: free_ids_def)
  show ?thesis
    using c' nf wf lv new room small
    by (auto simp: add_free_scheduler_def free_wf_def free_ids_def is_active_def Let_def
        start_timer_active)
qed

section \<open>The schedulers' invariant\<close>

definition queues :: "sched_state \<Rightarrow> work_group_range list list" where
  "queues w = map (\<lambda>s. ca_list (s_in_queue s)) (ss_schedulers w)"

definition idle :: "scheduler \<Rightarrow> bool" where
  "idle s \<longleftrightarrow> ca_list (s_in_queue s) = []"

text \<open>
  A queue of a hundred entries; a timer that runs, once, exactly while there is work.
\<close>

definition sched_wf :: "scheduler \<Rightarrow> bool" where
  "sched_wf s \<longleftrightarrow> ca_wf (s_in_queue s) \<and> ca_bound (s_in_queue s) = 100 \<and>
     (t_active (s_timer s) \<longleftrightarrow> \<not> idle s) \<and> (t_active (s_timer s) \<longrightarrow> t_repeat (s_timer s) = 0)"

text \<open>The list of free schedulers holds the ids of the idle ones, each once, and has room for all.\<close>

definition sched_inv :: "sched_state \<Rightarrow> bool" where
  "sched_inv w \<longleftrightarrow>
     distinct (map s_id (ss_schedulers w)) \<and> length (ss_schedulers w) \<le> free_bound (ss_free w) \<and>
     free_bound (ss_free w) < 2 ^ 31 \<and> free_wf (ss_free w) \<and>
     set (free_ids (ss_free w)) = s_id ` {s \<in> set (ss_schedulers w). idle s} \<and>
     (\<forall>s\<in>set (ss_schedulers w). sched_wf s)"

lemma distinct_map_nth_eq:
  "distinct (map f xs) \<Longrightarrow> x \<in> set xs \<Longrightarrow> i < length xs \<Longrightarrow> f x = f (xs ! i) \<Longrightarrow> x = xs ! i"
  by (meson distinct_map inj_onD nth_mem)

text \<open>The ids of the idle schedulers after one scheduler changed.\<close>

lemma idle_ids_update:
  assumes d: "distinct (map s_id ss)" and i: "i < length ss" and sid: "s_id s' = s_id (ss ! i)"
  shows "s_id ` {s \<in> set (ss[i := s']). idle s} =
    (if idle s' then insert (s_id s') (s_id ` {s \<in> set ss. idle s})
     else s_id ` {s \<in> set ss. idle s} - {s_id s'})"
proof -
  have mem: "x \<in> set (ss[i := s']) \<longleftrightarrow> x = s' \<or> (\<exists>j<length ss. j \<noteq> i \<and> x = ss ! j)" for x
    using i by (auto simp: in_set_conv_nth nth_list_update)
  have ne: "s_id (ss ! j) \<noteq> s_id s'" if "j < length ss" "j \<noteq> i" for j
    using d i sid that by (metis length_map nth_eq_iff_index_eq nth_map)
  have mem2: "x \<in> set ss \<longleftrightarrow> x = ss ! i \<or> (\<exists>j<length ss. j \<noteq> i \<and> x = ss ! j)" for x
    using i by (auto simp: in_set_conv_nth)
  have o: "s_id ` {s \<in> set ss. idle s} - {s_id s'} = s_id ` {x. (\<exists>j<length ss. j \<noteq> i \<and> x = ss ! j) \<and> idle x}"
    using ne sid by (auto simp: mem2)
  show ?thesis
  proof (cases "idle s'")
    case True
    have "s_id ` {s \<in> set (ss[i := s']). idle s} =
      insert (s_id s') (s_id ` {x. (\<exists>j<length ss. j \<noteq> i \<and> x = ss ! j) \<and> idle x})"
      using True by (auto simp: mem)
    then show ?thesis using True by (simp add: o [symmetric] del: Diff_insert_absorb)
  next
    case False
    then show ?thesis unfolding o by (auto simp: mem)
  qed
qed

lemma sched_inv_update:
  assumes inv: "sched_inv w" and i: "i < length (ss_schedulers w)"
    and sid: "s_id s' = s_id (ss_schedulers w ! i)" and wf: "sched_wf s'"
    and f: "free_wf f" "free_bound f = free_bound (ss_free w)"
    and ids: "set (free_ids f) = (if idle s' then insert (s_id s') (set (free_ids (ss_free w)))
      else set (free_ids (ss_free w)) - {s_id s'})"
  shows "sched_inv ((set_sched w i s')\<lparr>ss_free := f\<rparr>)"
proof -
  have d: "distinct (map s_id (ss_schedulers w))" using inv by (simp add: sched_inv_def)
  have "map s_id ((ss_schedulers w)[i := s']) = map s_id (ss_schedulers w)"
    using sid i by (simp add: map_update list_update_same_conv)
  moreover have "set (free_ids f) = s_id ` {s \<in> set ((ss_schedulers w)[i := s']). idle s}"
    unfolding idle_ids_update [OF d i sid] ids using inv by (simp add: sched_inv_def)
  ultimately show ?thesis
    using inv wf f by (auto simp: sched_inv_def set_sched_def dest: set_update_subset_insert [THEN subsetD])
qed

lemma sched_inv_free: "sched_inv w \<Longrightarrow> free_wf (ss_free w)"
  by (simp add: sched_inv_def)

lemma sched_inv_at:
  assumes "sched_inv w" and "i < length (ss_schedulers w)"
  shows "sched_at w i = Inr (ss_schedulers w ! i)" and "sched_wf (ss_schedulers w ! i)"
    and "s_id (ss_schedulers w ! i) \<in> set (free_ids (ss_free w)) \<longleftrightarrow> idle (ss_schedulers w ! i)"
proof -
  show "sched_at w i = Inr (ss_schedulers w ! i)" "sched_wf (ss_schedulers w ! i)"
    using assms by (simp_all add: sched_at_def sched_inv_def)
  show "s_id (ss_schedulers w ! i) \<in> set (free_ids (ss_free w)) \<longleftrightarrow> idle (ss_schedulers w ! i)"
    using assms distinct_map_nth_eq [of s_id "ss_schedulers w" _ i]
    by (fastforce simp: sched_inv_def)
qed

lemma remove1_idle:
  assumes "distinct xs"
  shows "set (remove1 x xs) = set xs - {x}"
  using assms by simp

text \<open>The range's launch, its kernel and the kernel's program are there.\<close>

definition named :: "nd_store \<Rightarrow> work_group_range \<Rightarrow> bool" where
  "named st x = is_ok (wgr_get_kernel_name st x)"

text \<open>Submitting to a scheduler that has room.\<close>

lemma submit_wgr_ok:
  assumes lv: "libev_ok lv" and inv: "sched_inv w" and i: "i < length (ss_schedulers w)"
    and room: "length (queues w ! i) < 100" and nm: "queues w ! i = [] \<Longrightarrow> named (ss_store w) wgr"
  shows "\<exists>w'. submit_wgr lv i wgr w = Inr w' \<and> sched_inv w' \<and>
    queues w' = (queues w)[i := queues w ! i @ [wgr]] \<and> ss_store w' = ss_store w \<and>
    ss_now w' = ss_now w \<and> length (ss_schedulers w') = length (ss_schedulers w)"
proof -
  let ?s = "ss_schedulers w ! i"
  note at = sched_inv_at [OF inv i]
  have q: "queues w ! i = ca_list (s_in_queue ?s)" using i by (simp add: queues_def)
  obtain q' where q': "ca_push_back (s_in_queue ?s) wgr False = Inr (SUCCESS, q')" "ca_wf q'"
      "ca_list q' = queues w ! i @ [wgr]" "ca_bound q' = 100"
    using ca_push_back_room [of "s_in_queue ?s" wgr False] at(2) room by (auto simp: sched_wf_def q)
  define s1 where "s1 = ?s\<lparr>s_in_queue := q'\<rparr>"
  define s2 where "s2 = (if \<not> is_active (s_timer s1) \<and> ca_occupancy q' < 2
    then s1\<lparr>s_end_time := ss_now w + cost_seconds wgr,
            s_timer := start_timer lv (ss_now w) (s_timer s1) (cost_seconds wgr) 0\<rparr> else s1)"
  have occ: "ca_occupancy q' < 2 \<longleftrightarrow> length (queues w ! i) = 0"
    by (simp add: word_less_nat_alt ca_occupancy_length q')
  have ni: "\<not> idle s2" using q' by (simp add: idle_def s2_def s1_def)
  have sid: "s_id s2 = s_id ?s" by (simp add: s2_def s1_def)
  have wf2: "sched_wf s2"
    using at(2) q' occ ni lv
    by (auto simp: sched_wf_def s2_def s1_def is_active_def start_timer_active start_timer_repeat idle_def q)
  obtain f where f: "remove_free_scheduler lv (ss_now w) (ss_free w) (s_id s2) = Inr f" "free_wf f"
      "free_bound f = free_bound (ss_free w)" "free_ids f = remove1 (s_id s2) (free_ids (ss_free w))"
    using remove_free_scheduler_ok [OF lv sched_inv_free [OF inv]] by blast
  have "distinct (free_ids (ss_free w))" using inv by (simp add: sched_inv_def free_wf_def)
  then have "sched_inv ((set_sched w i s2)\<lparr>ss_free := f\<rparr>)"
    using f ni by (intro sched_inv_update [OF inv i sid wf2]) simp_all
  moreover have "submit_wgr lv i wgr w = Inr ((set_sched w i s2)\<lparr>ss_free := f\<rparr>)"
  proof -
    have "(if \<not> is_active (s_timer s1) \<and> ca_occupancy q' < 2
        then bindr (wgr_get_kernel_name (ss_store w) wgr) (\<lambda>_.
               Inr (s1\<lparr>s_end_time := ss_now w + cost_seconds wgr,
                       s_timer := start_timer lv (ss_now w) (s_timer s1) (cost_seconds wgr) 0\<rparr>))
        else Inr s1) = Inr s2"
      using nm occ by (auto simp: s2_def named_def is_ok_iff)
    then have "submit_wgr lv i wgr w = bindr (remove_free_scheduler lv (ss_now w) (ss_free w) (s_id s2))
        (\<lambda>f. Inr ((set_sched w i s2)\<lparr>ss_free := f\<rparr>))"
      unfolding submit_wgr_def at(1) bindr.simps q'(1) prod.case Let_def s1_def [symmetric] by simp
    then show ?thesis using f(1) by simp
  qed
  moreover have "queues ((set_sched w i s2)\<lparr>ss_free := f\<rparr>) = (queues w)[i := queues w ! i @ [wgr]]"
    using q' by (simp add: queues_def set_sched_def map_update s2_def s1_def)
  ultimately show ?thesis by (simp add: set_sched_def)
qed

text \<open>Submitting to a full scheduler changes nothing.\<close>

lemma submit_wgr_full:
  assumes lv: "libev_ok lv" and inv: "sched_inv w" and i: "i < length (ss_schedulers w)"
    and full: "length (queues w ! i) = 100"
  shows "\<exists>w'. submit_wgr lv i wgr w = Inr w' \<and> sched_inv w' \<and> queues w' = queues w \<and>
    ss_store w' = ss_store w \<and> ss_now w' = ss_now w \<and> ss_schedulers w' = ss_schedulers w"
proof -
  let ?s = "ss_schedulers w ! i"
  note at = sched_inv_at [OF inv i]
  have q: "queues w ! i = ca_list (s_in_queue ?s)" using i by (simp add: queues_def)
  have p: "ca_push_back (s_in_queue ?s) wgr False = Inr (NO_SPACE_ERROR, s_in_queue ?s)"
    using ca_push_back_full [of "s_in_queue ?s"] at(2) full by (simp add: sched_wf_def q)
  have ni: "\<not> idle ?s" using full by (auto simp: idle_def q)
  then have act: "is_active (s_timer ?s)" using at(2) by (simp add: sched_wf_def is_active_def)
  obtain f where f: "remove_free_scheduler lv (ss_now w) (ss_free w) (s_id ?s) = Inr f" "free_wf f"
      "free_bound f = free_bound (ss_free w)" "free_ids f = remove1 (s_id ?s) (free_ids (ss_free w))"
    using remove_free_scheduler_ok [OF lv sched_inv_free [OF inv]] by blast
  have "distinct (free_ids (ss_free w))" using inv by (simp add: sched_inv_def free_wf_def)
  then have "sched_inv ((set_sched w i ?s)\<lparr>ss_free := f\<rparr>)"
    using f ni by (intro sched_inv_update [OF inv i _ at(2)]) simp_all
  moreover have "submit_wgr lv i wgr w = Inr ((set_sched w i ?s)\<lparr>ss_free := f\<rparr>)"
    using at(1) p f(1) act by (simp add: submit_wgr_def Let_def)
  ultimately show ?thesis by (simp add: set_sched_def queues_def)
qed

text \<open>A fired timer finishes the oldest range of its scheduler.\<close>

lemma fire_scheduler_ok:
  assumes lv: "libev_ok lv" and inv: "sched_inv w" and i: "i < length (ss_schedulers w)"
    and q: "queues w ! i = x # xs" and m: "mark_as_finished (ss_store w) x = Inr (st, cbs)"
    and nx: "named (ss_store w) x" and ny: "xs \<noteq> [] \<Longrightarrow> named st (hd xs)"
  shows "\<exists>w'. fire_scheduler lv i w = Inr (w', cbs) \<and> sched_inv w' \<and>
    queues w' = (queues w)[i := xs] \<and> ss_store w' = st \<and> ss_now w' = ss_now w \<and>
    length (ss_schedulers w') = length (ss_schedulers w)"
proof -
  let ?s = "ss_schedulers w ! i"
  note at = sched_inv_at [OF inv i]
  have ql: "ca_list (s_in_queue ?s) = x # xs" using q i by (simp add: queues_def)
  define s0 where "s0 = ?s\<lparr>s_timer := lv_expire lv (ss_now w) (s_timer ?s)\<rparr>"
  have ni: "\<not> idle ?s" using ql by (simp add: idle_def)
  have na: "\<not> t_active (s_timer s0)"
    using at(2) ni by (simp add: s0_def sched_wf_def libev_okD [OF lv])
  obtain q' where q': "ca_pop_front (s_in_queue ?s) = Inr (x, q')" "ca_wf q'" "ca_list q' = xs"
      "ca_bound q' = 100"
    using ca_pop_front_ok [of "s_in_queue ?s"] at(2) ql by (auto simp: sched_wf_def)
  define s1 where "s1 = s0\<lparr>s_in_queue := q'\<rparr>"
  have at0: "sched_at (set_sched w i s0) i = Inr s0" using i by (simp add: sched_at_def set_sched_def)
  have sq0: "s_in_queue s0 = s_in_queue ?s" and id0: "s_id s0 = s_id ?s" by (simp_all add: s0_def)
  have fire: "fire_scheduler lv i w = on_timer lv i (set_sched w i s0)"
    using at(1) by (simp add: fire_scheduler_def s0_def)
  have st: "ss_store (set_sched w i s0) = ss_store w" "ss_free (set_sched w i s0) = ss_free w"
    "ss_now (set_sched w i s0) = ss_now w" by (simp_all add: set_sched_def)
  have inv_st: "sched_inv w' \<Longrightarrow> sched_inv (w'\<lparr>ss_store := st\<rparr>)" for w' by (simp add: sched_inv_def)
  obtain nm where nm: "wgr_get_kernel_name (ss_store w) x = Inr nm" using nx by (auto simp: named_def is_ok_iff)
  show ?thesis
  proof (cases xs)
    case Nil
    have room: "length (free_ids (ss_free w)) < free_bound (ss_free w)"
    proof -
      have "s_id ?s \<notin> set (free_ids (ss_free w))" using at(3) ni by simp
      moreover have "set (free_ids (ss_free w)) \<subseteq> s_id ` set (ss_schedulers w)"
        using inv unfolding sched_inv_def by blast
      ultimately have "set (free_ids (ss_free w)) \<subseteq> s_id ` set (ss_schedulers w) - {s_id ?s}"
        by blast
      then have "card (set (free_ids (ss_free w))) \<le> card (s_id ` set (ss_schedulers w) - {s_id ?s})"
        by (intro card_mono) auto
      also have "\<dots> < card (s_id ` set (ss_schedulers w))"
        using i by (intro psubset_card_mono) auto
      also have "\<dots> \<le> length (ss_schedulers w)"
        by (metis card_length length_map set_map)
      also have "\<dots> \<le> free_bound (ss_free w)" using inv unfolding sched_inv_def by blast
      finally have "card (set (free_ids (ss_free w))) < free_bound (ss_free w)" .
      moreover have "card (set (free_ids (ss_free w))) = length (free_ids (ss_free w))"
        using sched_inv_free [OF inv] unfolding free_wf_def by (intro distinct_card) blast
      ultimately show ?thesis by simp
    qed
    have nin: "s_id ?s \<notin> set (free_ids (ss_free w))" using at(3) ni by simp
    have small: "free_bound (ss_free w) < 2 ^ 31" using inv unfolding sched_inv_def by blast
    obtain f where f: "add_free_scheduler lv (ss_now w) (ss_free w) (s_id ?s) = Inr f" "free_wf f"
        "free_bound f = free_bound (ss_free w)" "free_ids f = free_ids (ss_free w) @ [s_id ?s]"
      using add_free_scheduler_ok [OF lv sched_inv_free [OF inv] room nin small] by blast
    let ?s' = "s1\<lparr>s_end_time := 0\<rparr>"
    have il: "idle ?s'" using q' Nil by (simp add: idle_def s1_def)
    have wf': "sched_wf ?s'" using q' na il by (simp add: sched_wf_def s1_def)
    have sid': "s_id ?s' = s_id ?s" by (simp add: s1_def id0)
    have ids: "set (free_ids f) = (if idle ?s' then insert (s_id ?s') (set (free_ids (ss_free w)))
      else set (free_ids (ss_free w)) - {s_id ?s'})"
      unfolding if_P [OF il] sid' f(4) by simp
    have inv': "sched_inv ((set_sched w i ?s')\<lparr>ss_free := f\<rparr>)"
      by (rule sched_inv_update [OF inv i sid' wf' f(2,3) ids])
    have "on_timer lv i (set_sched w i s0) =
      Inr ((set_sched w i ?s')\<lparr>ss_free := f\<rparr>\<lparr>ss_store := st\<rparr>, cbs)"
      using q' Nil f(1) m nm ca_empty_iff [of q']
      by (simp add: on_timer_def at0 sq0 st s1_def id0 Let_def) (simp add: set_sched_def)
    then show ?thesis using inv_st [OF inv'] q' Nil
      by (simp add: fire set_sched_def queues_def map_update s1_def)
  next
    case (Cons y ys)
    obtain nm' where ny': "wgr_get_kernel_name st y = Inr nm'" using ny Cons by (auto simp: named_def is_ok_iff)
    have g: "ca_get q' 0 = Inr y"
      using ca_get_ok [OF q'(2), of 0] q'(3) Cons by simp
    let ?s' = "s1\<lparr>s_end_time := ss_now w + cost_seconds y,
      s_timer := start_timer lv (ss_now w) (s_timer s1) (cost_seconds y) 0\<rparr>"
    have il: "\<not> idle ?s'" using q' Cons by (simp add: idle_def s1_def)
    have wf': "sched_wf ?s'" using q' il lv
      by (simp add: sched_wf_def s1_def start_timer_active start_timer_repeat)
    have nin: "s_id ?s \<notin> set (free_ids (ss_free w))" using at(3) ni by simp
    have sid': "s_id ?s' = s_id ?s" by (simp add: s1_def id0)
    have ids: "set (free_ids (ss_free w)) =
      (if idle ?s' then insert (s_id ?s') (set (free_ids (ss_free w)))
       else set (free_ids (ss_free w)) - {s_id ?s'})"
      unfolding if_not_P [OF il] sid' using nin by blast
    have inv': "sched_inv ((set_sched w i ?s')\<lparr>ss_free := ss_free w\<rparr>)"
      by (rule sched_inv_update [OF inv i sid' wf' sched_inv_free [OF inv] refl ids])
    have "on_timer lv i (set_sched w i s0) =
      Inr ((set_sched w i ?s')\<lparr>ss_free := ss_free w\<rparr>\<lparr>ss_store := st\<rparr>, cbs)"
      using q' Cons g m nm ny' ca_empty_iff [of q']
      by (simp add: on_timer_def at0 sq0 st s1_def id0 Let_def) (simp add: set_sched_def)
    then show ?thesis using inv_st [OF inv'] q' Cons
      by (simp add: fire set_sched_def queues_def map_update s1_def)
  qed
qed

section \<open>Launches and the ranges queued for them\<close>

text \<open>
  \<open>refs_ok P h f\<close>: every holder \<open>p\<close> of a reference \<open>f p = Some x\<close> points to an object that
  is there, satisfies \<open>P\<close> and counts at least as many references as there are holders.
\<close>

definition refs_ok ::
  "('a ref_counter_scheme \<Rightarrow> bool) \<Rightarrow> ('a ref_counter_scheme) heap \<Rightarrow> (ptr \<rightharpoonup> ptr) \<Rightarrow> bool" where
  "refs_ok P h f \<longleftrightarrow> finite (dom f) \<and>
     (\<forall>p x. f p = Some x \<longrightarrow>
       (\<exists>r. h x = Some r \<and> P r \<and> card {q. f q = Some x} \<le> unat (m_counter r)))"

lemma ref_cnt_down_cases:
  assumes "m_counter r \<noteq> 0"
  shows "ref_cnt_down r = (if m_counter r = 1 then None else Some (r\<lparr>m_counter := m_counter r - 1\<rparr>))"
  using assms ref_cnt_down_one ref_cnt_down_more by auto

lemma refs_ok_release:
  assumes ok: "refs_ok P h f" and p: "f p = Some x" and r: "h x = Some r"
    and r': "m_counter r' = m_counter r" "P r'" and P: "\<And>r c. P r \<Longrightarrow> P (r\<lparr>m_counter := c\<rparr>)"
  shows "refs_ok P (h(x := ref_cnt_down r')) (f(p := None))"
proof -
  let ?H = "\<lambda>x. {q. f q = Some x}"
  have fin: "finite (?H y)" for y
    by (rule finite_subset [of _ "dom f"]) (use ok in \<open>auto simp: refs_ok_def\<close>)
  have mem: "p \<in> ?H x" using p by simp
  have le: "card (?H x) \<le> unat (m_counter r)" using ok p r by (fastforce simp: refs_ok_def)
  have pos: "0 < card (?H x)" using mem fin by (metis card_gt_0_iff empty_iff)
  have nz: "m_counter r' \<noteq> 0" using le pos r'(1) by auto
  have H': "{q. (f(p := None)) q = Some y} = ?H y - {p}" for y by auto
  have c': "card (?H x - {p}) = card (?H x) - 1" using mem fin by simp
  have "\<exists>r2. (h(x := ref_cnt_down r')) y = Some r2 \<and> P r2 \<and>
      card {q. (f(p := None)) q = Some y} \<le> unat (m_counter r2)"
    if h: "(f(p := None)) q = Some y" for q y
  proof -
    have fq: "f q = Some y" "q \<noteq> p" using h by (auto split: if_splits)
    show ?thesis
    proof (cases "y = x")
      case False
      then obtain r2 where "h y = Some r2" "P r2" "card (?H y) \<le> unat (m_counter r2)"
        using ok fq by (fastforce simp: refs_ok_def)
      moreover have "card (?H y - {p}) \<le> card (?H y)" using fin by (intro card_mono) auto
      ultimately show ?thesis using False unfolding H' by fastforce
    next
      case True
      then have "q \<in> ?H x - {p}" using fq by simp
      then have "0 < card (?H x - {p})" using fin by (metis card_gt_0_iff empty_iff finite_Diff)
      then have "1 < unat (m_counter r)" using c' le by simp
      then have n1: "m_counter r' \<noteq> 1" using r'(1) by auto
      have "unat (m_counter r' - 1) = unat (m_counter r) - 1" using nz r'(1) by (simp add: unat_dec)
      then show ?thesis using True n1 nz r'(2) P le c' unfolding H'
        by (simp add: ref_cnt_down_cases)
    qed
  qed
  moreover have "finite (dom (f(p := None)))" using ok by (simp add: refs_ok_def)
  ultimately show ?thesis unfolding refs_ok_def by blast
qed

definition pending :: "sched_state \<Rightarrow> ptr \<Rightarrow> nat" where
  "pending w p = length (filter (\<lambda>x. w_parent x = Some p) (concat (queues w)))"

definition kernels_held :: "nd_store \<Rightarrow> ptr \<rightharpoonup> ptr" where
  "kernels_held st p = map_option n_kernel (ns_ndranges st p)"

definition events_held :: "nd_store \<Rightarrow> ptr \<rightharpoonup> ptr" where
  "events_held st p = map_option n_event (ns_ndranges st p)"

text \<open>The kernel's program has not been deleted. A kernel holds no reference to it.\<close>

definition has_program :: "objs \<Rightarrow> cl_kernel \<Rightarrow> bool" where
  "has_program s k \<longleftrightarrow> (\<exists>pp. k_program k = Some pp \<and> o_programs s pp \<noteq> None)"

lemma has_program_simps [simp]:
  "has_program s (k\<lparr>m_counter := c\<rparr>) = has_program s k" "has_program (completed_objs s kp k' ep ev) k = has_program s k"
  by (simp_all add: has_program_def completed_objs_def)

text \<open>
  Every queued range belongs to a live launch; a launch counts as many ranges in the wild as
  are queued for it; its kernel, the kernel's program and its event are there, and its event has a
  callback.
\<close>

definition launches_inv :: "sched_state \<Rightarrow> bool" where
  "launches_inv w \<longleftrightarrow>
     (\<forall>x\<in>set (concat (queues w)). \<exists>p. w_parent x = Some p \<and> ns_ndranges (ss_store w) p \<noteq> None) \<and>
     (\<forall>p nd. ns_ndranges (ss_store w) p = Some nd \<longrightarrow>
        n_wgrs_in_the_wild nd = of_nat (pending w p) \<and> pending w p < 2 ^ 32) \<and>
     refs_ok (has_program (ns_objs (ss_store w))) (o_kernels (ns_objs (ss_store w))) (kernels_held (ss_store w)) \<and>
     refs_ok (\<lambda>e. m_cb e \<noteq> None) (o_events (ns_objs (ss_store w))) (events_held (ss_store w))"

text \<open>So the log messages can name every queued range.\<close>

lemma launch_named:
  assumes "w_parent x = Some p" and "ns_ndranges st p \<noteq> None"
    and "refs_ok (has_program (ns_objs st)) (o_kernels (ns_objs st)) (kernels_held st)"
  shows "named st x"
proof -
  obtain nd where nd: "ns_ndranges st p = Some nd" using assms(2) by blast
  then have "kernels_held st p = Some (n_kernel nd)" by (simp add: kernels_held_def)
  then obtain k where "o_kernels (ns_objs st) (n_kernel nd) = Some k" "has_program (ns_objs st) k"
    using assms(3) by (auto simp: refs_ok_def)
  then show ?thesis using assms(1) nd
    by (auto simp: named_def wgr_get_kernel_name_def nd_get_kernel_name_def has_program_def)
qed

lemma launches_inv_named:
  "launches_inv w \<Longrightarrow> x \<in> set (concat (queues w)) \<Longrightarrow> named (ss_store w) x"
  unfolding launches_inv_def using launch_named by blast

lemma concat_update_remove:
  assumes "i < length qs" and "qs ! i = x # xs"
  shows "length (filter Q (concat (qs[i := xs]))) + (if Q x then 1 else 0) = length (filter Q (concat qs))"
    and "set (concat (qs[i := xs])) \<subseteq> set (concat qs)" and "x \<in> set (concat qs)"
proof -
  have d: "qs = take i qs @ (x # xs) # drop (Suc i) qs"
    using assms id_take_nth_drop by metis
  have u: "qs[i := xs] = take i qs @ xs # drop (Suc i) qs"
    using assms(1) by (simp add: upd_conv_take_nth_drop)
  show "length (filter Q (concat (qs[i := xs]))) + (if Q x then 1 else 0) = length (filter Q (concat qs))"
    unfolding u by (subst (3) d) simp
  show "set (concat (qs[i := xs])) \<subseteq> set (concat qs)" unfolding u by (subst (3) d) auto
  show "x \<in> set (concat qs)" by (subst d) auto
qed

text \<open>What finishing a range does to the launch it belongs to.\<close>

lemma mark_as_finished_ok:
  assumes inv: "launches_inv w" and x: "w_parent x = Some p"
    and nd: "ns_ndranges (ss_store w) p = Some nd" and pos: "0 < pending w p"
  shows "\<exists>st cbs. mark_as_finished (ss_store w) x = Inr (st, cbs) \<and>
    (pending w p = 1 \<longrightarrow> ns_ndranges st = (ns_ndranges (ss_store w))(p := None) \<and> length cbs = 1) \<and>
    (pending w p \<noteq> 1 \<longrightarrow> cbs = [] \<and> ns_ndranges st = (ns_ndranges (ss_store w))
       (p \<mapsto> nd\<lparr>n_wgrs_in_the_wild := n_wgrs_in_the_wild nd - 1\<rparr>)) \<and>
    refs_ok (has_program (ns_objs st)) (o_kernels (ns_objs st)) (kernels_held st) \<and>
    refs_ok (\<lambda>e. m_cb e \<noteq> None) (o_events (ns_objs st)) (events_held st)"
proof -
  let ?st = "ss_store w"
  have wild: "n_wgrs_in_the_wild nd = of_nat (pending w p)" "pending w p < 2 ^ 32"
    and rk: "refs_ok (has_program (ns_objs ?st)) (o_kernels (ns_objs ?st)) (kernels_held ?st)"
    and re: "refs_ok (\<lambda>e. m_cb e \<noteq> None) (o_events (ns_objs ?st)) (events_held ?st)"
    using inv nd by (auto simp: launches_inv_def)
  have kp: "kernels_held ?st p = Some (n_kernel nd)" and ep: "events_held ?st p = Some (n_event nd)"
    using nd by (simp_all add: kernels_held_def events_held_def)
  obtain k where k: "o_kernels (ns_objs ?st) (n_kernel nd) = Some k" and kprog: "has_program (ns_objs ?st) k"
    using rk kp by (auto simp: refs_ok_def)
  obtain ev cb where ev: "o_events (ns_objs ?st) (n_event nd) = Some ev" "m_cb ev = Some cb"
    using re ep by (fastforce simp: refs_ok_def)
  have u: "unat (of_nat (pending w p) :: u32) = pending w p"
    by (rule unat_of_nat_small) (use wild(2) in simp)
  show ?thesis
  proof (cases "pending w p = 1")
    case True
    then have one: "n_wgrs_in_the_wild nd = 1" using wild by simp
    let ?st' = "?st\<lparr>ns_objs := completed_objs (ns_objs ?st) (n_kernel nd) k (n_event nd) ev,
           ns_ndranges := (ns_ndranges ?st)(p := None)\<rparr>"
    have m: "mark_as_finished ?st x = Inr (?st', [cb])"
      by (rule mark_as_finished_last [OF x nd one k ev])
    have kh: "kernels_held ?st' = (kernels_held ?st)(p := None)"
      and eh: "events_held ?st' = (events_held ?st)(p := None)"
      by (auto simp: kernels_held_def events_held_def)
    have "refs_ok (has_program (ns_objs ?st')) (o_kernels (ns_objs ?st')) (kernels_held ?st')"
    proof -
      have p: "has_program (ns_objs ?st') = has_program (ns_objs ?st)" by (simp add: fun_eq_iff)
      show ?thesis unfolding kh p using refs_ok_release [OF rk kp k refl kprog] by (simp add: completed_objs_def)
    qed
    moreover have "refs_ok (\<lambda>e. m_cb e \<noteq> None) (o_events (ns_objs ?st')) (events_held ?st')"
      unfolding eh using refs_ok_release [OF re ep ev(1), of "ev\<lparr>m_event_state := CL_COMPLETE\<rparr>"] ev(2)
      by (simp add: completed_objs_def)
    ultimately show ?thesis using m True by fastforce
  next
    case False
    then have "n_wgrs_in_the_wild nd \<noteq> 1" using u wild(1) by (metis unat_1)
    then have m: "mark_as_finished ?st x = Inr (?st\<lparr>ns_ndranges := (ns_ndranges ?st)
        (p \<mapsto> nd\<lparr>n_wgrs_in_the_wild := n_wgrs_in_the_wild nd - 1\<rparr>)\<rparr>, [])"
      by (rule mark_as_finished_not_last [OF x nd])
    have "kernels_held (?st\<lparr>ns_ndranges := (ns_ndranges ?st)
        (p \<mapsto> nd\<lparr>n_wgrs_in_the_wild := n_wgrs_in_the_wild nd - 1\<rparr>)\<rparr>) = kernels_held ?st"
      and "events_held (?st\<lparr>ns_ndranges := (ns_ndranges ?st)
        (p \<mapsto> nd\<lparr>n_wgrs_in_the_wild := n_wgrs_in_the_wild nd - 1\<rparr>)\<rparr>) = events_held ?st"
      using nd by (auto simp: kernels_held_def events_held_def)
    then show ?thesis using m rk re False by simp
  qed
qed

lemma fire_keeps_launches:
  assumes lv: "libev_ok lv" and inv: "sched_inv w" and linv: "launches_inv w"
    and i: "i < length (ss_schedulers w)" and q: "queues w ! i = x # xs"
  shows "\<exists>w' cbs p. fire_scheduler lv i w = Inr (w', cbs) \<and> w_parent x = Some p \<and>
    sched_inv w' \<and> launches_inv w' \<and> queues w' = (queues w)[i := xs] \<and>
    (\<forall>r. pending w' r + (if r = p then 1 else 0) = pending w r) \<and>
    length cbs = (if pending w p = 1 then 1 else 0) \<and>
    (ns_ndranges (ss_store w') p = None \<longleftrightarrow> pending w p = 1) \<and>
    (\<forall>r. r \<noteq> p \<longrightarrow> ns_ndranges (ss_store w') r = ns_ndranges (ss_store w) r) \<and>
    length (ss_schedulers w') = length (ss_schedulers w)"
proof -
  have iq: "i < length (queues w)" using i by (simp add: queues_def)
  note rem = concat_update_remove [OF iq q]
  obtain p nd where p: "w_parent x = Some p" and nd: "ns_ndranges (ss_store w) p = Some nd"
    using linv rem(3) by (fastforce simp: launches_inv_def)
  have "length (filter (\<lambda>x. w_parent x = Some p) (concat ((queues w)[i := xs]))) + 1 = pending w p"
    using rem(1) [of "\<lambda>x. w_parent x = Some p"] p by (simp add: pending_def)
  then have pos: "0 < pending w p" by linarith
  have small: "pending w p < 2 ^ 32" and wild: "n_wgrs_in_the_wild nd = of_nat (pending w p)"
    using linv nd by (simp_all add: launches_inv_def)
  obtain st cbs where m: "mark_as_finished (ss_store w) x = Inr (st, cbs)"
    and last: "pending w p = 1 \<Longrightarrow> ns_ndranges st = (ns_ndranges (ss_store w))(p := None) \<and> length cbs = 1"
    and more: "pending w p \<noteq> 1 \<Longrightarrow> cbs = [] \<and> ns_ndranges st = (ns_ndranges (ss_store w))
       (p \<mapsto> nd\<lparr>n_wgrs_in_the_wild := n_wgrs_in_the_wild nd - 1\<rparr>)"
    and refs: "refs_ok (has_program (ns_objs st)) (o_kernels (ns_objs st)) (kernels_held st)"
      "refs_ok (\<lambda>e. m_cb e \<noteq> None) (o_events (ns_objs st)) (events_held st)"
    using mark_as_finished_ok [OF linv p nd pos] by blast
  let ?qs = "(queues w)[i := xs]"
  have pend0: "length (filter (\<lambda>x. w_parent x = Some r) (concat ?qs)) + (if r = p then 1 else 0) = pending w r" for r
    using rem(1) [of "\<lambda>x. w_parent x = Some r"] p by (simp add: pending_def eq_commute)
  have q1: "\<exists>r. w_parent y = Some r \<and> ns_ndranges st r \<noteq> None" if y: "y \<in> set (concat ?qs)" for y
  proof -
    have "y \<in> set (concat (queues w))" using y rem(2) by auto
    then obtain r where r: "w_parent y = Some r" "ns_ndranges (ss_store w) r \<noteq> None"
      using linv by (fastforce simp: launches_inv_def)
    have "y \<in> set (filter (\<lambda>x. w_parent x = Some r) (concat ?qs))" using y r(1) by simp
    then have "0 < length (filter (\<lambda>x. w_parent x = Some r) (concat ?qs))" by (rule length_pos_if_in_set)
    then have "\<not> (r = p \<and> pending w p = 1)" using pend0 [of p] by auto
    then show ?thesis using r last more by (cases "pending w p = 1") auto
  qed
  have nx: "named (ss_store w) x" by (rule launches_inv_named [OF linv rem(3)])
  have ny: "named st (hd xs)" if ne: "xs \<noteq> []"
  proof -
    have "?qs ! i = xs" "i < length ?qs" using iq by simp_all
    then have "xs \<in> set ?qs" by (metis nth_mem)
    then have "hd xs \<in> set (concat ?qs)" using ne by (metis UN_I hd_in_set set_concat)
    then show ?thesis using q1 launch_named refs(1) by blast
  qed
  obtain w' where w': "fire_scheduler lv i w = Inr (w', cbs)" "sched_inv w'"
      "queues w' = ?qs" "ss_store w' = st"
      "length (ss_schedulers w') = length (ss_schedulers w)"
    using fire_scheduler_ok [OF lv inv i q m nx ny] by blast
  have pend: "pending w' r + (if r = p then 1 else 0) = pending w r" for r
    using pend0 [of r] by (simp add: pending_def w'(3))
  have q2: "n_wgrs_in_the_wild nd' = of_nat (pending w' r) \<and> pending w' r < 2 ^ 32"
    if h: "ns_ndranges st r = Some nd'" for r nd'
  proof (cases "r = p")
    case True
    then have n1: "pending w p \<noteq> 1" using h last by auto
    then have "nd' = nd\<lparr>n_wgrs_in_the_wild := n_wgrs_in_the_wild nd - 1\<rparr>" using h more True by simp
    moreover have "pending w' p = pending w p - 1" using pend [of p] by simp
    ultimately show ?thesis using wild small pos True by (simp add: of_nat_diff)
  next
    case False
    then have "ns_ndranges (ss_store w) r = Some nd'" using h last more by (cases "pending w p = 1") auto
    then show ?thesis using linv pend [of r] False by (auto simp: launches_inv_def)
  qed
  have "launches_inv w'" unfolding launches_inv_def w'(3,4) using q1 q2 refs by blast
  moreover have "ns_ndranges st p = None \<longleftrightarrow> pending w p = 1" using last more by (cases "pending w p = 1") auto
  moreover have "length cbs = (if pending w p = 1 then 1 else 0)" using last more by simp
  moreover have "ns_ndranges st r = ns_ndranges (ss_store w) r" if "r \<noteq> p" for r
    using last more that by (cases "pending w p = 1") auto
  ultimately show ?thesis using w' p pend by auto
qed

section \<open>Runs of the schedulers\<close>

text \<open>
  The loop's steps: work is submitted, an active timer fires, time passes, and the rest of the
  program changes objects and launches.
\<close>

inductive sched_step :: "libev \<Rightarrow> sched_state \<Rightarrow> sched_state \<Rightarrow> bool" for lv where
  submit: "i < length (ss_schedulers w) \<Longrightarrow> submit_wgr lv i wgr w = Inr w' \<Longrightarrow> sched_step lv w w'"
| fire: "i < length (ss_schedulers w) \<Longrightarrow> t_active (s_timer (ss_schedulers w ! i)) \<Longrightarrow>
    fire_scheduler lv i w = Inr (w', cbs) \<Longrightarrow> sched_step lv w w'"
| tick: "sched_step lv w (w\<lparr>ss_now := now\<rparr>)"
| others: "sched_step lv w (w\<lparr>ss_store := st\<rparr>)"

inductive_cases sched_stepE: "sched_step lv w w'"

lemma queue_bounded:
  "sched_inv w \<Longrightarrow> i < length (ss_schedulers w) \<Longrightarrow> length (queues w ! i) \<le> 100"
  using ca_list_length [of "s_in_queue (ss_schedulers w ! i)"]
  by (auto simp: sched_inv_def sched_wf_def queues_def)

lemma fire_marks:
  assumes "fire_scheduler lv i w = Inr (w', cbs)" and "sched_inv w" and "i < length (ss_schedulers w)"
    and "queues w ! i = x # xs"
  shows "\<exists>st cbs. mark_as_finished (ss_store w) x = Inr (st, cbs) \<and> named (ss_store w) x \<and>
    (xs \<noteq> [] \<longrightarrow> named st (hd xs))"
proof -
  let ?s = "ss_schedulers w ! i"
  let ?w0 = "set_sched w i (?s\<lparr>s_timer := lv_expire lv (ss_now w) (s_timer ?s)\<rparr>)"
  have ql: "ca_list (s_in_queue ?s) = x # xs" using assms(3,4) by (simp add: queues_def)
  obtain q' where q': "ca_pop_front (s_in_queue ?s) = Inr (x, q')" "ca_wf q'" "ca_list q' = xs"
    using ca_pop_front_ok [of "s_in_queue ?s"] sched_inv_at(2) [OF assms(2,3)] ql
    by (auto simp: sched_wf_def)
  have g: "ca_get q' 0 = Inr (hd xs)" if "xs \<noteq> []"
    using ca_get_ok [OF q'(2), of 0] q'(3) that by (simp add: hd_conv_nth)
  have t: "on_timer lv i ?w0 = Inr (w', cbs)"
    using assms(1) sched_inv_at(1) [OF assms(2,3)] by (simp add: fire_scheduler_def)
  have at: "sched_at ?w0 i = Inr (?s\<lparr>s_timer := lv_expire lv (ss_now w) (s_timer ?s)\<rparr>)"
    using assms(3) by (simp add: sched_at_def set_sched_def)
  have "ss_store ?w0 = ss_store w" by (simp add: set_sched_def)
  then have "\<exists>st c nm. wgr_get_kernel_name (ss_store w) x = Inr nm \<and> mark_as_finished (ss_store w) x = Inr (st, c) \<and>
      (\<not> ca_empty q' \<longrightarrow> (\<exists>y nm'. ca_get q' 0 = Inr y \<and> wgr_get_kernel_name st y = Inr nm'))"
    using t at q'(1) by (cases "ca_empty q'") (auto simp: on_timer_def bindr_Inr_iff Let_def)
  then show ?thesis using g q'(3) by (auto simp: named_def is_ok_iff ca_empty_iff)
qed

text \<open>A range that was submitted to an idle scheduler was named.\<close>

lemma submit_named:
  assumes "submit_wgr lv i x w = Inr w'" and "sched_inv w" and "i < length (ss_schedulers w)" and "queues w ! i = []"
  shows "named (ss_store w) x"
proof -
  let ?s = "ss_schedulers w ! i"
  note at = sched_inv_at [OF assms(2,3)]
  have ql: "ca_list (s_in_queue ?s) = []" using assms(3,4) by (simp add: queues_def)
  then have na: "\<not> is_active (s_timer ?s)" using at(2) by (simp add: sched_wf_def idle_def is_active_def)
  obtain q' where q': "ca_push_back (s_in_queue ?s) x False = Inr (SUCCESS, q')" "ca_list q' = [x]"
    using ca_push_back_room [of "s_in_queue ?s" x False] at(2) ql by (auto simp: sched_wf_def)
  have "ca_occupancy q' < 2" by (simp add: word_less_nat_alt ca_occupancy_length q')
  then show ?thesis using assms(1) at(1) q'(1) na
    by (auto simp: submit_wgr_def bindr_Inr_iff named_def is_ok_iff)
qed

lemma sched_step_inv:
  assumes "libev_ok lv" and "sched_step lv w w'" and "sched_inv w"
  shows "sched_inv w'"
  using assms(2)
proof cases
  case (submit i wgr)
  then show ?thesis
    using submit_wgr_ok [OF assms(1,3), of i wgr] submit_wgr_full [OF assms(1,3), of i wgr]
      queue_bounded [OF assms(3), of i] submit_named [OF submit(2) assms(3) submit(1)] by fastforce
next
  case (fire i cbs)
  then have "queues w ! i \<noteq> []"
    using sched_inv_at(2) [OF assms(3)] by (auto simp: sched_wf_def idle_def queues_def)
  then obtain x xs where q: "queues w ! i = x # xs" by (cases "queues w ! i") auto
  then show ?thesis
    using fire fire_marks [OF fire(3) assms(3) fire(1) q] fire_scheduler_ok [OF assms(1,3) fire(1) q]
    by fastforce
next
  case tick
  then show ?thesis using assms(3) by (simp add: sched_inv_def)
next
  case others
  then show ?thesis using assms(3) by (simp add: sched_inv_def)
qed

lemma sched_steps_inv:
  "(sched_step lv)\<^sup>*\<^sup>* w w' \<Longrightarrow> libev_ok lv \<Longrightarrow> sched_inv w \<Longrightarrow> sched_inv w'"
  by (induction rule: rtranclp_induct) (auto intro: sched_step_inv)

section \<open>Start-up\<close>

text \<open>
  The constructor of the scheduler configuration makes a scheduler for every region of the
  configuration: board, FPGA and region number. \<open>jr\<close> and \<open>je\<close> are what the constructor leaves
  in the two fields it does not initialise.
\<close>

(* src/cpp/sched_config_common.cc:35-46 SchedConfig::SchedConfig (loop) *)
fun new_schedulers ::
  "(nat \<Rightarrow> work_group_range) \<Rightarrow> bool \<Rightarrow> rat \<Rightarrow> rat \<Rightarrow> (u64 \<times> u32 \<times> u32) list \<Rightarrow> scheduler list res" where
  "new_schedulers junk jr je poll [] = Inr []"
| "new_schedulers junk jr je poll ((board, fpga, pr) # prs) =
     bindr (new_Scheduler junk board fpga pr poll jr je) (\<lambda>s.
     bindr (new_schedulers junk jr je poll prs) (\<lambda>ss. Inr (s # ss)))"

(* src/cpp/centrum.cc:42-52 Global::Global (loop) *)
definition register_schedulers ::
  "libev \<Rightarrow> rat \<Rightarrow> scheduler list \<Rightarrow> free_sched_mgr \<Rightarrow> (scheduler list \<times> free_sched_mgr) res" where
  "register_schedulers lv now ss m =
     bindr (foldr_res (\<lambda>s m. add_free_scheduler lv now m (s_id s)) ss m) (\<lambda>m'.
       Inr (map (\<lambda>s. s\<lparr>s_mock_would_need_reconf := False\<rparr>) ss, m'))"

definition sched_startup ::
  "libev \<Rightarrow> rat \<Rightarrow> (nat \<Rightarrow> work_group_range) \<Rightarrow> (nat \<Rightarrow> u32) \<Rightarrow> bool \<Rightarrow> rat \<Rightarrow> rat \<Rightarrow>
     (u64 \<times> u32 \<times> u32) list \<Rightarrow> nd_store \<Rightarrow> sched_state res" where
  "sched_startup lv now junk fjunk jr je poll prs store =
     bindr (new_schedulers junk jr je poll prs) (\<lambda>ss.
     bindr (new_FreeSchedulersManager fjunk (of_nat (length ss))) (\<lambda>m.
     bindr (register_schedulers lv now ss (register_on_free_schedulers_cb m)) (\<lambda>(ss', m').
       Inr \<lparr>ss_store = store, ss_schedulers = ss', ss_free = m', ss_now = now\<rparr>)))"

lemma new_Scheduler_ok:
  assumes "board \<le> 3"
  shows "\<exists>s. new_Scheduler junk board fpga pr poll jr je = Inr s \<and> sched_wf s \<and> idle s \<and>
    s_id s = scheduler_id board fpga pr \<and> s_is_local s = (board = 0 \<and> fpga = 1) \<and> s_end_time s = je"
proof -
  obtain q where q: "ca_new junk 100 = Inr q"
    using ca_new_small [of 100 junk] by (auto simp: max_new_def)
  then show ?thesis
    using ca_new_ok [OF q] assms
    by (simp add: new_Scheduler_def PR_Slot_def sched_wf_def idle_def new_EvTimerBase_def)
qed

lemma new_schedulers_ok:
  assumes "\<forall>(b, f, p)\<in>set prs. b \<le> 3"
  shows "\<exists>ss. new_schedulers junk jr je poll prs = Inr ss \<and> (\<forall>s\<in>set ss. sched_wf s \<and> idle s) \<and>
    map s_id ss = map (\<lambda>(b, f, p). scheduler_id b f p) prs \<and>
    map s_is_local ss = map (\<lambda>(b, f, p). b = 0 \<and> f = 1) prs"
  using assms
proof (induction prs)
  case Nil
  then show ?case by simp
next
  case (Cons x prs)
  obtain b f p where x: "x = (b, f, p)" by (cases x)
  obtain s where "new_Scheduler junk b f p poll jr je = Inr s" "sched_wf s" "idle s"
      "s_id s = scheduler_id b f p" "s_is_local s = (b = 0 \<and> f = 1)"
    using new_Scheduler_ok [of b junk f p poll jr je] Cons.prems x by auto
  then show ?case using Cons x by fastforce
qed

lemma add_all_free:
  assumes "libev_ok lv" and "free_wf m" and "length (free_ids m) + length ss \<le> free_bound m"
    and "free_bound m < 2 ^ 31" and "distinct (free_ids m @ map s_id ss)"
  shows "\<exists>m'. foldr_res (\<lambda>s m. add_free_scheduler lv now m (s_id s)) ss m = Inr m' \<and> free_wf m' \<and>
    free_bound m' = free_bound m \<and> free_ids m' = free_ids m @ map s_id ss"
  using assms(2-5)
proof (induction ss arbitrary: m)
  case Nil
  then show ?case by simp
next
  case (Cons s ss)
  have "length (free_ids m) < free_bound m" "s_id s \<notin> set (free_ids m)" using Cons.prems by auto
  then obtain m1 where m1: "add_free_scheduler lv now m (s_id s) = Inr m1" "free_wf m1"
      "free_bound m1 = free_bound m" "free_ids m1 = free_ids m @ [s_id s]"
    using add_free_scheduler_ok [OF assms(1) Cons.prems(1) _ _ Cons.prems(3)] by blast
  then show ?case using Cons.IH [of m1] Cons.prems by auto
qed

lemma sched_startup_ok:
  assumes lv: "libev_ok lv" and b: "\<forall>(b, f, p)\<in>set prs. b \<le> 3" and n: "length prs < 2 ^ 31"
    and d: "distinct (map (\<lambda>(b, f, p). scheduler_id b f p) prs)"
  shows "\<exists>w. sched_startup lv now junk fjunk jr je poll prs store = Inr w \<and> sched_inv w \<and>
    ss_store w = store \<and> queues w = map (\<lambda>_. []) prs \<and>
    map s_id (ss_schedulers w) = map (\<lambda>(b, f, p). scheduler_id b f p) prs \<and>
    free_ids (ss_free w) = map (\<lambda>(b, f, p). scheduler_id b f p) prs"
proof -
  obtain ss where ss: "new_schedulers junk jr je poll prs = Inr ss" "\<forall>s\<in>set ss. sched_wf s \<and> idle s"
      "map s_id ss = map (\<lambda>(b, f, p). scheduler_id b f p) prs"
    using new_schedulers_ok [OF b] by blast
  have len: "length ss = length prs" using ss(3) by (metis length_map)
  have u: "unat (of_nat (length ss) :: u64) = length ss"
    by (rule unat_of_nat_small) (use n len in simp)
  obtain c where c: "ca_new fjunk (of_nat (length ss)) = Inr c"
    using ca_new_small [of "of_nat (length ss)" fjunk] n len u by (auto simp: max_new_def)
  note cok = ca_new_ok [OF c]
  define m where "m = \<lparr>f_free_schedulers = c, f_free_sched_timer = new_EvTimerBase, f_cb = True\<rparr>"
  have mwf: "free_wf m" and mids: "free_ids m = []" and mb: "free_bound m = length ss"
    using cok u by (simp_all add: m_def free_wf_def free_ids_def new_EvTimerBase_def)
  obtain m' where m': "foldr_res (\<lambda>s m. add_free_scheduler lv now m (s_id s)) ss m = Inr m'"
      "free_wf m'" "free_bound m' = length ss" "free_ids m' = map s_id ss"
    using add_all_free [OF lv mwf, of ss now] mids mb n len d ss(3) by auto
  let ?ss' = "map (\<lambda>s. s\<lparr>s_mock_would_need_reconf := False\<rparr>) ss"
  let ?w = "\<lparr>ss_store = store, ss_schedulers = ?ss', ss_free = m', ss_now = now\<rparr>"
  have ids': "map s_id ?ss' = map s_id ss" by simp
  have w: "sched_startup lv now junk fjunk jr je poll prs store = Inr ?w"
    using ss(1) c m'(1)
    by (simp add: sched_startup_def new_FreeSchedulersManager_def register_on_free_schedulers_cb_def
        register_schedulers_def m_def)
  have "\<forall>s\<in>set ?ss'. sched_wf s \<and> idle s" using ss(2) by (auto simp: sched_wf_def idle_def)
  moreover from this have "s_id ` {s \<in> set ?ss'. idle s} = set (map s_id ss)"
    using ids' by (metis (no_types, lifting) Collect_cong Collect_mem_eq list.set_map)
  ultimately have "sched_inv ?w"
    using m' d ss(3) n len by (simp add: sched_inv_def ids' del: map_map)
  moreover have "queues ?w = map (\<lambda>_. []) prs"
    using ss(2) len by (auto simp: queues_def idle_def intro!: nth_equalityI)
  moreover have "map s_id (ss_schedulers ?w) = map (\<lambda>(b, f, p). scheduler_id b f p) prs"
    using ids' ss(3) by simp
  moreover have "free_ids (ss_free ?w) = map (\<lambda>(b, f, p). scheduler_id b f p) prs"
    using m'(4) ss(3) by simp
  ultimately show ?thesis using w by auto
qed

section \<open>Draining the queues\<close>

text \<open>
  Timers that fire in the order of a list of scheduler numbers. There is no result when a timer that
  does not run is asked to fire, and none when the callback faults.
\<close>

definition timer_runs :: "sched_state \<Rightarrow> nat \<Rightarrow> bool" where
  "timer_runs w i \<longleftrightarrow> i < length (ss_schedulers w) \<and> t_active (s_timer (ss_schedulers w ! i))"

fun run_fires :: "libev \<Rightarrow> nat list \<Rightarrow> sched_state \<Rightarrow> (sched_state \<times> event_cb list) option" where
  "run_fires lv [] w = Some (w, [])"
| "run_fires lv (i # is) w =
     (if \<not> timer_runs w i then None
      else case fire_scheduler lv i w of
             Inl e \<Rightarrow> None
           | Inr (w1, c1) \<Rightarrow>
               (case run_fires lv is w1 of None \<Rightarrow> None | Some (w2, c2) \<Rightarrow> Some (w2, c1 @ c2)))"

lemma run_fires_Cons:
  "run_fires lv (i # is) w = Some (w2, cs) \<longleftrightarrow>
     timer_runs w i \<and> (\<exists>w1 c1 c2. fire_scheduler lv i w = Inr (w1, c1) \<and> run_fires lv is w1 = Some (w2, c2) \<and> cs = c1 @ c2)"
  by (auto split: sum.splits option.splits)

declare run_fires.simps(2) [simp del]

lemma timer_runs_iff:
  assumes "sched_inv w"
  shows "timer_runs w i \<longleftrightarrow> i < length (ss_schedulers w) \<and> queues w ! i \<noteq> []"
  using sched_inv_at(2) [OF assms] by (auto simp: timer_runs_def sched_wf_def idle_def queues_def)

text \<open>As long as a range waits, some timer runs.\<close>

lemma some_timer_runs:
  assumes "sched_inv w" and "concat (queues w) \<noteq> []"
  shows "\<exists>i. timer_runs w i"
proof -
  obtain q where "q \<in> set (queues w)" "q \<noteq> []" using assms(2) by auto
  then obtain i where "i < length (queues w)" "queues w ! i \<noteq> []" by (metis in_set_conv_nth)
  then show ?thesis using timer_runs_iff [OF assms(1)] by (auto simp: queues_def)
qed

definition waiting :: "sched_state \<Rightarrow> ptr set" where
  "waiting w = {p. 0 < pending w p}"

lemma finite_waiting: "finite (waiting w)"
proof -
  have "waiting w \<subseteq> (\<lambda>x. the (w_parent x)) ` set (concat (queues w))"
  proof
    fix p assume "p \<in> waiting w"
    then have "filter (\<lambda>x. w_parent x = Some p) (concat (queues w)) \<noteq> []"
      by (simp add: waiting_def pending_def)
    then obtain x where "x \<in> set (filter (\<lambda>x. w_parent x = Some p) (concat (queues w)))"
      by (meson hd_in_set)
    then show "p \<in> (\<lambda>x. the (w_parent x)) ` set (concat (queues w))"
      by (auto simp del: set_concat intro: rev_image_eqI)
  qed
  then show ?thesis by (rule finite_subset) simp
qed

lemma run_fires_drains:
  assumes lv: "libev_ok lv" and "sched_inv w" and "launches_inv w"
    and "set is \<subseteq> {..<length (ss_schedulers w)}"
    and "\<forall>i<length (ss_schedulers w). count_list is i = length (queues w ! i)"
  shows "\<exists>w' cbs. run_fires lv is w = Some (w', cbs) \<and> sched_inv w' \<and> launches_inv w' \<and>
    concat (queues w') = [] \<and> length cbs = card (waiting w) \<and>
    (\<forall>p. p \<in> waiting w \<or> ns_ndranges (ss_store w) p = None \<longrightarrow> ns_ndranges (ss_store w') p = None)"
  using assms(2-5)
proof (induction "is" arbitrary: w)
  case Nil
  have "queues w ! i = []" if "i < length (queues w)" for i
    using Nil(4) that by (simp add: queues_def)
  then have ce: "concat (queues w) = []" by (auto simp: in_set_conv_nth)
  have "waiting w = {}" unfolding waiting_def pending_def ce by simp
  then show ?case using Nil ce by simp
next
  case (Cons i "is")
  have i: "i < length (ss_schedulers w)" using Cons.prems(3) by simp
  then have "length (queues w ! i) = Suc (count_list is i)" using Cons.prems(4) by auto
  then obtain x xs where q: "queues w ! i = x # xs" by (cases "queues w ! i") auto
  obtain w1 c1 p where w1: "fire_scheduler lv i w = Inr (w1, c1)" "sched_inv w1" "launches_inv w1"
      "queues w1 = (queues w)[i := xs]" "\<forall>r. pending w1 r + (if r = p then 1 else 0) = pending w r"
      "length c1 = (if pending w p = 1 then 1 else 0)"
      "ns_ndranges (ss_store w1) p = None \<longleftrightarrow> pending w p = 1"
      "\<forall>r. r \<noteq> p \<longrightarrow> ns_ndranges (ss_store w1) r = ns_ndranges (ss_store w) r"
      "length (ss_schedulers w1) = length (ss_schedulers w)"
    using fire_keeps_launches [OF lv Cons.prems(1,2) i q] by (elim exE conjE) (rule that)
  have cnt: "count_list is j = length (queues w1 ! j)" if "j < length (ss_schedulers w1)" for j
  proof -
    have "j < length (queues w)" using that w1(9) by (simp add: queues_def)
    then show ?thesis using Cons.prems(4) that w1(4,9) q
      by (cases "j = i") auto
  qed
  obtain w2 c2 where w2: "run_fires lv is w1 = Some (w2, c2)" "sched_inv w2" "launches_inv w2"
      "concat (queues w2) = []" "length c2 = card (waiting w1)"
      "\<forall>p. p \<in> waiting w1 \<or> ns_ndranges (ss_store w1) p = None \<longrightarrow> ns_ndranges (ss_store w2) p = None"
  proof -
    have sub: "set is \<subseteq> {..<length (ss_schedulers w1)}" using Cons.prems(3) w1(9) by simp
    show ?thesis using Cons.IH [OF w1(2,3) sub] cnt that by blast
  qed
  have pp: "pending w p = Suc (pending w1 p)" using w1(5) [rule_format, of p] by simp
  have po: "pending w r = pending w1 r" if "r \<noteq> p" for r using w1(5) [rule_format, of r] that by simp
  have wt: "waiting w1 = (if pending w p = 1 then waiting w - {p} else waiting w)"
  proof (rule set_eqI)
    fix r
    show "r \<in> waiting w1 \<longleftrightarrow> r \<in> (if pending w p = 1 then waiting w - {p} else waiting w)"
      using pp po [of r] by (cases "r = p") (auto simp: waiting_def)
  qed
  have pin: "p \<in> waiting w" using pp by (simp add: waiting_def)
  have card: "length c1 + card (waiting w1) = card (waiting w)"
  proof (cases "pending w p = 1")
    case True
    then show ?thesis using wt w1(6) pin card_Suc_Diff1 [OF finite_waiting pin] by simp
  next
    case False
    then show ?thesis using wt w1(6) by simp
  qed
  have gone: "ns_ndranges (ss_store w2) r = None"
    if "r \<in> waiting w \<or> ns_ndranges (ss_store w) r = None" for r
  proof (cases "r = p")
    case True
    then show ?thesis using wt pin w1(7) w2(6) by (cases "pending w p = 1") auto
  next
    case False
    then show ?thesis using that wt w1(8) w2(6) by (cases "pending w p = 1") auto
  qed
  have "timer_runs w i" using timer_runs_iff [OF Cons.prems(1)] i q by simp
  then have "run_fires lv (i # is) w = Some (w2, c1 @ c2)" using w1(1) w2(1) by (auto simp: run_fires_Cons)
  then show ?case using w2 card gone by simp
qed

section \<open>Facts for the examples\<close>

definition demo_libev :: libev where
  "demo_libev = \<lparr>lv_start = (\<lambda>now t. t\<lparr>t_active := True\<rparr>), lv_stop = (\<lambda>now t. t\<lparr>t_active := False\<rparr>),
     lv_expire = (\<lambda>now t. if t_repeat t = 0 then t\<lparr>t_active := False\<rparr> else t)\<rparr>"

lemma demo_libev_ok: "libev_ok demo_libev"
  by (simp add: libev_ok_def demo_libev_def)

definition demo_regions :: "(u64 \<times> u32 \<times> u32) list" where
  "demo_regions = [(0, 1, 1), (0, 1, 3)]"

lemma demo_regions_ids:
  "map (\<lambda>(b, f, p). scheduler_id b f p) demo_regions = [1, 3]"
  "\<forall>(b, f, p)\<in>set demo_regions. b \<le> 3" "length demo_regions < 2 ^ 31"
  by (simp_all add: demo_regions_def scheduler_id_def)

abbreviation demo_range :: "nat \<Rightarrow> work_group_range" where
  "demo_range i \<equiv> new_WorkGroupRange 7 (of_nat i) 2 0 1 0 1"

abbreviation demo_start :: "sched_state res" where
  "demo_start \<equiv> sched_startup demo_libev 0 (\<lambda>_. empty_WorkGroupRange 0) (\<lambda>_. 0) False 0 0 demo_regions demo_store"

lemma demo_start_ok:
  "\<exists>w. demo_start = Inr w \<and> sched_inv w \<and> ss_store w = demo_store \<and> queues w = [[], []] \<and>
    map s_id (ss_schedulers w) = [1, 3] \<and> length (ss_schedulers w) = 2"
proof -
  have d: "distinct (map (\<lambda>(b, f, p). scheduler_id b f p) demo_regions)"
    by (simp add: demo_regions_ids(1))
  obtain w where w: "demo_start = Inr w" "sched_inv w" "ss_store w = demo_store"
      "queues w = map (\<lambda>_. []) demo_regions"
      "map s_id (ss_schedulers w) = map (\<lambda>(b, f, p). scheduler_id b f p) demo_regions"
    using sched_startup_ok [OF demo_libev_ok demo_regions_ids(2,3) d] by blast
  have "length (map s_id (ss_schedulers w)) = length [1, 3 :: u32]"
    by (simp only: w(5) demo_regions_ids(1))
  then have "length (ss_schedulers w) = 2" by simp
  then show ?thesis using w by (simp add: demo_regions_ids(1)) (simp add: demo_regions_def)
qed

lemma demo_named: "w_parent x = Some 7 \<Longrightarrow> named demo_store x"
  by (simp add: named_def wgr_get_kernel_name_def nd_get_kernel_name_def demo_store_def demo_objs_def demo_nd_def
      new_cl_kernel_def)

lemma demo_busy:
  "\<exists>w. sched_inv w \<and> launches_inv w \<and> queues w = [[demo_range 0], [demo_range 2]] \<and>
    length (ss_schedulers w) = 2 \<and> ss_store w = demo_store"
proof -
  obtain w0 where w0: "sched_inv w0" "ss_store w0 = demo_store" "queues w0 = [[], []]"
      "length (ss_schedulers w0) = 2" using demo_start_ok by blast
  obtain w1 where w1: "sched_inv w1" "ss_store w1 = demo_store" "queues w1 = [[demo_range 0], []]"
      "length (ss_schedulers w1) = 2"
    using submit_wgr_ok [OF demo_libev_ok w0(1), of 0 "demo_range 0"] w0 demo_named [of "demo_range 0"]
    by (auto simp: new_WorkGroupRange_def)
  obtain w where w: "sched_inv w" "ss_store w = demo_store" "queues w = [[demo_range 0], [demo_range 2]]"
      "length (ss_schedulers w) = 2"
    using submit_wgr_ok [OF demo_libev_ok w1(1), of 1 "demo_range 2"] w1 demo_named [of "demo_range 2"]
    by (auto simp: new_WorkGroupRange_def)
  have pend: "pending w p = (if p = 7 then 2 else 0)" for p
    by (simp add: pending_def w(3) new_WorkGroupRange_def)
  have h: "{q. q = 7 \<and> (0 :: nat) = 0} = {7 :: nat}" by simp
  have k: "refs_ok (has_program (ns_objs (ss_store w))) (o_kernels (ns_objs (ss_store w))) (kernels_held (ss_store w))"
    and e: "refs_ok (\<lambda>e. m_cb e \<noteq> None) (o_events (ns_objs (ss_store w))) (events_held (ss_store w))"
    by (auto simp: refs_ok_def kernels_held_def events_held_def w(2) demo_store_def demo_objs_def
        demo_nd_def new_cl_kernel_def new_cl_event_def has_program_def dom_def split: if_splits)
  have "launches_inv w"
    using pend k e
    by (auto simp: launches_inv_def w(2,3) new_WorkGroupRange_def demo_store_def split: if_splits)
  then show ?thesis using w by blast
qed

lemma scheduler_id_value:
  assumes "board \<le> 3" and "1 \<le> fpga" and "fpga \<le> 4" and "pr \<le> 3"
  shows "unat (scheduler_id board fpga pr) = 16 * unat board + 4 * (unat fpga - 1) + unat pr"
proof -
  have b: "unat board \<le> 3" and f: "1 \<le> unat fpga" "unat fpga \<le> 4" and p: "unat pr \<le> 3"
    using assms by (simp_all add: word_le_nat_alt)
  have fz: "fpga \<noteq> 0" using f(1) by auto
  have f1: "unat (fpga - 1) = unat fpga - 1" using fz by (rule unat_dec)
  have f4: "unat ((fpga - 1) * 4) = (unat fpga - 1) * 4"
    unfolding unat_word_ariths(2) f1 using f by simp
  have uf: "unat (ucast ((fpga - 1) * 4) :: u64) = (unat fpga - 1) * 4"
    using f f4 by (simp add: unat_ucast_small)
  have up: "unat (ucast pr :: u64) = unat pr" using p by (simp add: unat_ucast_small)
  have ub: "unat (board * 16) = unat board * 16" using b by (simp add: unat_word_ariths)
  have "unat (board * 16 + ucast ((fpga - 1) * 4)) = unat board * 16 + (unat fpga - 1) * 4"
    using ub uf b f by (subst unat_add_nowrap) simp_all
  then have "unat (board * 16 + ucast ((fpga - 1) * 4) + ucast pr) =
      unat board * 16 + (unat fpga - 1) * 4 + unat pr"
    using up b f p by (subst unat_add_nowrap) simp_all
  then show ?thesis using b f p by (simp add: scheduler_id_def unat_ucast_small)
qed

lemma id_digits:
  fixes a e d a' e' d' :: nat
  assumes "e \<le> 3" "d \<le> 3" "e' \<le> 3" "d' \<le> 3" "16 * a + 4 * e + d = 16 * a' + 4 * e' + d'"
  shows "a = a' \<and> e = e' \<and> d = d'"
proof -
  have "a = (16 * a + 4 * e + d) div 16" "a' = (16 * a' + 4 * e' + d') div 16"
    using assms(1-4) by auto
  then have a: "a = a'" using assms(5) by simp
  then have "4 * e + d = 4 * e' + d'" using assms(5) by simp
  moreover have "e = (4 * e + d) div 4" "e' = (4 * e' + d') div 4" using assms(2,4) by auto
  ultimately have "e = e'" by simp
  then show ?thesis using a assms(5) by simp
qed

section \<open>Properties\<close>

text \<open>From start-up on, whatever work is submitted and whichever timers fire, the list of free
  schedulers holds the ids of exactly the idle schedulers, each once; a scheduler's timer runs
  exactly while it has work; and the timer that offers free schedulers runs exactly while there
  is one.\<close>
theorem free_list_lists_idle_schedulers:
  assumes "libev_ok lv" and "\<forall>(b, f, p)\<in>set prs. b \<le> 3" and "length prs < 2 ^ 31"
    and "distinct (map (\<lambda>(b, f, p). scheduler_id b f p) prs)"
    and "sched_startup lv now junk fjunk jr je poll prs store = Inr w0"
    and "(sched_step lv)\<^sup>*\<^sup>* w0 w"
  shows "distinct (free_ids (ss_free w)) \<and>
    set (free_ids (ss_free w)) = s_id ` {s \<in> set (ss_schedulers w). idle s} \<and>
    (\<forall>s\<in>set (ss_schedulers w). t_active (s_timer s) \<longleftrightarrow> \<not> idle s) \<and>
    (t_active (f_free_sched_timer (ss_free w)) \<longleftrightarrow> (\<exists>s\<in>set (ss_schedulers w). idle s))"
proof -
  have "sched_inv w0" using sched_startup_ok [OF assms(1-4), of now junk fjunk jr je poll store] assms(5) by auto
  then have inv: "sched_inv w" using sched_steps_inv [OF assms(6,1)] by blast
  then have ids: "set (free_ids (ss_free w)) = s_id ` {s \<in> set (ss_schedulers w). idle s}"
    by (simp add: sched_inv_def)
  moreover have "free_ids (ss_free w) \<noteq> [] \<longleftrightarrow> (\<exists>s\<in>set (ss_schedulers w). idle s)"
    unfolding set_empty [symmetric] ids by blast
  ultimately show ?thesis using inv by (auto simp: sched_inv_def free_wf_def sched_wf_def)
qed

theorem free_list_lists_idle_schedulers_witness:
  "\<exists>w0 w1. demo_start = Inr w0 \<and> submit_wgr demo_libev 0 (demo_range 0) w0 = Inr w1 \<and>
    distinct (free_ids (ss_free w1)) \<and>
    set (free_ids (ss_free w1)) = s_id ` {s \<in> set (ss_schedulers w1). idle s}"
proof -
  obtain w0 where w0: "demo_start = Inr w0" "sched_inv w0" "queues w0 = [[], []]"
      "length (ss_schedulers w0) = 2" "ss_store w0 = demo_store" using demo_start_ok by blast
  obtain w1 where w1: "submit_wgr demo_libev 0 (demo_range 0) w0 = Inr w1"
    using submit_wgr_ok [OF demo_libev_ok w0(2), of 0 "demo_range 0"] w0 demo_named [of "demo_range 0"]
    by (auto simp: new_WorkGroupRange_def)
  have "(sched_step demo_libev)\<^sup>*\<^sup>* w0 w1"
    using sched_step.submit [OF _ w1] w0(4) by (intro r_into_rtranclp) simp
  moreover have "distinct (map (\<lambda>(b, f, p). scheduler_id b f p) demo_regions)"
    by (simp add: demo_regions_ids(1))
  ultimately show ?thesis
    using free_list_lists_idle_schedulers [OF demo_libev_ok demo_regions_ids(2,3) _ w0(1)] w0(1) w1
    by blast
qed

text \<open>Inside the limits of the hardware (boards 0 to 3, FPGAs 1 to 4, regions 0 to 3) different
  regions have different scheduler ids, and the ids are below 64.\<close>
theorem scheduler_ids_distinct:
  assumes "b \<le> 3" and "1 \<le> f" and "f \<le> 4" and "p \<le> 3"
    and "b' \<le> 3" and "1 \<le> f'" and "f' \<le> 4" and "p' \<le> 3"
  shows "(scheduler_id b f p = scheduler_id b' f' p' \<longleftrightarrow> b = b' \<and> f = f' \<and> p = p')
    \<and> unat (scheduler_id b f p) < 64"
proof -
  note v = scheduler_id_value [OF assms(1-4)] and v' = scheduler_id_value [OF assms(5-8)]
  have n: "unat b \<le> 3" "1 \<le> unat f" "unat f \<le> 4" "unat p \<le> 3"
    "unat b' \<le> 3" "1 \<le> unat f'" "unat f' \<le> 4" "unat p' \<le> 3"
    using assms by (simp_all add: word_le_nat_alt)
  have "unat b = unat b' \<and> unat f = unat f' \<and> unat p = unat p'"
    if "unat (scheduler_id b f p) = unat (scheduler_id b' f' p')"
  proof -
    have l: "unat f - 1 \<le> 3" "unat f' - 1 \<le> 3" using n by linarith+
    have "unat b = unat b' \<and> unat f - 1 = unat f' - 1 \<and> unat p = unat p'"
      using id_digits [OF l(1) n(4) l(2) n(8)] that unfolding v v' by blast
    then show ?thesis using n by linarith
  qed
  then have "unat (scheduler_id b f p) = unat (scheduler_id b' f' p') \<longleftrightarrow>
      unat b = unat b' \<and> unat f = unat f' \<and> unat p = unat p'"
    unfolding v v' by auto
  then show ?thesis using v n by (simp add: word_unat_eq_iff)
qed

theorem scheduler_ids_distinct_witness:
  "scheduler_id 2 3 1 \<noteq> scheduler_id 2 3 2 \<and> unat (scheduler_id 2 3 1) < 64"
  using scheduler_ids_distinct [of 2 3 1 2 3 2] by simp

text \<open>C30: Submitting a range puts it at the end of the scheduler's queue while there is room for it
  among the hundred entries, and otherwise drops it without a trace: no error reaches the
  caller, and its launch keeps counting it as in the wild. Either way the scheduler's timer runs
  afterwards. To an idle scheduler this holds only for a range whose kernel name can be read,
  because the log message names it: with no launch behind the range, or its kernel's program
  deleted, the submission faults.\<close>
theorem submit_appends_or_drops:
  assumes "libev_ok lv" and "sched_inv w" and "i < length (ss_schedulers w)"
  shows "(queues w ! i = [] \<and> \<not> is_ok (wgr_get_kernel_name (ss_store w) wgr) \<longrightarrow> \<not> is_ok (submit_wgr lv i wgr w)) \<and>
    (queues w ! i \<noteq> [] \<or> is_ok (wgr_get_kernel_name (ss_store w) wgr) \<longrightarrow>
      (\<exists>w'. submit_wgr lv i wgr w = Inr w' \<and> sched_inv w' \<and>
        queues w' = (queues w)[i := take 100 (queues w ! i @ [wgr])] \<and> ss_store w' = ss_store w \<and>
        timer_runs w' i))"
proof (intro conjI impI)
  assume "queues w ! i = [] \<and> \<not> is_ok (wgr_get_kernel_name (ss_store w) wgr)"
  then show "\<not> is_ok (submit_wgr lv i wgr w)"
    using submit_named [OF _ assms(2,3)] by (auto simp: is_ok_iff named_def)
next
  assume nm: "queues w ! i \<noteq> [] \<or> is_ok (wgr_get_kernel_name (ss_store w) wgr)"
  have "\<exists>w'. submit_wgr lv i wgr w = Inr w' \<and> sched_inv w' \<and>
      queues w' = (queues w)[i := take 100 (queues w ! i @ [wgr])] \<and> ss_store w' = ss_store w \<and>
      length (ss_schedulers w') = length (ss_schedulers w)"
  proof (cases "length (queues w ! i) < 100")
  case True
  then show ?thesis using submit_wgr_ok [OF assms True, of wgr] nm by (auto simp: named_def)
next
  case False
  then have full: "length (queues w ! i) = 100" using queue_bounded [OF assms(2,3)] by simp
  then have "(queues w)[i := take 100 (queues w ! i @ [wgr])] = queues w"
    by (simp add: list_update_same_conv)
  then show ?thesis using submit_wgr_full [OF assms full, of wgr] by auto
  qed
  moreover have "take 100 (queues w ! i @ [wgr]) \<noteq> []" "i < length (queues w)" using assms(3) by (simp_all add: queues_def)
  ultimately show "\<exists>w'. submit_wgr lv i wgr w = Inr w' \<and> sched_inv w' \<and>
        queues w' = (queues w)[i := take 100 (queues w ! i @ [wgr])] \<and> ss_store w' = ss_store w \<and>
        timer_runs w' i"
    using assms(3) by (auto simp: timer_runs_iff)
qed

theorem submit_appends_or_drops_witness:
  "\<exists>w w'. demo_start = Inr w \<and> submit_wgr demo_libev 1 (demo_range 0) w = Inr w' \<and>
    queues w' = [[], [demo_range 0]]"
proof -
  obtain w where w: "demo_start = Inr w" "sched_inv w" "queues w = [[], []]"
      "length (ss_schedulers w) = 2" "ss_store w = demo_store" using demo_start_ok by blast
  have "is_ok (wgr_get_kernel_name (ss_store w) (demo_range 0))"
    using demo_named [of "demo_range 0"] w(5) by (simp add: named_def new_WorkGroupRange_def)
  then show ?thesis
    using submit_appends_or_drops [OF demo_libev_ok w(2), of 1 "demo_range 0", THEN conjunct2] w(1,3,4) by auto
qed

text \<open>A timer faults when the range it finishes cannot be named: the program of the range's kernel was
  released and deleted while the range was waiting.\<close>
theorem timer_faults_without_program:
  assumes "sched_inv w" and "i < length (ss_schedulers w)" and "queues w ! i \<noteq> []"
    and "\<not> is_ok (wgr_get_kernel_name (ss_store w) (hd (queues w ! i)))"
  shows "\<not> is_ok (fire_scheduler lv i w)"
proof -
  note at = sched_inv_at [OF assms(1,2)]
  let ?s = "ss_schedulers w ! i"
  have q: "queues w ! i = ca_list (s_in_queue ?s)" using assms(2) by (simp add: queues_def)
  have wf: "ca_wf (s_in_queue ?s)" using at(2) by (simp add: sched_wf_def)
  obtain c where c: "ca_pop_front (s_in_queue ?s) = Inr (hd (queues w ! i), c)"
    using ca_fifo.deq_some [OF wf] assms(3) unfolding q by blast
  show ?thesis using assms(2,4) c
    by (cases "wgr_get_kernel_name (ss_store w) (hd (queues w ! i))")
      (auto simp: fire_scheduler_def on_timer_def sched_at_def set_sched_def is_ok_iff)
qed

theorem timer_faults_without_program_witness:
  "\<exists>w. queues w = [[demo_range 0], [demo_range 2]] \<and>
    \<not> is_ok (fire_scheduler demo_libev 0 (w\<lparr>ss_store := (ss_store w)\<lparr>ns_objs := (ns_objs (ss_store w))\<lparr>o_programs := Map.empty\<rparr>\<rparr>\<rparr>))"
proof -
  obtain w where w: "sched_inv w" "launches_inv w" "queues w = [[demo_range 0], [demo_range 2]]"
      "length (ss_schedulers w) = 2" using demo_busy by blast
  let ?w = "w\<lparr>ss_store := (ss_store w)\<lparr>ns_objs := (ns_objs (ss_store w))\<lparr>o_programs := Map.empty\<rparr>\<rparr>\<rparr>"
  have inv: "sched_inv ?w" using w(1) by (simp add: sched_inv_def)
  have q: "queues ?w ! 0 = [demo_range 0]" using w(3) by (simp add: queues_def)
  have n: "\<not> is_ok (wgr_get_kernel_name (ss_store ?w) (hd (queues ?w ! 0)))"
    unfolding q by (auto simp: is_ok_iff wgr_get_kernel_name_def nd_get_kernel_name_def bindr_Inr_iff split: option.splits)
  show ?thesis using timer_faults_without_program [OF inv _ _ n, of demo_libev] w(3,4) q by auto
qed

text \<open>C16: When every queued range belongs to a live launch that counts it, whose kernel and its program
  have not been deleted, some scheduler's timer runs as long as a range waits. In whatever order
  the timers fire, as often as ranges are queued for each, every timer that is to fire runs, its
  callback does not fault, and in the end all queues are empty, every launch that had ranges queued
  is deleted, and as many callbacks have been made as there were such launches.\<close>
theorem queued_ranges_drain:
  assumes "libev_ok lv" and "sched_inv w" and "launches_inv w"
    and "set is \<subseteq> {..<length (ss_schedulers w)}"
    and "\<forall>i<length (ss_schedulers w). count_list is i = length (queues w ! i)"
  shows "(concat (queues w) \<noteq> [] \<longrightarrow> (\<exists>i<length (ss_schedulers w). t_active (s_timer (ss_schedulers w ! i)))) \<and>
    (\<exists>w' cbs. run_fires lv is w = Some (w', cbs) \<and> concat (queues w') = [] \<and>
      length cbs = card (waiting w) \<and> (\<forall>p\<in>waiting w. ns_ndranges (ss_store w') p = None))"
  using run_fires_drains [OF assms] some_timer_runs [OF assms(2)] unfolding timer_runs_def by blast

theorem queued_ranges_drain_witness:
  "\<exists>w w' cbs. queues w = [[demo_range 0], [demo_range 2]] \<and>
    run_fires demo_libev [1, 0] w = Some (w', cbs) \<and> concat (queues w') = [] \<and> length cbs = 1"
proof -
  obtain w where w: "sched_inv w" "launches_inv w" "queues w = [[demo_range 0], [demo_range 2]]"
      "length (ss_schedulers w) = 2" using demo_busy by blast
  have sub: "set [1, 0] \<subseteq> {..<length (ss_schedulers w)}" by (simp add: w(4))
  have cnt: "\<forall>i<length (ss_schedulers w). count_list [1, 0] i = length (queues w ! i)"
    by (auto simp: w(3,4) less_Suc_eq numeral_2_eq_2)
  have "waiting w = {7}"
    by (auto simp: waiting_def pending_def w(3) new_WorkGroupRange_def)
  then show ?thesis using queued_ranges_drain [OF demo_libev_ok w(1,2) sub cnt] w(3) by fastforce
qed

text \<open>The remaining time of a scheduler is in whole seconds, while execution costs are in
  milliseconds: right after a range of cost \<open>c\<close> is submitted to an idle scheduler, it reports
  \<open>c div 1000\<close>.\<close>
theorem remaining_time_is_in_seconds:
  assumes "libev_ok lv" and "sched_inv w" and "i < length (ss_schedulers w)"
    and "queues w ! i = []" and "submit_wgr lv i wgr w = Inr w'"
    and "unat (w_execution_cost wgr) < 2 ^ 32"
  shows "get_remaining_time (ss_now w') (ss_schedulers w' ! i) =
    Inr (of_nat (unat (w_execution_cost wgr) div 1000))"
proof -
  let ?s = "ss_schedulers w ! i" and ?c = "unat (w_execution_cost wgr)"
  have idle: "idle ?s" using assms(3,4) by (simp add: idle_def queues_def)
  note at = sched_inv_at [OF assms(2,3)]
  have na: "\<not> is_active (s_timer ?s)" using at(2) idle by (simp add: sched_wf_def is_active_def)
  obtain q' where q': "ca_push_back (s_in_queue ?s) wgr False = Inr (SUCCESS, q')"
      "ca_list q' = [wgr]"
    using ca_push_back_room [of "s_in_queue ?s" wgr False] at(2) idle by (auto simp: sched_wf_def idle_def)
  have occ: "ca_occupancy q' < 2" by (simp add: word_less_nat_alt ca_occupancy_length q')
  have now: "ss_now w' = ss_now w" and et: "s_end_time (ss_schedulers w' ! i) = ss_now w + cost_seconds wgr"
    using assms(3,5) at(1) q'(1) na occ
    by (auto simp: submit_wgr_def bindr_Inr_iff set_sched_def Let_def)
  have fl: "floor (of_nat ?c / 1000 :: rat) = int (?c div 1000)"
    using floor_divide_of_nat_eq [of ?c 1000, where ?'a = rat] by simp
  have nn: "\<not> (of_nat ?c :: rat) < 0" by (simp only: not_less of_nat_0_le_iff)
  have "?c div 1000 < 2 ^ 32" using assms(6) by (meson div_le_dividend order.strict_trans1)
  then show ?thesis using fl nn
    by (simp add: get_remaining_time_def now et cost_seconds_def rat_to_unsigned_def)
qed

theorem remaining_time_is_in_seconds_witness:
  "\<exists>w w'. demo_start = Inr w \<and>
    submit_wgr demo_libev 0 ((demo_range 0)\<lparr>w_execution_cost := 2999\<rparr>) w = Inr w' \<and>
    get_remaining_time (ss_now w') (ss_schedulers w' ! 0) = Inr 2"
proof -
  let ?r = "(demo_range 0)\<lparr>w_execution_cost := 2999\<rparr>"
  obtain w where w: "demo_start = Inr w" "sched_inv w" "queues w = [[], []]"
      "length (ss_schedulers w) = 2" "ss_store w = demo_store" using demo_start_ok by blast
  have i: "0 < length (ss_schedulers w)" and q: "queues w ! 0 = []" by (simp_all add: w)
  obtain w' where w': "submit_wgr demo_libev 0 ?r w = Inr w'"
    using submit_wgr_ok [OF demo_libev_ok w(2) i, of ?r] q demo_named [of ?r] w(5)
    by (auto simp: new_WorkGroupRange_def)
  show ?thesis
    using remaining_time_is_in_seconds [OF demo_libev_ok w(2) i q w'] w(1) w' by simp
qed

end
