(* ===== verification/Std_Lib.thy ===== *)
theory Std_Lib
  imports Prelude Complex_Main "HOL-Library.List_Lexorder" "HOL-Library.Char_ord"
begin

text \<open>
  What the program uses of the C and C++ standard libraries: the conversions from text to
  numbers (\<open>atoi\<close>, \<open>strtoul\<close>, \<open>strtoull\<close>, \<open>strtod\<close>), \<open>std::to_string\<close>, \<open>std::map\<close> as a list
  sorted by key (which is the order its iterators run in), and the read access to XML documents:
  nodes as pugixml's default parse flags leave them (elements and text; comments, processing
  instructions and the declaration are dropped, attributes are never read here).
\<close>

section \<open>Text to numbers\<close>

definition c_space :: "char \<Rightarrow> bool" where
  "c_space c \<longleftrightarrow> of_char c = (32 :: nat) \<or> 9 \<le> (of_char c :: nat) \<and> of_char c \<le> (13 :: nat)"

definition digit_val :: "char \<Rightarrow> nat option" where
  "digit_val c =
     (let n = of_char c :: nat
      in if 48 \<le> n \<and> n \<le> 57 then Some (n - 48)
         else if 65 \<le> n \<and> n \<le> 90 then Some (n - 55)
         else if 97 \<le> n \<and> n \<le> 122 then Some (n - 87)
         else None)"

text \<open>The longest prefix of digits of the base, added to the accumulator.\<close>

fun read_digits :: "nat \<Rightarrow> nat \<Rightarrow> string \<Rightarrow> nat" where
  "read_digits base acc [] = acc"
| "read_digits base acc (c # cs) =
     (case digit_val c of
        None \<Rightarrow> acc
      | Some d \<Rightarrow> if d < base then read_digits base (acc * base + d) cs else acc)"

fun strip_0x :: "string \<Rightarrow> string" where
  "strip_0x (a # b # cs) =
     (if a = CHR ''0'' \<and> (b = CHR ''x'' \<or> b = CHR ''X'') then cs else a # b # cs)"
| "strip_0x cs = cs"

text \<open>White space, an optional sign, digits: the sign and the magnitude.\<close>

definition read_integer :: "nat \<Rightarrow> string \<Rightarrow> bool \<times> nat" where
  "read_integer base s =
     (let t = dropWhile c_space s;
          neg = (t \<noteq> [] \<and> hd t = CHR ''-'');
          u = (if t \<noteq> [] \<and> (hd t = CHR ''-'' \<or> hd t = CHR ''+'') then tl t else t);
          v = (if base = 16 then strip_0x u else u)
      in (neg, read_digits base 0 v))"

text \<open>
  \<open>atoi\<close> is the C library's \<open>(int) strtol(s, NULL, 10)\<close>: \<open>long\<close> saturates, \<open>int\<close> keeps the low
  32 bits.
\<close>

definition atoi :: "string \<Rightarrow> u32" where
  "atoi s =
     (let (neg, n) = read_integer 10 s
      in word_of_int (if neg then max (- int n) (- (2 ^ 63)) else min (int n) (2 ^ 63 - 1)))"

definition strtoul :: "nat \<Rightarrow> string \<Rightarrow> u64" where
  "strtoul base s =
     (let (neg, n) = read_integer base s
      in if n \<ge> 2 ^ 64 then -1 else if neg then - of_nat n else of_nat n)"

text \<open>
  \<open>strtod\<close> for decimal notation, read as the exact rational (the program's times are
  rationals in the model, not rounded to \<open>double\<close>).
\<close>

fun digit_run :: "string \<Rightarrow> nat list \<times> string" where
  "digit_run [] = ([], [])"
| "digit_run (c # cs) =
     (case digit_val c of
        None \<Rightarrow> ([], c # cs)
      | Some d \<Rightarrow> if d < 10 then (let (ds, r) = digit_run cs in (d # ds, r)) else ([], c # cs))"

definition digits_nat :: "nat list \<Rightarrow> nat" where
  "digits_nat ds = foldl (\<lambda>a d. a * 10 + d) 0 ds"

definition read_exponent :: "string \<Rightarrow> int" where
  "read_exponent s =
     (if s \<noteq> [] \<and> (hd s = CHR ''e'' \<or> hd s = CHR ''E'')
      then let t = tl s;
               neg = (t \<noteq> [] \<and> hd t = CHR ''-'');
               u = (if t \<noteq> [] \<and> (hd t = CHR ''-'' \<or> hd t = CHR ''+'') then tl t else t);
               n = int (digits_nat (fst (digit_run u)))
           in if neg then - n else n
      else 0)"

definition strtod :: "string \<Rightarrow> rat" where
  "strtod s =
     (let t = dropWhile c_space s;
          neg = (t \<noteq> [] \<and> hd t = CHR ''-'');
          u = (if t \<noteq> [] \<and> (hd t = CHR ''-'' \<or> hd t = CHR ''+'') then tl t else t);
          (ip, r) = digit_run u;
          (fp, r2) = (if r \<noteq> [] \<and> hd r = CHR ''.'' then digit_run (tl r) else ([], r));
          m = of_nat (digits_nat (ip @ fp)) / 10 ^ length fp;
          e = (if ip @ fp = [] then 0 else read_exponent r2);
          v = (if e < 0 then m / 10 ^ nat (- e) else m * 10 ^ nat e)
      in if neg then - v else v)"

section \<open>Numbers to text\<close>

definition digit_char :: "nat \<Rightarrow> char" where
  "digit_char d = char_of (48 + d)"

fun to_string :: "nat \<Rightarrow> string" where
  "to_string n = (if n < 10 then [digit_char n] else to_string (n div 10) @ [digit_char (n mod 10)])"

declare to_string.simps [simp del]

lemma of_char_digit: "d < 10 \<Longrightarrow> (of_char (digit_char d) :: nat) = 48 + d"
  by (simp add: digit_char_def of_char_of take_bit_nat_eq_self)

lemma digit_val_digit_char: "d < 10 \<Longrightarrow> digit_val (digit_char d) = Some d"
  by (simp add: digit_val_def of_char_digit Let_def)

lemma read_digits_append:
  "(\<And>c. c \<in> set xs \<Longrightarrow> \<exists>d<base. digit_val c = Some d) \<Longrightarrow>
    read_digits base a (xs @ ys) = read_digits base (read_digits base a xs) ys"
proof (induction xs arbitrary: a)
  case Nil
  then show ?case by simp
next
  case (Cons c xs)
  obtain d where "d < base" "digit_val c = Some d" using Cons.prems [of c] by auto
  then show ?case using Cons by simp
qed

lemma to_string_digits: "c \<in> set (to_string n) \<Longrightarrow> \<exists>d<10. c = digit_char d"
proof (induction n rule: to_string.induct)
  case (1 n)
  show ?case
  proof (cases "n < 10")
    case True
    then show ?thesis using "1.prems" by (subst (asm) to_string.simps) auto
  next
    case False
    then have "c \<in> set (to_string (n div 10)) \<or> c = digit_char (n mod 10)"
      using "1.prems" by (subst (asm) to_string.simps) auto
    then show ?thesis using "1.IH" [OF False] by (auto intro: exI [of _ "n mod 10"])
  qed
qed

lemma to_string_digits_val: "c \<in> set (to_string n) \<Longrightarrow> \<exists>d<10. digit_val c = Some d"
  using to_string_digits digit_val_digit_char by blast

lemma read_digits_to_string: "read_digits 10 0 (to_string n) = n"
proof (induction n rule: to_string.induct)
  case (1 n)
  show ?case
  proof (cases "n < 10")
    case True
    then show ?thesis by (subst to_string.simps) (simp add: digit_val_digit_char)
  next
    case False
    then have "to_string n = to_string (n div 10) @ [digit_char (n mod 10)]"
      by (subst to_string.simps) simp
    then have "read_digits 10 0 (to_string n) =
        read_digits 10 (read_digits 10 0 (to_string (n div 10))) [digit_char (n mod 10)]"
      by (simp add: read_digits_append [OF to_string_digits_val])
    then show ?thesis using "1.IH" [OF False] by (simp add: digit_val_digit_char)
  qed
qed

lemma to_string_hd: "\<exists>d cs. d < 10 \<and> to_string n = digit_char d # cs"
proof -
  have "to_string n \<noteq> []" by (subst to_string.simps) simp
  then obtain c cs where "to_string n = c # cs" by (cases "to_string n") auto
  then show ?thesis using to_string_digits [of c n] by auto
qed

lemma digit_char_not_sign:
  assumes "d < 10"
  shows "\<not> c_space (digit_char d)" "digit_char d \<noteq> CHR ''-''" "digit_char d \<noteq> CHR ''+''"
proof -
  show "\<not> c_space (digit_char d)" using assms by (simp add: c_space_def of_char_digit)
  have "of_char (digit_char d) \<noteq> (of_char (CHR ''-'') :: nat)"
    "of_char (digit_char d) \<noteq> (of_char (CHR ''+'') :: nat)"
    using assms by (simp_all add: of_char_digit)
  then show "digit_char d \<noteq> CHR ''-''" "digit_char d \<noteq> CHR ''+''" by auto
qed

lemma to_string_01: "to_string 0 = ''0''" "to_string (Suc 0) = ''1''" "to_string 1 = ''1''"
  by (simp_all add: to_string.simps digit_char_def char_of_def bit_iff_odd)

text \<open>A decimal number reads back as itself.\<close>

lemma read_integer_to_string: "read_integer 10 (to_string n) = (False, n)"
proof -
  obtain d cs where d: "d < 10" and t: "to_string n = digit_char d # cs"
    using to_string_hd by blast
  show ?thesis
    using read_digits_to_string [of n] digit_char_not_sign [OF d]
    by (simp add: read_integer_def t Let_def)
qed

lemma atoi_to_string: "n < 2 ^ 63 \<Longrightarrow> atoi (to_string n) = of_nat n"
  by (simp add: atoi_def read_integer_to_string)

lemma strtoul_to_string: "n < 2 ^ 64 \<Longrightarrow> strtoul 10 (to_string n) = of_nat n"
  by (simp add: strtoul_def read_integer_to_string)

section \<open>\<open>std::map\<close>\<close>

type_synonym ('k, 'v) smap = "('k \<times> 'v) list"

text \<open>\<open>m[k] = v\<close>.\<close>

fun smap_assign :: "'k::linorder \<Rightarrow> 'v \<Rightarrow> ('k, 'v) smap \<Rightarrow> ('k, 'v) smap" where
  "smap_assign k v [] = [(k, v)]"
| "smap_assign k v ((k', v') # m) =
     (if k < k' then (k, v) # (k', v') # m
      else if k = k' then (k, v) # m
      else (k', v') # smap_assign k v m)"

text \<open>\<open>m.insert({k, v})\<close> keeps an entry that is there.\<close>

definition smap_insert :: "'k::linorder \<Rightarrow> 'v \<Rightarrow> ('k, 'v) smap \<Rightarrow> ('k, 'v) smap" where
  "smap_insert k v m = (if map_of m k = None then smap_assign k v m else m)"

definition smap_wf :: "('k::linorder, 'v) smap \<Rightarrow> bool" where
  "smap_wf m \<longleftrightarrow> sorted_wrt (<) (map fst m)"

lemma smap_wf_simps [simp]:
  "smap_wf []" "smap_wf ((k, v) # m) \<longleftrightarrow> (\<forall>k'\<in>fst ` set m. k < k') \<and> smap_wf m"
  by (simp_all add: smap_wf_def)

lemma fst_set_assign: "fst ` set (smap_assign k v m) = insert k (fst ` set m)"
  by (induction k v m rule: smap_assign.induct) (auto simp: image_iff)

lemma smap_assign_wf [wf_intros]: "smap_wf m \<Longrightarrow> smap_wf (smap_assign k v m)"
  by (induction k v m rule: smap_assign.induct) (auto simp: fst_set_assign)

lemma map_of_smap_assign [simp]: "smap_wf m \<Longrightarrow> map_of (smap_assign k v m) = (map_of m)(k \<mapsto> v)"
proof (induction k v m rule: smap_assign.induct)
  case (1 k v)
  then show ?case by simp
next
  case (2 k v k' v' m)
  then show ?case by (auto simp: fun_eq_iff)
qed

lemma map_of_smap_insert: "smap_wf m \<Longrightarrow>
    map_of (smap_insert k v m) = (if map_of m k = None then (map_of m)(k \<mapsto> v) else map_of m)"
  by (simp add: smap_insert_def)

lemma smap_insert_wf [wf_intros]: "smap_wf m \<Longrightarrow> smap_wf (smap_insert k v m)"
  by (simp add: smap_insert_def smap_assign_wf)

section \<open>Keyed stores\<close>

text \<open>
  What the program expects of a map: a store shows up under its key and nowhere else. \<open>ok\<close> is
  the representation invariant.
\<close>

locale keyed_store =
  fixes ok :: "'s \<Rightarrow> bool"
    and look :: "'s \<Rightarrow> 'k \<Rightarrow> 'v option"
    and put :: "'k \<Rightarrow> 'v \<Rightarrow> 's \<Rightarrow> 's"
  assumes put_ok: "ok s \<Longrightarrow> ok (put k v s)"
    and look_put: "ok s \<Longrightarrow> look (put k v s) k' = (if k = k' then Some v else look s k')"
begin

lemma puts_ok: "ok s \<Longrightarrow> ok (fold (\<lambda>k. put k (f k)) ks s)"
  by (induction ks arbitrary: s) (simp_all add: put_ok)

lemma look_puts:
  "ok s \<Longrightarrow> look (fold (\<lambda>k. put k (f k)) ks s) k' = (if k' \<in> set ks then Some (f k') else look s k')"
  by (induction ks arbitrary: s) (auto simp: put_ok look_put)

end

text \<open>A map whose store keeps the entry that is there.\<close>

locale first_wins_store =
  fixes ok :: "'s \<Rightarrow> bool"
    and look :: "'s \<Rightarrow> 'k \<Rightarrow> 'v option"
    and ins :: "'k \<Rightarrow> 'v \<Rightarrow> 's \<Rightarrow> 's"
  assumes ins_ok: "ok s \<Longrightarrow> ok (ins k v s)"
    and look_ins: "ok s \<Longrightarrow>
      look (ins k v s) k' = (if k = k' \<and> look s k = None then Some v else look s k')"
begin

text \<open>A table computed from the entries of another map, entry by entry.\<close>

lemma look_table:
  assumes "ok s" and "\<forall>k. look s k = None" and "distinct (map fst es)"
  shows "look (foldl (\<lambda>s (k, e). case g e of None \<Rightarrow> s | Some v \<Rightarrow> ins k v s) s es) k =
    (case map_of es k of None \<Rightarrow> None | Some e \<Rightarrow> g e)"
proof -
  have "ok s \<Longrightarrow> distinct (map fst es) \<Longrightarrow> (\<And>k. k \<in> fst ` set es \<Longrightarrow> look s k = None) \<Longrightarrow>
    look (foldl (\<lambda>s (k, e). case g e of None \<Rightarrow> s | Some v \<Rightarrow> ins k v s) s es) k =
      (case map_of es k of None \<Rightarrow> look s k | Some e \<Rightarrow> g e)" for s
  proof (induction es arbitrary: s)
    case Nil
    then show ?case by simp
  next
    case (Cons x es)
    obtain k0 e0 where x: "x = (k0, e0)" by (cases x)
    show ?case
    proof (cases "g e0")
      case None
      have "map_of es k0 = None" using Cons.prems(2) by (simp add: x map_of_eq_None_iff)
      then show ?thesis
        using Cons.IH [of s] Cons.prems None by (auto simp: x split: option.splits)
    next
      case (Some v)
      have n: "map_of es k0 = None" using Cons.prems(2) by (simp add: x map_of_eq_None_iff)
      have "\<And>k. k \<in> fst ` set es \<Longrightarrow> look (ins k0 v s) k = None"
        using Cons.prems by (auto simp: x look_ins)
      then have "look (foldl (\<lambda>s (k, e). case g e of None \<Rightarrow> s | Some v \<Rightarrow> ins k v s)
          (ins k0 v s) es) k =
        (case map_of es k of None \<Rightarrow> look (ins k0 v s) k | Some e \<Rightarrow> g e)"
        using Cons.prems by (intro Cons.IH) (simp_all add: x ins_ok)
      then show ?thesis
        using Some n Cons.prems by (auto simp: x look_ins split: option.splits)
    qed
  qed
  then show ?thesis using assms by (simp split: option.splits)
qed

end

interpretation smap_st: keyed_store smap_wf map_of smap_assign
  by unfold_locales (auto intro: wf_intros)

interpretation smap_fw: first_wins_store smap_wf map_of smap_insert
  by unfold_locales (auto intro: wf_intros simp: map_of_smap_insert)

lemma smap_wf_distinct: "smap_wf m \<Longrightarrow> distinct (map fst m)"
  by (induction m) fastforce+

end
