(* ===== verification/Wee_Config.thy ===== *)
theory Wee_Config
  imports Std_Lib
begin

text \<open>
  The configuration: \<^verbatim>\<open>cpp/wee_config.cc\<close> over an XML document, and
  \<^verbatim>\<open>cpp/sched_config_extractors.h\<close>, which turns the list of programmable regions into
  tuples of numbers. The document is what pugixml's parser makes of a file; parsing is a
  parameter of the operations that load one.
\<close>

section \<open>XML nodes\<close>

datatype xml_node = Element string "xml_node list" | Pcdata string

text \<open>A handle is null when the node was not found.\<close>

type_synonym xml_handle = "xml_node option"

fun node_children :: "xml_node \<Rightarrow> xml_node list" where
  "node_children (Element _ cs) = cs"
| "node_children (Pcdata _) = []"

fun first_named :: "string \<Rightarrow> xml_node list \<Rightarrow> xml_handle" where
  "first_named name [] = None"
| "first_named name (Element n cs # ns) =
     (if n = name then Some (Element n cs) else first_named name ns)"
| "first_named name (Pcdata _ # ns) = first_named name ns"

fun first_text :: "xml_node list \<Rightarrow> string" where
  "first_text [] = []"
| "first_text (Pcdata t # ns) = t"
| "first_text (Element _ _ # ns) = first_text ns"

(* src/aux-src/pugixml/pugixml.cc:5484-5492 xml_node::child *)
definition xml_child :: "xml_handle \<Rightarrow> string \<Rightarrow> xml_handle" where
  "xml_child h name =
     (case h of None \<Rightarrow> None | Some n \<Rightarrow> first_named name (node_children n))"

(* src/aux-src/pugixml/pugixml.cc:5586-5599 xml_node::child_value *)
definition xml_child_value :: "xml_handle \<Rightarrow> string" where
  "xml_child_value h = (case h of None \<Rightarrow> [] | Some n \<Rightarrow> first_text (node_children n))"

section \<open>Values of the configuration\<close>

(* src/cpp/wee_config.cc:18-22 WeeConfig::WeeConfigImpl *)
record wee_config =
  m_top_node :: xml_handle

(* src/cpp/wee_config.cc:26-56 WeeConfig::WeeConfig *)
definition new_WeeConfig ::
  "(string \<Rightarrow> xml_handle) \<Rightarrow> string option \<Rightarrow> string option \<Rightarrow> wee_config res" where
  "new_WeeConfig load_file file_path root_node =
     (let path = (case file_path of None \<Rightarrow> ''./default_config.xml'' | Some p \<Rightarrow> p);
          root = (case root_node of None \<Rightarrow> ''ConfigParams'' | Some r \<Rightarrow> r)
      in case load_file path of
           None \<Rightarrow> Inl (Runtime_error ''Could not open the config file!'')
         | Some doc \<Rightarrow>
             (case xml_child (Some doc) root of
                None \<Rightarrow> Inl (Runtime_error ''WeeConfig - top node is empty'')
              | Some node \<Rightarrow> Inr \<lparr>m_top_node = Some node\<rparr>))"

text \<open>Each \<open>get_value_for_key\<close>: whether the key is there, and the value after the call.\<close>

(* src/cpp/wee_config.cc:67-82 WeeConfig::get_value_for_key<int> *)
definition get_value_for_key_int :: "wee_config \<Rightarrow> string \<Rightarrow> u32 \<Rightarrow> bool \<times> u32" where
  "get_value_for_key_int c key v =
     (case xml_child (m_top_node c) key of
        None \<Rightarrow> (False, v)
      | Some n \<Rightarrow> (True, atoi (xml_child_value (Some n))))"

(* src/cpp/wee_config.cc:85-100 WeeConfig::get_value_for_key<double> *)
definition get_value_for_key_double :: "wee_config \<Rightarrow> string \<Rightarrow> rat \<Rightarrow> bool \<times> rat" where
  "get_value_for_key_double c key v =
     (case xml_child (m_top_node c) key of
        None \<Rightarrow> (False, v)
      | Some n \<Rightarrow> (True, strtod (xml_child_value (Some n))))"

(* src/cpp/wee_config.cc:103-117 WeeConfig::get_value_for_key<const char*> *)
definition get_value_for_key_str :: "wee_config \<Rightarrow> string \<Rightarrow> string option \<Rightarrow> bool \<times> string option" where
  "get_value_for_key_str c key v =
     (case xml_child (m_top_node c) key of
        None \<Rightarrow> (False, v)
      | Some n \<Rightarrow> (True, Some (xml_child_value (Some n))))"

(* src/cpp/wee_config.cc:120-134 WeeConfig::get_value_for_key<bool> *)
definition get_value_for_key_bool :: "wee_config \<Rightarrow> string \<Rightarrow> bool \<Rightarrow> bool \<times> bool" where
  "get_value_for_key_bool c key v =
     (case xml_child (m_top_node c) key of
        None \<Rightarrow> (False, v)
      | Some n \<Rightarrow> (True, xml_child_value (Some n) = ''true''))"

section \<open>Tuples of the programmable regions\<close>

text \<open>Board id, FPGA id, region id.\<close>

(* src/cpp/sched_config_extractors.h:14-15 tuple_3 *)
type_synonym tuple_3 = "u64 \<times> u32 \<times> u32"

(* src/cpp/sched_config_extractors.h:17-42 set_tuple_value *)
definition set_tuple_value :: "tuple_3 \<Rightarrow> u32 \<Rightarrow> string option \<Rightarrow> tuple_3" where
  "set_tuple_value tpl index v =
     (case v of
        None \<Rightarrow> tpl
      | Some s \<Rightarrow>
          (case tpl of (b, f, p) \<Rightarrow>
             if index = 0 then (strtoul 10 s, f, p)
             else if index = 1 then (b, atoi s, p)
             else if index = 2 then (b, f, atoi s)
             else (b, f, p)))"

(* src/cpp/sched_config_extractors.h:44-61 Extractor *)
record extractor =
  m_key_name :: string
  m_output_position :: u32

text \<open>One pass over the extractors fills the tuple of one child; a tuple starts as zeros.\<close>

(* src/cpp/wee_config.cc:159-176 WeeConfig::get_values_for_key (loop body) *)
definition extract_one :: "extractor list \<Rightarrow> xml_node \<Rightarrow> tuple_3" where
  "extract_one exs child =
     foldl (\<lambda>out ex.
       let v = xml_child_value (xml_child (Some child) (m_key_name ex))
       in if length v < 1 then out else set_tuple_value out (m_output_position ex) (Some v))
     (0, 0, 0) exs"

(* src/cpp/wee_config.cc:137-182 WeeConfig::get_values_for_key *)
definition get_values_for_key ::
  "wee_config \<Rightarrow> string \<Rightarrow> extractor list \<Rightarrow> tuple_3 list \<Rightarrow> bool \<times> tuple_3 list" where
  "get_values_for_key c key exs values =
     (case xml_child (m_top_node c) key of
        None \<Rightarrow> (False, values)
      | Some array_node \<Rightarrow> (True, values @ map (extract_one exs) (node_children array_node)))"

text \<open>The extractors \<open>SchedConfig\<close> reads the regions with.\<close>

(* src/cpp/sched_config_common.cc:28-30 SchedConfig::SchedConfig *)
definition pr_extractors :: "extractor list" where
  "pr_extractors =
     [\<lparr>m_key_name = ''BoardID'', m_output_position = 0\<rparr>,
      \<lparr>m_key_name = ''FpgaID'', m_output_position = 1\<rparr>,
      \<lparr>m_key_name = ''PRID'', m_output_position = 2\<rparr>]"

text \<open>The configuration file shipped with the program.\<close>

(* src/cpp/default_config.xml:1-26 ConfigParams *)
definition default_config_xml :: xml_node where
  "default_config_xml = Element []
     [Element ''ConfigParams''
       [Element ''LogLevel'' [Pcdata ''1''],
        Element ''BitstreamsPath'' [Pcdata ''/home/bitstreams''],
        Element ''EnableBitstreamMmap'' [Pcdata ''false''],
        Element ''SchedPollingInterval'' [Pcdata ''0.0001''],
        Element ''UnimemDriverPath'' [Pcdata ''/dev/unimem_buffer_allocator''],
        Element ''CtrlDriverPath'' [Pcdata ''/dev/null''],
        Element ''MainDriverPath'' [Pcdata ''/dev/null''],
        Element ''PRs''
          [Element ''PR'' [Element ''BoardID'' [Pcdata ''0''], Element ''FpgaID'' [Pcdata ''1''],
                         Element ''PRID'' [Pcdata ''1'']],
           Element ''PR'' [Element ''BoardID'' [Pcdata ''0''], Element ''FpgaID'' [Pcdata ''1''],
                         Element ''PRID'' [Pcdata ''3'']]]]]"

section \<open>Facts\<close>

lemma xml_child_simps [simp]:
  "xml_child None name = None"
  "xml_child (Some n) name = first_named name (node_children n)"
  "xml_child_value None = []"
  "xml_child_value (Some n) = first_text (node_children n)"
  by (simp_all add: xml_child_def xml_child_value_def)

lemma to_string_nonempty: "length (to_string n) \<noteq> 0" "to_string n \<noteq> []"
  using to_string_hd [of n] by auto

text \<open>A region written out in decimal.\<close>

definition pr_element :: "tuple_3 \<Rightarrow> xml_node" where
  "pr_element t = (case t of (b, f, p) \<Rightarrow>
     Element ''PR'' [Element ''BoardID'' [Pcdata (to_string (unat b))],
                   Element ''FpgaID'' [Pcdata (to_string (unat f))],
                   Element ''PRID'' [Pcdata (to_string (unat p))]])"

lemma extract_one_pr_element: "extract_one pr_extractors (pr_element t) = t"
proof -
  obtain b f p where t: "t = (b, f, p)" by (cases t)
  have b: "strtoul 10 (to_string (unat b)) = b"
    using unat_bound64 [of b] by (simp add: strtoul_to_string)
  have fp: "atoi (to_string (unat x)) = x" for x :: u32
    using unat_bound32 [of x] by (simp add: atoi_to_string)
  show ?thesis
    by (simp add: t pr_element_def extract_one_def pr_extractors_def set_tuple_value_def
        to_string_nonempty b fp)
qed

section \<open>Properties\<close>

text \<open>C35: The regions of a configuration are read back as they were written: a \<open>PRs\<close> element
  that lists regions in decimal gives exactly their board, FPGA and region numbers, in order,
  appended to what was there; without a \<open>PRs\<close> element the vector stays and false is returned.\<close>
theorem config_regions_roundtrip:
  assumes "first_named ''PRs'' pre = None"
  shows "get_values_for_key
      \<lparr>m_top_node = Some (Element r (pre @ Element ''PRs'' (map pr_element ts) # post))\<rparr>
      ''PRs'' pr_extractors vs = (True, vs @ ts)
    \<and> get_values_for_key \<lparr>m_top_node = Some (Element r pre)\<rparr> ''PRs'' pr_extractors vs = (False, vs)"
proof -
  have fn: "first_named n (xs @ ys) =
      (case first_named n xs of None \<Rightarrow> first_named n ys | Some e \<Rightarrow> Some e)" for n xs ys
    by (induction n xs rule: first_named.induct) (auto split: option.splits)
  have "map (extract_one pr_extractors \<circ> pr_element) ts = ts"
    by (simp add: extract_one_pr_element map_idI)
  then show ?thesis using assms by (simp add: get_values_for_key_def fn)
qed

theorem config_regions_roundtrip_witness:
  "get_values_for_key \<lparr>m_top_node = Some (Element ''C'' [Pcdata ''x'', Element ''PRs'' (map pr_element [(0, 1, 1), (3, 4, 2)])])\<rparr>
     ''PRs'' pr_extractors [] = (True, [(0, 1, 1), (3, 4, 2)])"
  using config_regions_roundtrip [of "[Pcdata ''x'']" "''C''" "[(0, 1, 1), (3, 4, 2)]" "[]" "[]"]
  by simp

text \<open>With no file and no root given, the configuration is read from
  \<open>./default_config.xml\<close> under \<open>ConfigParams\<close>; the shipped file yields the two regions 1 and 3
  of the first FPGA of board 0, the bitstream path, mapping switched off, and a polling
  interval of one ten-thousandth of a second.\<close>
theorem default_config_values:
  assumes "load_file ''./default_config.xml'' = Some default_config_xml"
  shows "\<exists>c. new_WeeConfig load_file None None = Inr c \<and>
    get_values_for_key c ''PRs'' pr_extractors [] = (True, [(0, 1, 1), (0, 1, 3)]) \<and>
    get_value_for_key_str c ''BitstreamsPath'' None = (True, Some ''/home/bitstreams'') \<and>
    get_value_for_key_bool c ''EnableBitstreamMmap'' True = (True, False) \<and>
    get_value_for_key_double c ''SchedPollingInterval'' 0 = (True, 1 / 10000) \<and>
    get_value_for_key_int c ''LogLevel'' 0 = (True, 1) \<and>
    get_value_for_key_int c ''Absent'' 7 = (False, 7)"
  using assms
  by (simp add: new_WeeConfig_def default_config_xml_def get_values_for_key_def extract_one_def
      pr_extractors_def set_tuple_value_def get_value_for_key_str_def get_value_for_key_bool_def
      get_value_for_key_double_def get_value_for_key_int_def atoi_def strtoul_def strtod_def
      read_integer_def c_space_def digit_val_def digits_nat_def read_exponent_def)

theorem default_config_values_witness:
  "\<exists>c. new_WeeConfig (\<lambda>p. if p = ''./default_config.xml'' then Some default_config_xml else None)
      None None = Inr c \<and>
    get_values_for_key c ''PRs'' pr_extractors [] = (True, [(0, 1, 1), (0, 1, 3)])"
  using default_config_values
    [of "\<lambda>p. if p = ''./default_config.xml'' then Some default_config_xml else None"] by fastforce

end
