(* ===== verification/Bitstreams.thy ===== *)
theory Bitstreams
  imports Wee_Config
begin

text \<open>
  The kernel descriptions: \<^verbatim>\<open>cpp/bitstream_manager.cc\<close> reads every \<open>.xml\<close> file of a
  directory into a map from file names to \<open>bitstream_s\<close>; \<^verbatim>\<open>cpp/bitstream_check.h\<close> answers the
  OpenCL layer's questions about them; \<^verbatim>\<open>cpp/tracker.cc\<close> tabulates the cost of a work group
  on each scheduler. The directory, the files and the XML parser are the environment.
\<close>

section \<open>The environment\<close>

text \<open>
  \<open>env_readdir\<close>: the names of a directory, in the order \<open>readdir\<close> gives them, \<open>None\<close> when
  \<open>opendir\<close> fails. \<open>env_mmap\<close>: the text of a file, \<open>None\<close> when \<open>open\<close>, \<open>fstat\<close> or \<open>mmap\<close>
  fails. \<open>env_load_file\<close>, \<open>env_load_string\<close>: the parsed document, \<open>None\<close> when parsing fails.
\<close>

record bs_env =
  env_readdir :: "string \<Rightarrow> string list option"
  env_mmap :: "string \<Rightarrow> string option"
  env_load_file :: "string \<Rightarrow> xml_handle"
  env_load_string :: "string \<Rightarrow> xml_handle"

section \<open>The manager\<close>

(* src/cpp/bitstream_manager.h:19-30 bitstream_s *)
record bitstream_s =
  resource_string :: string
  offset_address :: "u32 list"
  bs_target :: string
  num_accs :: u32
  wgroup_size :: u32
  local_cost :: u32
  remote_cost :: u32
  bitstream :: string
  bs_length :: u32

(* src/cpp/bitstream_manager.h:35-98 BitstreamManager *)
record bitstream_manager =
  m_kernel_bitstream_struct_map :: "(string, bitstream_s) smap"
  m_kernel_mmap_ptr_map :: "(string, string) smap"
  m_working_dir_path :: string
  m_enabled_mmap :: bool
  m_xml_files_list :: "string list"

text \<open>Getters take the out-parameter's value before the call and return it after.\<close>

(* src/cpp/bitstream_manager.cc:35-89 BitstreamManager::get_bit_stream *)
definition get_bit_stream ::
  "bs_env \<Rightarrow> bitstream_manager \<Rightarrow> string \<Rightarrow> string \<Rightarrow> RC \<times> string" where
  "get_bit_stream env m fname bstream =
     (if m_enabled_mmap m
      then (case map_of (m_kernel_mmap_ptr_map m) fname of
              None \<Rightarrow> (ML_ERROR, bstream)
            | Some text \<Rightarrow>
                (case env_load_string env text of
                   None \<Rightarrow> (ML_ERROR, bstream)
                 | Some doc \<Rightarrow>
                     (ML_SUCCESS, xml_child_value
                        (xml_child (xml_child (xml_child (Some doc) ''data'') ''body'') ''bitstream''))))
      else (case map_of (m_kernel_bitstream_struct_map m) fname of
              Some b \<Rightarrow> (ML_SUCCESS, bitstream b)
            | None \<Rightarrow> (ML_ERROR, bstream)))"

(* src/cpp/bitstream_manager.cc:92-103 BitstreamManager::get_resource_string *)
definition get_resource_string :: "bitstream_manager \<Rightarrow> string \<Rightarrow> string \<Rightarrow> RC \<times> string" where
  "get_resource_string m fname v =
     (case map_of (m_kernel_bitstream_struct_map m) fname of
        Some b \<Rightarrow> (ML_SUCCESS, resource_string b) | None \<Rightarrow> (ML_ERROR, v))"

(* src/cpp/bitstream_manager.cc:106-117 BitstreamManager::get_offset_addresses *)
definition get_offset_addresses :: "bitstream_manager \<Rightarrow> string \<Rightarrow> u32 list \<Rightarrow> RC \<times> u32 list" where
  "get_offset_addresses m fname v =
     (case map_of (m_kernel_bitstream_struct_map m) fname of
        Some b \<Rightarrow> (ML_SUCCESS, offset_address b) | None \<Rightarrow> (ML_ERROR, v))"

(* src/cpp/bitstream_manager.cc:120-131 BitstreamManager::get_target *)
definition get_target :: "bitstream_manager \<Rightarrow> string \<Rightarrow> string \<Rightarrow> RC \<times> string" where
  "get_target m fname v =
     (case map_of (m_kernel_bitstream_struct_map m) fname of
        Some b \<Rightarrow> (ML_SUCCESS, bs_target b) | None \<Rightarrow> (ML_ERROR, v))"

(* src/cpp/bitstream_manager.cc:133-144 BitstreamManager::get_num_accs *)
definition get_num_accs :: "bitstream_manager \<Rightarrow> string \<Rightarrow> u32 \<Rightarrow> RC \<times> u32" where
  "get_num_accs m fname v =
     (case map_of (m_kernel_bitstream_struct_map m) fname of
        Some b \<Rightarrow> (ML_SUCCESS, num_accs b) | None \<Rightarrow> (ML_ERROR, v))"

(* src/cpp/bitstream_manager.cc:146-157 BitstreamManager::get_wg_size *)
definition get_wg_size :: "bitstream_manager \<Rightarrow> string \<Rightarrow> u32 \<Rightarrow> RC \<times> u32" where
  "get_wg_size m fname v =
     (case map_of (m_kernel_bitstream_struct_map m) fname of
        Some b \<Rightarrow> (ML_SUCCESS, wgroup_size b) | None \<Rightarrow> (ML_ERROR, v))"

(* src/cpp/bitstream_manager.cc:159-170 BitstreamManager::get_local_cost *)
definition get_local_cost :: "bitstream_manager \<Rightarrow> string \<Rightarrow> u32 \<Rightarrow> RC \<times> u32" where
  "get_local_cost m fname v =
     (case map_of (m_kernel_bitstream_struct_map m) fname of
        Some b \<Rightarrow> (ML_SUCCESS, local_cost b) | None \<Rightarrow> (ML_ERROR, v))"

(* src/cpp/bitstream_manager.cc:172-183 BitstreamManager::get_remote_cost *)
definition get_remote_cost :: "bitstream_manager \<Rightarrow> string \<Rightarrow> u32 \<Rightarrow> RC \<times> u32" where
  "get_remote_cost m fname v =
     (case map_of (m_kernel_bitstream_struct_map m) fname of
        Some b \<Rightarrow> (ML_SUCCESS, remote_cost b) | None \<Rightarrow> (ML_ERROR, v))"

(* src/cpp/bitstream_manager.cc:186-197 BitstreamManager::get_bs_length *)
definition get_bs_length :: "bitstream_manager \<Rightarrow> string \<Rightarrow> u32 \<Rightarrow> RC \<times> u32" where
  "get_bs_length m fname v =
     (case map_of (m_kernel_bitstream_struct_map m) fname of
        Some b \<Rightarrow> (ML_SUCCESS, bs_length b) | None \<Rightarrow> (ML_ERROR, v))"

section \<open>Reading the directory\<close>

text \<open>
  Special directories and hidden files start with a dot. The extension is the last four
  characters: \<open>substr\<close> throws when the name is shorter, because \<open>size() - 4\<close> wraps.
\<close>

definition is_hidden :: "string \<Rightarrow> bool" where
  "is_hidden s \<longleftrightarrow> s = ''.'' \<or> s = ''..'' \<or> take 1 s = ''.''"

definition last_four :: "string \<Rightarrow> string res" where
  "last_four s = (if length s < 4 then Inl Out_of_range else Inr (drop (length s - 4) s))"

text \<open>The loop over the names; a \<open>return\<close> inside it leaves the rest unread.\<close>

(* src/cpp/bitstream_manager.cc:208-252 BitstreamManager::get_xml_files_list (loop) *)
fun read_names :: "bs_env \<Rightarrow> string list \<Rightarrow> bitstream_manager \<Rightarrow> (RC \<times> bitstream_manager) res" where
  "read_names env [] m = Inr (ML_SUCCESS, m)"
| "read_names env (s # ss) m =
     (if is_hidden s then read_names env ss m
      else bindr (last_four s) (\<lambda>ext.
        if ext \<noteq> ''.xml'' then read_names env ss m
        else let m1 = m\<lparr>m_xml_files_list := m_xml_files_list m @ [s]\<rparr>
             in if \<not> m_enabled_mmap m then read_names env ss m1
                else (case env_mmap env (m_working_dir_path m @ ''/'' @ s) of
                        None \<Rightarrow> Inr (ML_ERROR, m1)
                      | Some text \<Rightarrow>
                          read_names env ss
                            (m1\<lparr>m_kernel_mmap_ptr_map :=
                                  smap_assign s text (m_kernel_mmap_ptr_map m1)\<rparr>))))"

(* src/cpp/bitstream_manager.cc:199-263 BitstreamManager::get_xml_files_list *)
definition get_xml_files_list :: "bs_env \<Rightarrow> bitstream_manager \<Rightarrow> (RC \<times> bitstream_manager) res" where
  "get_xml_files_list env m =
     (case env_readdir env (m_working_dir_path m) of
        None \<Rightarrow> Inr (ML_ERROR, m)
      | Some names \<Rightarrow> read_names env names m)"

section \<open>Reading one description\<close>

definition data_header :: "xml_node \<Rightarrow> string \<Rightarrow> string" where
  "data_header doc key =
     xml_child_value (xml_child (xml_child (xml_child (Some doc) ''data'') ''header'') key)"

definition data_body :: "xml_node \<Rightarrow> string \<Rightarrow> string" where
  "data_body doc key =
     xml_child_value (xml_child (xml_child (xml_child (Some doc) ''data'') ''body'') key)"

(* src/cpp/bitstream_manager.cc:310-358 BitstreamManager::extract_xml_file *)
definition extract_bitstream :: "bool \<Rightarrow> xml_node \<Rightarrow> bitstream_s" where
  "extract_bitstream mmap doc =
     \<lparr>resource_string = data_header doc ''resource-string'',
      offset_address =
        map (\<lambda>i. ucast (strtoul 16 (data_header doc (''offset_address_'' @ to_string i))))
          [0..<nat (sint (atoi (data_header doc ''n_args'')))],
      bs_target = data_header doc ''target'',
      num_accs = atoi (data_header doc ''num_accelerators''),
      wgroup_size = atoi (data_header doc ''workgroup_size''),
      local_cost = atoi (data_header doc ''local_cost''),
      remote_cost = atoi (data_header doc ''remote_cost''),
      bitstream = (if mmap then [] else data_body doc ''bitstream''),
      bs_length = atoi (data_body doc ''length'')\<rparr>"

text \<open>The document a file name stands for.\<close>

(* src/cpp/bitstream_manager.cc:269-303 BitstreamManager::extract_xml_file *)
definition load_description :: "bs_env \<Rightarrow> bitstream_manager \<Rightarrow> string \<Rightarrow> xml_handle" where
  "load_description env m xml_file =
     (if m_enabled_mmap m
      then (case map_of (m_kernel_mmap_ptr_map m) xml_file of
              None \<Rightarrow> None | Some text \<Rightarrow> env_load_string env text)
      else env_load_file env (m_working_dir_path m @ ''/'' @ xml_file))"

(* src/cpp/bitstream_manager.cc:266-364 BitstreamManager::extract_xml_file *)
definition extract_xml_file :: "bs_env \<Rightarrow> bitstream_manager \<Rightarrow> string \<Rightarrow> RC \<times> bitstream_manager" where
  "extract_xml_file env m xml_file =
     (case load_description env m xml_file of
        None \<Rightarrow> (ML_ERROR, m)
      | Some doc \<Rightarrow>
          (ML_SUCCESS, m\<lparr>m_kernel_bitstream_struct_map :=
             smap_assign xml_file (extract_bitstream (m_enabled_mmap m) doc)
               (m_kernel_bitstream_struct_map m)\<rparr>))"

(* src/cpp/bitstream_manager.cc:374-380 BitstreamManager::read_xml_files (loop) *)
fun extract_files :: "bs_env \<Rightarrow> string list \<Rightarrow> bitstream_manager \<Rightarrow> RC \<times> bitstream_manager" where
  "extract_files env [] m = (ML_SUCCESS, m)"
| "extract_files env (f # fs) m =
     (let (rc, m1) = extract_xml_file env m f
      in if rc = ML_ERROR then (ML_ERROR, m1) else extract_files env fs m1)"

(* src/cpp/bitstream_manager.cc:366-385 BitstreamManager::read_xml_files *)
definition read_xml_files :: "bs_env \<Rightarrow> bitstream_manager \<Rightarrow> (RC \<times> bitstream_manager) res" where
  "read_xml_files env m =
     bindr (get_xml_files_list env m) (\<lambda>(rc, m1).
       if rc = ML_SUCCESS then Inr (extract_files env (m_xml_files_list m1) m1)
       else Inr (ML_ERROR, m1))"

(* src/cpp/bitstream_manager.cc:17-32 BitstreamManager::BitstreamManager *)
definition new_BitstreamManager :: "bs_env \<Rightarrow> wee_config \<Rightarrow> bitstream_manager res" where
  "new_BitstreamManager env config =
     (let xml_path = snd (get_value_for_key_str config ''BitstreamsPath'' None);
          dir = (case xml_path of None \<Rightarrow> [] | Some p \<Rightarrow> p);
          mmap = snd (get_value_for_key_bool config ''EnableBitstreamMmap'' False);
          m = \<lparr>m_kernel_bitstream_struct_map = [], m_kernel_mmap_ptr_map = [],
               m_working_dir_path = dir, m_enabled_mmap = mmap, m_xml_files_list = []\<rparr>
      in bindr (read_xml_files env m) (\<lambda>(_, m1). Inr m1))"

text \<open>The mappings the destructor gives back.\<close>

(* src/cpp/bitstream_manager.cc:387-402 BitstreamManager::~BitstreamManager *)
definition delete_BitstreamManager :: "bitstream_manager \<Rightarrow> string list" where
  "delete_BitstreamManager m = (if m_enabled_mmap m then map snd (m_kernel_mmap_ptr_map m) else [])"

lemma mapped_files_unmapped:
  "m_enabled_mmap m \<Longrightarrow> map_of (m_kernel_mmap_ptr_map m) f = Some t \<Longrightarrow> t \<in> set (delete_BitstreamManager m)"
  by (force simp: delete_BitstreamManager_def dest: map_of_SomeD)

section \<open>Questions of the OpenCL layer\<close>

(* src/cpp/bitstream_check.h:23-27 BitstreamCheck::BitstreamCheck *)
definition new_BitstreamCheck :: "string list \<Rightarrow> string set" where
  "new_BitstreamCheck names = set names"

(* src/cpp/bitstream_check.h:29-32 BitstreamCheck::check_bitstream_exists *)
definition check_bitstream_exists :: "string set \<Rightarrow> string \<Rightarrow> bool" where
  "check_bitstream_exists c xml_file_name \<longleftrightarrow> xml_file_name \<in> c"

(* src/cpp/bitstream_check.h:37-56 WorkGroupSizeCheck::WorkGroupSizeCheck *)
definition new_WorkGroupSizeCheck :: "(string, bitstream_s) smap \<Rightarrow> (string, u64) smap" where
  "new_WorkGroupSizeCheck entries =
     foldl (\<lambda>sizes (name, entry).
       let wg = ucast (wgroup_size entry)
       in if wg > 0 then smap_insert name wg sizes else sizes) [] entries"

(* src/cpp/bitstream_check.h:58-70 WorkGroupSizeCheck::check_wg_size *)
definition check_wg_size :: "(string, u64) smap \<Rightarrow> string \<Rightarrow> u64 \<Rightarrow> bool" where
  "check_wg_size c xml_file_name wg_size =
     (case map_of c xml_file_name of None \<Rightarrow> False | Some s \<Rightarrow> wg_size = s)"

section \<open>Costs\<close>

(* src/cpp/tracker.h:15-28 Tracker *)
record tracker =
  m_wg_cost_mapping :: "(string, u32 list) smap"
  m_reconf_cost_mapping :: "(string, u32 list) smap"

text \<open>The schedulers are seen through \<open>is_local\<close>, in the order of the vector.\<close>

(* src/cpp/tracker.cc:6-43 Tracker::Tracker *)
definition new_Tracker :: "bitstream_manager \<Rightarrow> bool list \<Rightarrow> tracker" where
  "new_Tracker bits is_local =
     foldl (\<lambda>t (name, b).
       let costs = map (\<lambda>l. if l then local_cost b else remote_cost b) is_local
       in t\<lparr>m_wg_cost_mapping := smap_insert name costs (m_wg_cost_mapping t)\<rparr>)
     \<lparr>m_wg_cost_mapping = [], m_reconf_cost_mapping = []\<rparr>
     (m_kernel_bitstream_struct_map bits)"

text \<open>\<open>vector::at\<close>.\<close>

definition vec_at :: "'a list \<Rightarrow> nat \<Rightarrow> 'a res" where
  "vec_at v i = (if i < length v then Inr (v ! i) else Inl Out_of_range)"

text \<open>The result is an \<open>int\<close>: the low 32 bits, read as signed where the sign matters.\<close>

(* src/cpp/tracker.cc:45-62 Tracker::get_wg_cost_on_island *)
definition get_wg_cost_on_island :: "tracker \<Rightarrow> u32 \<Rightarrow> string \<Rightarrow> u32 res" where
  "get_wg_cost_on_island t island_num kernel_name =
     (case map_of (m_wg_cost_mapping t) kernel_name of
        None \<Rightarrow> Inr 1000
      | Some costs \<Rightarrow> vec_at costs (unat island_num))"

(* src/cpp/tracker.cc:64-82 Tracker::get_reconf_cost_on_island *)
definition get_reconf_cost_on_island :: "tracker \<Rightarrow> u32 \<Rightarrow> string \<Rightarrow> u32 res" where
  "get_reconf_cost_on_island t island_num kernel_name =
     (case map_of (m_reconf_cost_mapping t) kernel_name of
        None \<Rightarrow> Inr 1000
      | Some costs \<Rightarrow> vec_at costs (unat island_num))"

section \<open>Facts\<close>

definition is_description :: "string \<Rightarrow> bool" where
  "is_description s \<longleftrightarrow> \<not> is_hidden s \<and> 4 \<le> length s \<and> drop (length s - 4) s = ''.xml''"

definition names_ok :: "string list \<Rightarrow> bool" where
  "names_ok names \<longleftrightarrow> (\<forall>s\<in>set names. is_hidden s \<or> 4 \<le> length s)"

definition full_path :: "bitstream_manager \<Rightarrow> string \<Rightarrow> string" where
  "full_path m s = m_working_dir_path m @ ''/'' @ s"

lemma last_four_ok: "4 \<le> length s \<Longrightarrow> last_four s = Inr (drop (length s - 4) s)"
  by (simp add: last_four_def)

lemma read_names_ok:
  assumes "names_ok names"
    and "m_enabled_mmap m \<longrightarrow> (\<forall>s\<in>set names. is_description s \<longrightarrow> env_mmap env (full_path m s) \<noteq> None)"
  shows "read_names env names m = Inr (ML_SUCCESS,
    m\<lparr>m_xml_files_list := m_xml_files_list m @ filter is_description names,
      m_kernel_mmap_ptr_map :=
        (if m_enabled_mmap m
         then fold (\<lambda>s. smap_assign s (the (env_mmap env (full_path m s))))
                (filter is_description names) (m_kernel_mmap_ptr_map m)
         else m_kernel_mmap_ptr_map m)\<rparr>)"
  using assms
proof (induction names arbitrary: m)
  case Nil
  then show ?case by simp
next
  case (Cons s names)
  have ok: "names_ok names" using Cons.prems(1) by (simp add: names_ok_def)
  consider "is_hidden s" | "\<not> is_hidden s" "4 \<le> length s" "drop (length s - 4) s \<noteq> ''.xml''"
    | "is_description s"
    using Cons.prems(1) by (auto simp: names_ok_def is_description_def)
  then show ?case
  proof cases
    case 1
    then show ?thesis using Cons.IH [OF ok, of m] Cons.prems(2) by (simp add: is_description_def)
  next
    case 2
    then show ?thesis using Cons.IH [OF ok, of m] Cons.prems(2)
      by (simp add: is_description_def last_four_ok)
  next
    case 3
    then have s: "\<not> is_hidden s" "last_four s = Inr ''.xml''"
      by (simp_all add: is_description_def last_four_ok)
    let ?m1 = "m\<lparr>m_xml_files_list := m_xml_files_list m @ [s]\<rparr>"
    show ?thesis
    proof (cases "m_enabled_mmap m")
      case False
      then show ?thesis using s 3 Cons.IH [OF ok, of ?m1] by (simp add: Let_def)
    next
      case True
      then obtain t where t: "env_mmap env (full_path m s) = Some t" using Cons.prems(2) 3 by auto
      let ?m2 = "?m1\<lparr>m_kernel_mmap_ptr_map := smap_assign s t (m_kernel_mmap_ptr_map ?m1)\<rparr>"
      have "read_names env names ?m2 = Inr (ML_SUCCESS,
        ?m2\<lparr>m_xml_files_list := m_xml_files_list ?m2 @ filter is_description names,
          m_kernel_mmap_ptr_map :=
            (if m_enabled_mmap ?m2
             then fold (\<lambda>s. smap_assign s (the (env_mmap env (full_path ?m2 s))))
                    (filter is_description names) (m_kernel_mmap_ptr_map ?m2)
             else m_kernel_mmap_ptr_map ?m2)\<rparr>)"
        using True Cons.prems(2) by (intro Cons.IH [OF ok]) (simp add: full_path_def)
      then show ?thesis using True s 3 t by (simp add: full_path_def)
    qed
  qed
qed

text \<open>A short visible name ends the constructor with an exception.\<close>

lemma read_names_short:
  assumes "names_ok pre" and "\<not> is_hidden s" and "length s < 4" and "\<not> m_enabled_mmap m"
  shows "read_names env (pre @ s # post) m = Inl Out_of_range"
  using assms
proof (induction pre arbitrary: m)
  case Nil
  then show ?case by (simp add: last_four_def)
next
  case (Cons x pre)
  then have "names_ok pre" and x: "is_hidden x \<or> 4 \<le> length x" by (simp_all add: names_ok_def)
  with Cons show ?case by (auto simp: last_four_ok Let_def)
qed

lemma extract_files_ok:
  assumes "\<forall>f\<in>set fs. load_description env m f \<noteq> None"
  shows "extract_files env fs m = (ML_SUCCESS, m\<lparr>m_kernel_bitstream_struct_map :=
    fold (\<lambda>f. smap_assign f (extract_bitstream (m_enabled_mmap m) (the (load_description env m f))))
      fs (m_kernel_bitstream_struct_map m)\<rparr>)"
  using assms
proof (induction fs arbitrary: m)
  case Nil
  then show ?case by simp
next
  case (Cons f fs)
  then obtain doc where doc: "load_description env m f = Some doc" by auto
  let ?m1 = "m\<lparr>m_kernel_bitstream_struct_map :=
    smap_assign f (extract_bitstream (m_enabled_mmap m) doc) (m_kernel_bitstream_struct_map m)\<rparr>"
  have ld: "load_description env ?m1 = load_description env m"
    by (simp add: load_description_def fun_eq_iff)
  have e: "extract_xml_file env m f = (ML_SUCCESS, ?m1)"
    using doc by (simp add: extract_xml_file_def)
  have "extract_files env fs ?m1 = (ML_SUCCESS, ?m1\<lparr>m_kernel_bitstream_struct_map :=
    fold (\<lambda>f. smap_assign f (extract_bitstream (m_enabled_mmap ?m1) (the (load_description env ?m1 f))))
      fs (m_kernel_bitstream_struct_map ?m1)\<rparr>)"
    using Cons.prems by (intro Cons.IH) (simp add: ld)
  then show ?case by (simp add: e ld doc)
qed

text \<open>The document behind a path in either mode.\<close>

definition document :: "bs_env \<Rightarrow> bool \<Rightarrow> string \<Rightarrow> xml_handle" where
  "document env mmap p =
     (if mmap then (case env_mmap env p of None \<Rightarrow> None | Some t \<Rightarrow> env_load_string env t)
      else env_load_file env p)"

definition empty_manager :: "string \<Rightarrow> bool \<Rightarrow> bitstream_manager" where
  "empty_manager dir mmap =
     \<lparr>m_kernel_bitstream_struct_map = [], m_kernel_mmap_ptr_map = [], m_working_dir_path = dir,
      m_enabled_mmap = mmap, m_xml_files_list = []\<rparr>"

lemma new_BitstreamManager_read:
  assumes "snd (get_value_for_key_str config ''BitstreamsPath'' None) = Some dir"
    and "snd (get_value_for_key_bool config ''EnableBitstreamMmap'' False) = mmap"
  shows "new_BitstreamManager env config =
    bindr (read_xml_files env (empty_manager dir mmap)) (\<lambda>(_, m1). Inr m1)"
  using assms by (simp add: new_BitstreamManager_def empty_manager_def)

lemma read_xml_files_ok:
  assumes dir: "env_readdir env dir = Some names" and ok: "names_ok names"
    and docs: "\<forall>s\<in>set names. is_description s \<longrightarrow> document env mmap (dir @ ''/'' @ s) \<noteq> None"
  shows "\<exists>m. read_xml_files env (empty_manager dir mmap) = Inr (ML_SUCCESS, m) \<and>
    m_enabled_mmap m = mmap \<and> m_xml_files_list m = filter is_description names \<and>
    smap_wf (m_kernel_bitstream_struct_map m) \<and>
    (\<forall>f. map_of (m_kernel_bitstream_struct_map m) f =
      (if f \<in> set (filter is_description names)
       then Some (extract_bitstream mmap (the (document env mmap (dir @ ''/'' @ f)))) else None)) \<and>
    (mmap \<longrightarrow> (\<forall>f. map_of (m_kernel_mmap_ptr_map m) f =
      (if f \<in> set (filter is_description names) then env_mmap env (dir @ ''/'' @ f) else None)))"
proof -
  let ?fs = "filter is_description names" and ?m0 = "empty_manager dir mmap"
  have fp: "full_path ?m0 f = dir @ ''/'' @ f" for f by (simp add: full_path_def empty_manager_def)
  have mm: "m_enabled_mmap ?m0 = mmap" by (simp add: empty_manager_def)
  have flds: "m_xml_files_list ?m0 = []" "m_kernel_mmap_ptr_map ?m0 = []"
    by (simp_all add: empty_manager_def)
  have mapped: "mmap \<longrightarrow> (\<forall>s\<in>set names. is_description s \<longrightarrow> env_mmap env (dir @ ''/'' @ s) \<noteq> None)"
    using docs by (auto simp: document_def split: option.splits)
  define ptrs where "ptrs = (if mmap
    then fold (\<lambda>s. smap_assign s (the (env_mmap env (dir @ ''/'' @ s)))) ?fs [] else [])"
  define m1 where "m1 = ?m0\<lparr>m_xml_files_list := ?fs, m_kernel_mmap_ptr_map := ptrs\<rparr>"
  have r: "read_names env names ?m0 = Inr (ML_SUCCESS, m1)"
    unfolding m1_def ptrs_def
    by (subst read_names_ok [OF ok]) (use mapped in \<open>simp_all only: mm fp flds append_Nil\<close>)
  have pl: "map_of ptrs f = (if f \<in> set ?fs then env_mmap env (dir @ ''/'' @ f) else None)" if mmap for f
    using that mapped by (auto simp: ptrs_def smap_st.look_puts)
  have ld: "load_description env m1 f = document env mmap (dir @ ''/'' @ f)" if "f \<in> set ?fs" for f
  proof (cases mmap)
    case True
    then show ?thesis using pl [of f] that
      by (simp add: load_description_def document_def m1_def empty_manager_def)
  next
    case False
    then show ?thesis by (simp add: load_description_def document_def m1_def empty_manager_def)
  qed
  let ?g = "\<lambda>f. extract_bitstream mmap (the (document env mmap (dir @ ''/'' @ f)))"
  have "extract_files env ?fs m1 = (ML_SUCCESS, m1\<lparr>m_kernel_bitstream_struct_map :=
    fold (\<lambda>f. smap_assign f (extract_bitstream (m_enabled_mmap m1) (the (load_description env m1 f))))
      ?fs (m_kernel_bitstream_struct_map m1)\<rparr>)"
    using ld docs by (intro extract_files_ok) auto
  also have "fold (\<lambda>f. smap_assign f (extract_bitstream (m_enabled_mmap m1) (the (load_description env m1 f))))
      ?fs (m_kernel_bitstream_struct_map m1) = fold (\<lambda>f. smap_assign f (?g f)) ?fs []"
    using ld by (intro fold_cong) (simp_all add: m1_def empty_manager_def)
  finally have e: "extract_files env ?fs m1 = (ML_SUCCESS,
      m1\<lparr>m_kernel_bitstream_struct_map := fold (\<lambda>f. smap_assign f (?g f)) ?fs []\<rparr>)" .
  have "read_xml_files env ?m0 = Inr (ML_SUCCESS,
      m1\<lparr>m_kernel_bitstream_struct_map := fold (\<lambda>f. smap_assign f (?g f)) ?fs []\<rparr>)"
    using r dir e by (simp add: read_xml_files_def get_xml_files_list_def m1_def) (simp add: empty_manager_def)
  then show ?thesis
    using pl by (auto simp: m1_def empty_manager_def smap_st.look_puts intro: smap_st.puts_ok)
qed

lemma wg_size_pos: "(ucast (x :: u32) :: u64) = 0 \<longleftrightarrow> x = 0"
  using unat_bound32 [of x] by (simp add: word_unat_eq_iff unat_ucast_small)

lemma wg_size_table:
  "smap_wf es \<Longrightarrow> map_of (new_WorkGroupSizeCheck es) k =
    (case map_of es k of None \<Rightarrow> None
     | Some e \<Rightarrow> if wgroup_size e = 0 then None else Some (ucast (wgroup_size e)))"
proof -
  assume wf: "smap_wf es"
  let ?g = "\<lambda>e. if wgroup_size e = 0 then None else Some (ucast (wgroup_size e) :: u64)"
  have z: "(ucast (x :: u32) :: u64) > 0 \<longleftrightarrow> x \<noteq> 0" for x
    by (simp add: word_gt_0 wg_size_pos)
  have "new_WorkGroupSizeCheck es =
    foldl (\<lambda>s (k, e). case ?g e of None \<Rightarrow> s | Some v \<Rightarrow> smap_insert k v s) [] es"
    unfolding new_WorkGroupSizeCheck_def
    by (intro foldl_cong) (auto simp: Let_def z)
  then show ?thesis
    using smap_fw.look_table [of "[]" es ?g k] smap_wf_distinct [OF wf] by simp
qed

lemma cost_table:
  "smap_wf (m_kernel_bitstream_struct_map b) \<Longrightarrow>
    map_of (m_wg_cost_mapping (new_Tracker b ls)) k =
      map_option (\<lambda>e. map (\<lambda>l. if l then local_cost e else remote_cost e) ls)
        (map_of (m_kernel_bitstream_struct_map b) k)
    \<and> m_reconf_cost_mapping (new_Tracker b ls) = []"
proof -
  assume wf: "smap_wf (m_kernel_bitstream_struct_map b)"
  let ?g = "\<lambda>e. map (\<lambda>l. if l then local_cost e else remote_cost e) ls"
  have "foldl (\<lambda>t (name, b). let costs = ?g b
       in t\<lparr>m_wg_cost_mapping := smap_insert name costs (m_wg_cost_mapping t)\<rparr>)
     \<lparr>m_wg_cost_mapping = c, m_reconf_cost_mapping = []\<rparr> es =
     \<lparr>m_wg_cost_mapping =
        foldl (\<lambda>s (k, e). case Some (?g e) of None \<Rightarrow> s | Some v \<Rightarrow> smap_insert k v s) c es,
      m_reconf_cost_mapping = []\<rparr>" for c es
    by (induction es arbitrary: c) auto
  then have t: "new_Tracker b ls = \<lparr>m_wg_cost_mapping =
        foldl (\<lambda>s (k, e). case Some (?g e) of None \<Rightarrow> s | Some v \<Rightarrow> smap_insert k v s) []
          (m_kernel_bitstream_struct_map b), m_reconf_cost_mapping = []\<rparr>"
    by (simp only: new_Tracker_def)
  show ?thesis unfolding t
    using smap_fw.look_table [of "[]" "m_kernel_bitstream_struct_map b" "\<lambda>e. Some (?g e)" k]
      smap_wf_distinct [OF wf] by (simp split: option.splits)
qed

section \<open>Properties\<close>

text \<open>C22: When every visible name of the directory has at least four characters and every \<open>.xml\<close>
  file of it loads, the constructor succeeds and the manager knows exactly those files, each
  under its name with what its document says, whether the files are mapped or read.\<close>
theorem bitstream_manager_reads_directory:
  assumes "snd (get_value_for_key_str config ''BitstreamsPath'' None) = Some dir"
    and "snd (get_value_for_key_bool config ''EnableBitstreamMmap'' False) = mmap"
    and "env_readdir env dir = Some names" and "names_ok names"
    and "\<forall>s\<in>set names. is_description s \<longrightarrow> document env mmap (dir @ ''/'' @ s) \<noteq> None"
  shows "\<exists>m. new_BitstreamManager env config = Inr m \<and>
    m_xml_files_list m = filter is_description names \<and>
    (\<forall>f. map_of (m_kernel_bitstream_struct_map m) f =
      (if f \<in> set names \<and> is_description f
       then Some (extract_bitstream mmap (the (document env mmap (dir @ ''/'' @ f)))) else None))"
  using read_xml_files_ok [OF assms(3-5)] new_BitstreamManager_read [OF assms(1,2), of env] by auto

definition demo_config :: "string \<Rightarrow> wee_config" where
  "demo_config mmap = \<lparr>m_top_node = Some (Element ''C''
     [Element ''BitstreamsPath'' [Pcdata ''d''], Element ''EnableBitstreamMmap'' [Pcdata mmap]])\<rparr>"

definition demo_doc :: xml_node where
  "demo_doc = Element [] [Element ''data''
     [Element ''header''
       [Element ''target'' [Pcdata ''t''], Element ''num_accelerators'' [Pcdata ''4''],
        Element ''workgroup_size'' [Pcdata ''16''], Element ''local_cost'' [Pcdata ''5''],
        Element ''remote_cost'' [Pcdata ''9''], Element ''resource-string'' [Pcdata ''CCD''],
        Element ''n_args'' [Pcdata ''2''], Element ''offset_address_0'' [Pcdata ''0x10''],
        Element ''offset_address_1'' [Pcdata ''0x1C'']],
      Element ''body'' [Element ''length'' [Pcdata ''3''], Element ''bitstream'' [Pcdata ''abc'']]]]"

definition demo_env :: bs_env where
  "demo_env = \<lparr>env_readdir = (\<lambda>d. if d = ''d'' then Some [''.'', ''..'', ''k.xml'', ''notes''] else None),
     env_mmap = (\<lambda>p. if p = ''d/k.xml'' then Some ''text'' else None),
     env_load_file = (\<lambda>p. if p = ''d/k.xml'' then Some demo_doc else None),
     env_load_string = (\<lambda>t. if t = ''text'' then Some demo_doc else None)\<rparr>"

lemma demo_env_facts:
  "snd (get_value_for_key_str (demo_config b) ''BitstreamsPath'' None) = Some ''d''"
  "snd (get_value_for_key_bool (demo_config ''true'') ''EnableBitstreamMmap'' False) = True"
  "snd (get_value_for_key_bool (demo_config ''false'') ''EnableBitstreamMmap'' False) = False"
  "env_readdir demo_env ''d'' = Some [''.'', ''..'', ''k.xml'', ''notes'']"
  "names_ok [''.'', ''..'', ''k.xml'', ''notes'']"
  "filter is_description [''.'', ''..'', ''k.xml'', ''notes''] = [''k.xml'']"
  "document demo_env mmap ''d/k.xml'' = Some demo_doc"
  by (simp_all add: demo_config_def get_value_for_key_str_def get_value_for_key_bool_def
      demo_env_def names_ok_def is_hidden_def is_description_def document_def)

lemma demo_docs:
  "\<forall>s\<in>set [''.'', ''..'', ''k.xml'', ''notes'']. is_description s \<longrightarrow>
     document demo_env mmap (''d'' @ ''/'' @ s) \<noteq> None"
  using demo_env_facts(7) by (simp add: is_description_def is_hidden_def)

theorem bitstream_manager_reads_directory_witness:
  "\<exists>m b. new_BitstreamManager demo_env (demo_config ''true'') = Inr m \<and>
    m_xml_files_list m = [''k.xml''] \<and>
    map_of (m_kernel_bitstream_struct_map m) ''k.xml'' = Some b \<and>
    resource_string b = ''CCD'' \<and> wgroup_size b = 16 \<and> offset_address b = [16, 28] \<and>
    map_of (m_kernel_bitstream_struct_map m) ''notes'' = None"
proof -
  have e: "resource_string (extract_bitstream True demo_doc) = ''CCD''"
    "wgroup_size (extract_bitstream True demo_doc) = 16"
    "offset_address (extract_bitstream True demo_doc) = [16, 28]"
    by (simp_all add: extract_bitstream_def demo_doc_def data_header_def data_body_def atoi_def
        strtoul_def read_integer_def c_space_def digit_val_def upt_rec to_string_01)
  show ?thesis
    using bitstream_manager_reads_directory [OF demo_env_facts(1,2,4,5) demo_docs] e
    by (auto simp: demo_env_facts(6,7) is_description_def is_hidden_def)
qed

text \<open>C23: Mapping the files or reading them makes no difference to a user of the manager: when
  parsing a file and parsing its mapped text give the same document, every bitstream query, for
  known and unknown kernels, has the same answer in both modes.\<close>
theorem bitstream_modes_agree:
  assumes "env_readdir env dir = Some names" and "names_ok names"
    and "\<forall>p. env_load_file env p = document env True p"
    and "\<forall>s\<in>set names. is_description s \<longrightarrow> document env True (dir @ ''/'' @ s) \<noteq> None"
    and "read_xml_files env (empty_manager dir True) = Inr (r1, m1)"
    and "read_xml_files env (empty_manager dir False) = Inr (r2, m2)"
  shows "get_bit_stream env m1 fname v = get_bit_stream env m2 fname v"
proof -
  let ?D = "\<lambda>f. the (document env True (dir @ ''/'' @ f))"
  have same: "document env False p = document env True p" for p
    using assms(3) by (simp add: document_def)
  have d2: "\<forall>s\<in>set names. is_description s \<longrightarrow> document env False (dir @ ''/'' @ s) \<noteq> None"
    using assms(4) by (simp only: same)
  have m1: "m_enabled_mmap m1" "map_of (m_kernel_mmap_ptr_map m1) fname =
      (if fname \<in> set (filter is_description names) then env_mmap env (dir @ ''/'' @ fname) else None)"
    using read_xml_files_ok [OF assms(1,2,4)] assms(5) by auto
  have m2: "\<not> m_enabled_mmap m2" "map_of (m_kernel_bitstream_struct_map m2) fname =
      (if fname \<in> set (filter is_description names)
       then Some (extract_bitstream False (?D fname)) else None)"
    using read_xml_files_ok [OF assms(1,2) d2] assms(6) by (auto simp: same)
  show ?thesis
  proof (cases "fname \<in> set (filter is_description names)")
    case False
    have "map_of (m_kernel_mmap_ptr_map m1) fname = None"
      "map_of (m_kernel_bitstream_struct_map m2) fname = None"
      unfolding m1(2) m2(2) by (simp_all only: if_not_P [OF False])
    then show ?thesis using m1(1) m2(1) by (simp add: get_bit_stream_def)
  next
    case True
    then obtain doc where doc: "document env True (dir @ ''/'' @ fname) = Some doc"
      using assms(4) by auto
    then obtain t where "env_mmap env (dir @ ''/'' @ fname) = Some t" "env_load_string env t = Some doc"
      by (auto simp: document_def split: option.splits)
    then show ?thesis using True m1 m2 doc
      by (simp add: get_bit_stream_def extract_bitstream_def data_body_def)
  qed
qed

theorem bitstream_modes_agree_witness:
  "\<exists>m1 m2. read_xml_files demo_env (empty_manager ''d'' True) = Inr (ML_SUCCESS, m1) \<and>
    read_xml_files demo_env (empty_manager ''d'' False) = Inr (ML_SUCCESS, m2) \<and>
    get_bit_stream demo_env m1 ''k.xml'' [] = get_bit_stream demo_env m2 ''k.xml'' []"
proof -
  obtain m1 m2 where r: "read_xml_files demo_env (empty_manager ''d'' True) = Inr (ML_SUCCESS, m1)"
    "read_xml_files demo_env (empty_manager ''d'' False) = Inr (ML_SUCCESS, m2)"
    using read_xml_files_ok [OF demo_env_facts(4,5) demo_docs] by metis
  have l: "\<forall>p. env_load_file demo_env p = document demo_env True p"
    by (simp add: document_def demo_env_def)
  show ?thesis
    using bitstream_modes_agree [OF demo_env_facts(4,5) l demo_docs r] r by blast
qed

text \<open>A visible name of fewer than four characters makes the constructor throw
  \<open>std::out_of_range\<close>: \<open>stmp.size() - 4\<close> wraps, and \<open>substr\<close> refuses the position.\<close>
theorem bitstream_manager_short_name_throws:
  assumes "snd (get_value_for_key_str config ''BitstreamsPath'' None) = Some dir"
    and "snd (get_value_for_key_bool config ''EnableBitstreamMmap'' False) = False"
    and "env_readdir env dir = Some (pre @ s # post)" and "names_ok pre"
    and "\<not> is_hidden s" and "length s < 4"
  shows "new_BitstreamManager env config = Inl Out_of_range"
proof -
  have "read_names env (pre @ s # post) (empty_manager dir False) = Inl Out_of_range"
    using assms by (intro read_names_short) (simp_all add: empty_manager_def)
  then have "read_xml_files env (empty_manager dir False) = Inl Out_of_range"
    using assms(3) by (simp add: read_xml_files_def get_xml_files_list_def empty_manager_def)
  then show ?thesis by (simp add: new_BitstreamManager_read [OF assms(1,2)])
qed

theorem bitstream_manager_short_name_throws_witness:
  "new_BitstreamManager (demo_env\<lparr>env_readdir := (\<lambda>d. Some [''.'', ''a.c'', ''k.xml''])\<rparr>)
     (demo_config ''false'') = Inl Out_of_range"
  using bitstream_manager_short_name_throws [OF demo_env_facts(1,3),
      of "demo_env\<lparr>env_readdir := (\<lambda>d. Some [''.'', ''a.c'', ''k.xml''])\<rparr>" "[''.'']" "''a.c''" "[''k.xml'']"]
  by (simp add: names_ok_def is_hidden_def)

text \<open>The OpenCL layer's check of a local work size accepts exactly the size the kernel's
  description names, and nothing for a kernel that is unknown or whose description names none
  (or zero).\<close>
theorem work_group_size_check:
  assumes "smap_wf (m_kernel_bitstream_struct_map b)"
  shows "check_wg_size (new_WorkGroupSizeCheck (m_kernel_bitstream_struct_map b)) kname sz \<longleftrightarrow>
    (\<exists>e. map_of (m_kernel_bitstream_struct_map b) kname = Some e \<and> sz \<noteq> 0 \<and>
      sz = ucast (wgroup_size e))"
  using wg_size_table [OF assms, of kname]
  by (auto simp: check_wg_size_def wg_size_pos split: option.splits if_splits)

theorem work_group_size_check_witness:
  "check_wg_size (new_WorkGroupSizeCheck [(''k'', extract_bitstream True demo_doc)]) ''k'' 16 \<and>
   \<not> check_wg_size (new_WorkGroupSizeCheck [(''k'', extract_bitstream True demo_doc)]) ''k'' 0"
proof -
  let ?b = "(empty_manager [] True)\<lparr>m_kernel_bitstream_struct_map := [(''k'', extract_bitstream True demo_doc)]\<rparr>"
  have wf: "smap_wf (m_kernel_bitstream_struct_map ?b)" by simp
  have "wgroup_size (extract_bitstream True demo_doc) = 16"
    by (simp add: extract_bitstream_def demo_doc_def data_header_def atoi_def
        read_integer_def c_space_def digit_val_def)
  then show ?thesis
    using work_group_size_check [OF wf, of "''k''" 16] work_group_size_check [OF wf, of "''k''" 0]
    by simp
qed

text \<open>C36: The tracker prices a work group of a known kernel with the description's local cost on
  a local scheduler and its remote cost on any other, refuses a scheduler number past the end,
  and prices an unknown kernel 1000. It never records a reconfiguration cost: that is 1000 for
  every kernel on every scheduler.\<close>
theorem tracker_costs:
  assumes "smap_wf (m_kernel_bitstream_struct_map b)"
  shows "get_wg_cost_on_island (new_Tracker b ls) i kname =
    (case map_of (m_kernel_bitstream_struct_map b) kname of
       None \<Rightarrow> Inr 1000
     | Some e \<Rightarrow>
         (if unat i < length ls
          then Inr (if ls ! unat i then local_cost e else remote_cost e)
          else Inl Out_of_range))
   \<and> get_reconf_cost_on_island (new_Tracker b ls) i kname = Inr 1000"
  using cost_table [OF assms, of ls kname]
  by (simp add: get_wg_cost_on_island_def get_reconf_cost_on_island_def vec_at_def
      split: option.splits)

theorem tracker_costs_witness:
  "get_wg_cost_on_island (new_Tracker ((empty_manager [] True)
      \<lparr>m_kernel_bitstream_struct_map := [(''k'', extract_bitstream True demo_doc)]\<rparr>) [True, False]) 1 ''k''
    = Inr 9"
proof -
  let ?b = "(empty_manager [] True)\<lparr>m_kernel_bitstream_struct_map := [(''k'', extract_bitstream True demo_doc)]\<rparr>"
  have wf: "smap_wf (m_kernel_bitstream_struct_map ?b)" by simp
  have "remote_cost (extract_bitstream True demo_doc) = 9"
    by (simp add: extract_bitstream_def demo_doc_def data_header_def atoi_def
        read_integer_def c_space_def digit_val_def)
  then show ?thesis using tracker_costs [OF wf, of "[True, False]" 1 "''k''"] by simp
qed

end
