(* ===== verification/Algo_Simple.thy ===== *)
theory Algo_Simple
  imports Algo_Search Scheduler Bitstreams
begin

text \<open>
  \<open>AlgoSimple::route_ndrange\<close> (\<^verbatim>\<open>cpp/algo_simple.cc\<close>): it prices every island, searches the
  cheapest distribution, then carves one range per island that gets work and submits it. The
  reconfiguration controller (\<^verbatim>\<open>cpp/reconf_controller.cc\<close>) is asked first whether an island is
  suitable. The schedulers, the index spaces and the loop's time are in a \<open>sched_state\<close>; the
  tracker is an argument.
\<close>

section \<open>Pricing the islands\<close>

(* src/cpp/reconf_controller.cc:7-40 ReconfController::check_resource_string *)
definition check_resource_string :: "u32 \<Rightarrow> string \<Rightarrow> string \<Rightarrow> bool" where
  "check_resource_string island_num res_string kernel_name = True"

text \<open>\<open>unsigned\<close> values are stored in vectors of \<open>int\<close>.\<close>

(* src/cpp/algo_simple.cc:161-192 AlgoSimple::route_ndrange (pricing loop) *)
definition fill_island ::
  "tracker \<Rightarrow> rat \<Rightarrow> scheduler list \<Rightarrow> string \<Rightarrow> string \<Rightarrow> nat \<Rightarrow> algo_simple \<Rightarrow> algo_simple res" where
  "fill_island tr now ss res_string kernel_name i a =
     bindr (vec_get ss i) (\<lambda>s.
       if \<not> check_resource_string (s_id s) res_string kernel_name
       then bindr (vec_set (m_wgs_per_islands a) i UNSUITABLE_ISLAND) (\<lambda>v1.
            bindr (vec_set (m_work_in_progress_cost a) i UNSUITABLE_ISLAND) (\<lambda>v2.
            bindr (vec_set (m_current_work_potential_cost a) i UNSUITABLE_ISLAND) (\<lambda>v3.
            bindr (vec_set (m_current_work_reconf_cost a) i UNSUITABLE_ISLAND) (\<lambda>v4.
            bindr (vec_set (m_result a) i UNSUITABLE_ISLAND) (\<lambda>v5.
              Inr (a\<lparr>m_wgs_per_islands := v1, m_work_in_progress_cost := v2,
                     m_current_work_potential_cost := v3, m_current_work_reconf_cost := v4,
                     m_result := v5\<rparr>))))))
       else bindr (vec_set (m_wgs_per_islands a) i 0) (\<lambda>v1.
            bindr (get_remaining_time now s) (\<lambda>t.
            bindr (vec_set (m_work_in_progress_cost a) i (sint t)) (\<lambda>v2.
            bindr (if would_need_reconf s kernel_name
                   then get_reconf_cost_on_island tr (of_nat i) kernel_name else Inr 0) (\<lambda>r.
            bindr (vec_set (m_current_work_reconf_cost a) i (sint r)) (\<lambda>v4.
            bindr (get_wg_cost_on_island tr (of_nat i) kernel_name) (\<lambda>c.
            bindr (vec_set (m_current_work_potential_cost a) i (sint c)) (\<lambda>v3.
            bindr (vec_set (m_result a) i 0) (\<lambda>v5.
              Inr (a\<lparr>m_wgs_per_islands := v1, m_work_in_progress_cost := v2,
                     m_current_work_potential_cost := v3, m_current_work_reconf_cost := v4,
                     m_result := v5\<rparr>))))))))))"

section \<open>The log line\<close>

text \<open>What \<open>sprintf\<close> prints for \<open>"%04d|"\<close>, and the bytes of the whole line with its NUL.\<close>

fun digits :: "nat \<Rightarrow> nat" where
  "digits n = (if n < 10 then 1 else 1 + digits (n div 10))"

declare digits.simps [simp del]

definition field_width :: "int \<Rightarrow> nat" where
  "field_width x = max 4 ((if x < 0 then 1 else 0) + digits (nat \<bar>x\<bar>)) + 1"

(* src/cpp/algo_simple.cc:206-214 AlgoSimple::route_ndrange (log line) *)
definition log_line_bytes :: "int list \<Rightarrow> nat" where
  "log_line_bytes result =
     length ''AlgoSimple routing distribution is:|'' + sum_list (map field_width result) + 2"

section \<open>Carving and submitting\<close>

(* src/cpp/algo_simple.cc:216-228 AlgoSimple::route_ndrange (submission loop) *)
definition carve_island :: "libev \<Rightarrow> ptr \<Rightarrow> algo_simple \<Rightarrow> nat \<Rightarrow> sched_state \<Rightarrow> sched_state res" where
  "carve_island lv p a i w =
     bindr (vec_get (m_result a) i) (\<lambda>r.
       if r = UNSUITABLE_ISLAND \<or> r = 0 then Inr w
       else bindr (carve_at (ss_store w) p (word_of_int r)) (\<lambda>(wgr, st).
            bindr (vec_get (m_current_work_potential_cost a) i) (\<lambda>c.
            bindr (vec_get (m_current_work_reconf_cost a) i) (\<lambda>rc.
            bindr (c_int (r * c)) (\<lambda>x. bindr (c_int (x + rc)) (\<lambda>cost.
              submit_wgr lv i (wgr\<lparr>w_execution_cost := word_of_int cost\<rparr>)
                (w\<lparr>ss_store := st\<rparr>)))))))"

text \<open>
  The number of groups goes through \<open>size_t\<close> to the search's \<open>int\<close>. The buffer of the log line
  has 1024 bytes.
\<close>

(* src/cpp/algo_simple.cc:141-230 AlgoSimple::route_ndrange *)
definition simple_route_ndrange ::
  "libev \<Rightarrow> tracker \<Rightarrow> ptr option \<Rightarrow> algo_simple \<Rightarrow> sched_state \<Rightarrow> (RC \<times> algo_simple \<times> sched_state) res" where
  "simple_route_ndrange lv tr ndrange a w =
     (case ndrange of
        None \<Rightarrow> Inr (ML_WRONG_PARAM, a, w)
      | Some p \<Rightarrow>
          bindr (deref (ns_ndranges (ss_store w)) p) (\<lambda>nd.
          bindr (nd_get_kernel_name (ns_objs (ss_store w)) nd) (\<lambda>kernel_name.
          bindr (foldr_res (fill_island tr (ss_now w) (ss_schedulers w) (n_resource_string nd) kernel_name)
                   [0..<m_num_islands a] (a\<lparr>m_current_min := -1\<rparr>)) (\<lambda>a1.
          bindr (recursive_function (m_num_islands a1) a1 (sint (n_total_size nd)) 0) (\<lambda>a2.
            if log_line_bytes (m_result a2) > 1024 then Inl Out_of_bounds
            else bindr (foldr_res (carve_island lv p a2) [0..<m_num_islands a2] w) (\<lambda>w1.
                 bindr (deref (ns_ndranges (ss_store w1)) p) (\<lambda>nd1.
                   if has_more_wgs nd1 then Inl Assert_failed else Inr (ML_SUCCESS, a2, w1))))))))"

section \<open>Facts about pricing\<close>

lemma digits_bound: "n < 10 ^ k \<Longrightarrow> 0 < k \<Longrightarrow> digits n \<le> k"
proof (induction k arbitrary: n)
  case 0
  then show ?case by simp
next
  case (Suc k)
  show ?case
  proof (cases "n < 10")
    case True
    then show ?thesis by (subst digits.simps) simp
  next
    case False
    then have "0 < k" using Suc.prems by (cases k) auto
    moreover have "n div 10 < 10 ^ k" using Suc.prems(1) by simp
    ultimately have "digits (n div 10) \<le> k" by (intro Suc.IH)
    then show ?thesis using False by (subst digits.simps) simp
  qed
qed

lemma field_width_bound:
  assumes "0 \<le> x" and "x < 2 ^ 31"
  shows "field_width x \<le> 11"
proof -
  have "nat \<bar>x\<bar> < 10 ^ 10" using assms by simp
  then have "digits (nat \<bar>x\<bar>) \<le> 10" by (intro digits_bound) simp_all
  then show ?thesis using assms by (simp add: field_width_def)
qed

lemma log_line_fits:
  assumes "\<forall>x\<in>set d. 0 \<le> x \<and> x < 2 ^ 31" and "length d \<le> 89"
  shows "log_line_bytes d \<le> 1024"
proof -
  have "sum_list (map field_width d) \<le> sum_list (map (\<lambda>_. 11) d)"
    using assms(1) field_width_bound by (intro sum_list_mono) blast
  then show ?thesis using assms(2) by (simp add: log_line_bytes_def sum_list_triv)
qed

lemma prefix_set:
  assumes "k < length v"
  shows "(map f [0..<k] @ drop k v)[k := f k] = map f [0..<Suc k] @ drop (Suc k) v"
  using assms by (simp add: list_update_append Cons_nth_drop_Suc [symmetric])

text \<open>The prices of an island.\<close>

definition price_remaining :: "sched_state \<Rightarrow> nat \<Rightarrow> int" where
  "price_remaining w i =
     (case get_remaining_time (ss_now w) (ss_schedulers w ! i) of Inl _ \<Rightarrow> 0 | Inr t \<Rightarrow> sint t)"

definition price_reconf :: "tracker \<Rightarrow> string \<Rightarrow> sched_state \<Rightarrow> nat \<Rightarrow> int" where
  "price_reconf tr name w i =
     (if would_need_reconf (ss_schedulers w ! i) name
      then (case get_reconf_cost_on_island tr (of_nat i) name of Inl _ \<Rightarrow> 0 | Inr t \<Rightarrow> sint t) else 0)"

definition price_wg :: "tracker \<Rightarrow> string \<Rightarrow> nat \<Rightarrow> int" where
  "price_wg tr name i = (case get_wg_cost_on_island tr (of_nat i) name of Inl _ \<Rightarrow> 0 | Inr t \<Rightarrow> sint t)"

text \<open>Every price is there, not negative, and \<open>K\<close> groups on one island cost an \<open>int\<close>.\<close>

definition prices_ok :: "tracker \<Rightarrow> string \<Rightarrow> sched_state \<Rightarrow> int \<Rightarrow> bool" where
  "prices_ok tr name w K \<longleftrightarrow> (\<forall>i<length (ss_schedulers w).
     is_ok (get_remaining_time (ss_now w) (ss_schedulers w ! i)) \<and>
     (would_need_reconf (ss_schedulers w ! i) name \<longrightarrow> is_ok (get_reconf_cost_on_island tr (of_nat i) name)) \<and>
     is_ok (get_wg_cost_on_island tr (of_nat i) name) \<and>
     0 \<le> price_remaining w i \<and> 0 \<le> price_reconf tr name w i \<and> 0 \<le> price_wg tr name i \<and>
     K * price_wg tr name i + price_remaining w i + price_reconf tr name w i < 2 ^ 31)"

text \<open>The completion time of a distribution: its slowest island that gets work.\<close>

definition makespan :: "tracker \<Rightarrow> string \<Rightarrow> sched_state \<Rightarrow> int list \<Rightarrow> int" where
  "makespan tr name w d =
     Max (insert 0 ((\<lambda>i. d ! i * price_wg tr name i + price_remaining w i + price_reconf tr name w i) `
       {i. i < length (ss_schedulers w) \<and> 0 < d ! i}))"

definition algo_wf :: "algo_simple \<Rightarrow> nat \<Rightarrow> bool" where
  "algo_wf a n \<longleftrightarrow> m_num_islands a = n \<and> length (m_wgs_per_islands a) = n \<and>
     length (m_work_in_progress_cost a) = n \<and> length (m_current_work_potential_cost a) = n \<and>
     length (m_current_work_reconf_cost a) = n \<and> length (m_result a) = n"

lemma new_AlgoSimple_wf: "algo_wf (new_AlgoSimple n) n"
  by (simp add: algo_wf_def new_AlgoSimple_def)

definition priced :: "tracker \<Rightarrow> string \<Rightarrow> sched_state \<Rightarrow> nat \<Rightarrow> algo_simple \<Rightarrow> algo_simple" where
  "priced tr name w k a = a\<lparr>
     m_wgs_per_islands := map (\<lambda>_. 0) [0..<k] @ drop k (m_wgs_per_islands a),
     m_work_in_progress_cost := map (price_remaining w) [0..<k] @ drop k (m_work_in_progress_cost a),
     m_current_work_potential_cost := map (price_wg tr name) [0..<k] @ drop k (m_current_work_potential_cost a),
     m_current_work_reconf_cost := map (price_reconf tr name w) [0..<k] @ drop k (m_current_work_reconf_cost a),
     m_result := map (\<lambda>_. 0) [0..<k] @ drop k (m_result a)\<rparr>"

lemma vec_set_prefix:
  "k < length v \<Longrightarrow> x = f k \<Longrightarrow>
    vec_set (map f [0..<k] @ drop k v) k x = Inr (map f [0..<Suc k] @ drop (Suc k) v)"
  using prefix_set [of k v f] by (simp add: vec_set_def)

lemma fill_islands:
  assumes "prices_ok tr name w K" and "algo_wf a (length (ss_schedulers w))"
    and "k \<le> length (ss_schedulers w)"
  shows "foldr_res (fill_island tr (ss_now w) (ss_schedulers w) rs name) [0..<k] a =
    Inr (priced tr name w k a)"
  using assms(3)
proof (induction k)
  case 0
  then show ?case by (simp add: priced_def)
next
  case (Suc k)
  then have k: "k < length (ss_schedulers w)" by simp
  then obtain t c where t: "get_remaining_time (ss_now w) (ss_schedulers w ! k) = Inr t"
      and c: "get_wg_cost_on_island tr (of_nat k) name = Inr c"
    using assms(1) by (auto simp: prices_ok_def is_ok_iff)
  have r: "\<exists>r. (if would_need_reconf (ss_schedulers w ! k) name
                   then get_reconf_cost_on_island tr (of_nat k) name else Inr 0) = Inr r \<and>
      sint r = price_reconf tr name w k"
    using assms(1) k by (fastforce simp: prices_ok_def is_ok_iff price_reconf_def)
  have pt: "sint t = price_remaining w k" and pc: "sint c = price_wg tr name k"
    by (simp_all add: price_remaining_def price_wg_def t c)
  have l: "k < length (m_wgs_per_islands a)" "k < length (m_work_in_progress_cost a)"
    "k < length (m_current_work_potential_cost a)" "k < length (m_current_work_reconf_cost a)"
    "k < length (m_result a)" using assms(2) k by (simp_all add: algo_wf_def)
  have f: "fill_island tr (ss_now w) (ss_schedulers w) rs name k (priced tr name w k a) =
      Inr (priced tr name w (Suc k) a)"
    using r k l
    by (auto simp: fill_island_def vec_get_def check_resource_string_def priced_def t c pt pc
        vec_set_prefix [where f = "\<lambda>_. 0"] vec_set_prefix [where f = "price_remaining w"]
        vec_set_prefix [where f = "price_wg tr name"] vec_set_prefix [where f = "price_reconf tr name w"]
        simp del: upt_Suc)
  show ?case using Suc.IH f k by (simp add: foldr_res_append)
qed

section \<open>Facts about the cost of a distribution\<close>

lemma fold_max_Max:
  fixes f :: "nat \<Rightarrow> int"
  shows "fold (\<lambda>i m. if P i then max m (f i) else m) is m = Max (insert m (f ` {i \<in> set is. P i}))"
proof (induction "is" arbitrary: m)
  case Nil
  then show ?case by simp
next
  case (Cons i "is")
  show ?case
  proof (cases "P i")
    case True
    define S where "S = f ` {j \<in> set is. P j}"
    have ins: "Max (insert (max a b) T) = Max (insert a (insert b T))" if "finite T" for a b :: int and T
      using that by (cases "T = {}") (simp_all add: max.assoc)
    have "Max (insert (max m (f i)) S) = Max (insert m (insert (f i) S))"
      by (rule ins) (simp add: S_def)
    moreover have "f ` {j \<in> set (i # is). P j} = insert (f i) S" using True by (auto simp: S_def)
    ultimately show ?thesis using Cons [of "max m (f i)"] True by (simp add: S_def)
  next
    case False
    then have "{j \<in> set (i # is). P j} = {j \<in> set is. P j}" by auto
    then show ?thesis using Cons [of m] False by simp
  qed
qed

lemma dist_cost_makespan:
  assumes "m_num_islands a = length (ss_schedulers w)"
  shows "dist_cost (priced tr name w (length (ss_schedulers w)) a) d = makespan tr name w d"
proof -
  let ?n = "length (ss_schedulers w)"
  have "dist_cost (priced tr name w ?n a) d = fold (\<lambda>i m. if d ! i > 0
      then max m (d ! i * price_wg tr name i + price_remaining w i + price_reconf tr name w i) else m) [0..<?n] 0"
    unfolding dist_cost_def priced_def using assms
    by (intro fold_cong) (auto simp: nth_append)
  then show ?thesis unfolding fold_max_Max makespan_def by (simp cong: conj_cong)
qed

lemma sum_list_nth: "sum_list (map (\<lambda>i. d ! i) [0..<length d]) = sum_list (d :: int list)"
  by (simp add: map_nth)

lemma is_dist_all:
  "is_dist (replicate n True) k d \<longleftrightarrow> length d = n \<and> (\<forall>x\<in>set d. 0 \<le> x) \<and> sum_list d = k"
proof (cases "length d = n")
  case True
  have "map (\<lambda>i. if replicate n True ! i then d ! i else 0) [0..<n] = map (\<lambda>i. d ! i) [0..<length d]"
    using True by auto
  then have s: "sum_list (map (\<lambda>i. if replicate n True ! i then d ! i else 0) [0..<n]) = sum_list d"
    by (simp only: map_nth)
  show ?thesis unfolding is_dist_def length_replicate s using True by (auto simp: all_set_conv_all_nth)
next
  case False
  then show ?thesis by (simp add: is_dist_def)
qed

lemma member_le_sum_list_int: "\<forall>x\<in>set d. 0 \<le> x \<Longrightarrow> y \<in> set d \<Longrightarrow> y \<le> sum_list (d :: int list)"
proof (induction d)
  case (Cons a d)
  then have "0 \<le> sum_list d" by (intro sum_list_nonneg) auto
  then show ?case using Cons by force
qed simp

lemma priced_ready:
  assumes "prices_ok tr name w k" and "algo_wf a (length (ss_schedulers w))" and "m_current_min a = -1"
    and "0 \<le> k" and "k < int_max"
  shows "search_ready (priced tr name w (length (ss_schedulers w)) a) k"
    and "map (\<lambda>x. x \<noteq> UNSUITABLE_ISLAND) (m_wgs_per_islands (priced tr name w (length (ss_schedulers w)) a)) =
      replicate (length (ss_schedulers w)) True"
proof -
  let ?n = "length (ss_schedulers w)"
  show f: "map (\<lambda>x. x \<noteq> UNSUITABLE_ISLAND) (m_wgs_per_islands (priced tr name w ?n a)) = replicate ?n True"
    using assms(2) by (simp add: priced_def algo_wf_def UNSUITABLE_ISLAND_def map_replicate_const)
  show "search_ready (priced tr name w ?n a) k"
    unfolding search_ready_def f using assms
    by (simp add: costs_ok_def priced_def algo_wf_def prices_ok_def)
qed

section \<open>Facts about the submission loop\<close>

lemma sched_inv_store [simp]: "sched_inv (w\<lparr>ss_store := st\<rparr>) \<longleftrightarrow> sched_inv w"
  by (simp add: sched_inv_def)

lemma queues_store [simp]: "queues (w\<lparr>ss_store := st\<rparr>) = queues w"
  by (simp add: queues_def)

lemma concat_update_snoc:
  assumes "i < length qs"
  shows "length (filter Q (concat (qs[i := qs ! i @ [x]]))) = length (filter Q (concat qs)) + (if Q x then 1 else 0)"
    and "set (concat (qs[i := qs ! i @ [x]])) = insert x (set (concat qs))"
proof -
  have d: "qs = take i qs @ (qs ! i) # drop (Suc i) qs"
    using assms id_take_nth_drop by metis
  have u: "qs[i := qs ! i @ [x]] = take i qs @ (qs ! i @ [x]) # drop (Suc i) qs"
    using assms by (simp add: upd_conv_take_nth_drop)
  show "length (filter Q (concat (qs[i := qs ! i @ [x]]))) = length (filter Q (concat qs)) + (if Q x then 1 else 0)"
    unfolding u by (subst (4) d) simp
  show "set (concat (qs[i := qs ! i @ [x]])) = insert x (set (concat qs))"
    unfolding u by (subst (3) d) auto
qed

text \<open>A launch that carves a range which is then queued.\<close>

lemma launches_inv_submit:
  assumes inv: "launches_inv w" and nd: "ns_ndranges (ss_store w) p = Some nd"
    and i: "i < length (queues w)" and x: "w_parent x = Some p" and small: "pending w p + 1 < 2 ^ 32"
    and nd': "n_wgrs_in_the_wild nd' = n_wgrs_in_the_wild nd + 1" "n_kernel nd' = n_kernel nd"
      "n_event nd' = n_event nd"
    and q: "queues w' = (queues w)[i := queues w ! i @ [x]]"
    and st: "ss_store w' = (ss_store w)\<lparr>ns_ndranges := (ns_ndranges (ss_store w))(p \<mapsto> nd')\<rparr>"
  shows "launches_inv w'" and "pending w' p = pending w p + 1"
    and "\<forall>r. r \<noteq> p \<longrightarrow> pending w' r = pending w r"
proof -
  have pe: "pending w' r = pending w r + (if r = p then 1 else 0)" for r
    using concat_update_snoc(1) [OF i, of "\<lambda>y. w_parent y = Some r" x] x
    by (simp add: pending_def q eq_commute)
  then show "pending w' p = pending w p + 1" "\<forall>r. r \<noteq> p \<longrightarrow> pending w' r = pending w r" by simp_all
  have k: "kernels_held (ss_store w') = kernels_held (ss_store w)"
    and e: "events_held (ss_store w') = events_held (ss_store w)"
    using nd nd' by (auto simp: kernels_held_def events_held_def st)
  have o: "ns_objs (ss_store w') = ns_objs (ss_store w)" by (simp add: st)
  have "\<forall>y\<in>set (concat (queues w')). \<exists>r. w_parent y = Some r \<and> ns_ndranges (ss_store w') r \<noteq> None"
  proof
    fix y assume "y \<in> set (concat (queues w'))"
    then consider "y = x" | "y \<in> set (concat (queues w))" unfolding q concat_update_snoc(2) [OF i] by blast
    then show "\<exists>r. w_parent y = Some r \<and> ns_ndranges (ss_store w') r \<noteq> None"
    proof cases
      case 1
      then show ?thesis using x by (simp add: st)
    next
      case 2
      then obtain r where "w_parent y = Some r" "ns_ndranges (ss_store w) r \<noteq> None"
        using inv unfolding launches_inv_def by blast
      then show ?thesis by (intro exI [of _ r]) (simp add: st)
    qed
  qed
  moreover have "n_wgrs_in_the_wild nd1 = of_nat (pending w' r) \<and> pending w' r < 2 ^ 32"
    if "ns_ndranges (ss_store w') r = Some nd1" for r nd1
    using inv nd nd'(1) that small pe [of r]
    by (cases "r = p") (auto simp: launches_inv_def st)
  ultimately show "launches_inv w'" using inv unfolding launches_inv_def k e o by blast
qed


text \<open>The log message can name the range.\<close>

lemma carved_named:
  assumes inv: "launches_inv w" and nd: "ns_ndranges (ss_store w) p = Some nd" and k: "n_kernel nd' = n_kernel nd"
    and x: "w_parent x = Some p"
  shows "named ((ss_store w)\<lparr>ns_ndranges := (ns_ndranges (ss_store w))(p \<mapsto> nd')\<rparr>) x"
proof -
  let ?st = "(ss_store w)\<lparr>ns_ndranges := (ns_ndranges (ss_store w))(p \<mapsto> nd')\<rparr>"
  have "kernels_held ?st = kernels_held (ss_store w)" using nd k by (auto simp: kernels_held_def)
  then have "refs_ok (has_program (ns_objs ?st)) (o_kernels (ns_objs ?st)) (kernels_held ?st)"
    using inv by (simp add: launches_inv_def)
  then show ?thesis using launch_named [OF x] by simp
qed

definition launch_open :: "sched_state \<Rightarrow> ptr \<Rightarrow> ndrange \<Rightarrow> bool" where
  "launch_open w p nd \<longleftrightarrow> ns_ndranges (ss_store w) p = Some nd \<and> nd_wf nd"

lemma carve_island_ok:
  assumes lv: "libev_ok lv" and inv: "sched_inv w" and linv: "launches_inv w"
    and op: "launch_open w p nd" and i: "i < length (ss_schedulers w)"
    and room: "length (queues w ! i) < 100" and small: "pending w p + 1 < 2 ^ 32"
    and a: "algo_wf a (length (ss_schedulers w))" and r: "m_result a ! i = int m" "0 < m" "m \<le> nd_rest nd"
    and cost: "m_result a ! i * m_current_work_potential_cost a ! i + m_current_work_reconf_cost a ! i < 2 ^ 31"
      "0 \<le> m_current_work_potential_cost a ! i" "0 \<le> m_current_work_reconf_cost a ! i"
  shows "\<exists>w' x nd'. carve_island lv p a i w = Inr w' \<and> sched_inv w' \<and> launches_inv w' \<and>
    launch_open w' p nd' \<and> nd_rest nd' = nd_rest nd - m \<and>
    unat (n_next_wgr nd') = unat (n_next_wgr nd) + m \<and>
    queues w' = (queues w)[i := queues w ! i @ [x]] \<and>
    wgr_groups x = [unat (n_next_wgr nd)..<unat (n_next_wgr nd) + m] \<and>
    pending w' p = pending w p + 1 \<and> length (ss_schedulers w') = length (ss_schedulers w)"
proof -
  let ?r = "m_result a ! i" and ?c = "m_current_work_potential_cost a ! i"
  let ?rc = "m_current_work_reconf_cost a ! i"
  have nd: "ns_ndranges (ss_store w) p = Some nd" and wf: "nd_wf nd" using op by (simp_all add: launch_open_def)
  have "nd_rest nd < 2 ^ 32" using unat_bound32 [of "n_total_size nd"] by (simp add: nd_rest_def)
  then have um: "unat (of_nat m :: u64) = m" using r(3) by (intro unat_of_nat_small) simp
  then have nw: "unat (n_next_wgr nd) + unat (of_nat m :: u64) < 2 ^ 64"
    using r(3) \<open>nd_rest nd < 2 ^ 32\<close> by (intro request_nowrap) simp
  obtain x nd' where c: "carve_wgs p nd (of_nat m) = (x, nd')" by (cases "carve_wgs p nd (of_nat m)")
  note step = carve_step(3,4) [OF wf nw, of p]
  have wf': "nd_wf nd'" and rest': "nd_rest nd' = nd_rest nd - m" 
    using step r(3) by (simp_all add: c um)
  have next': "unat (n_next_wgr nd') = unat (n_next_wgr nd) + m"
    using carve_next [OF wf nw, of p] r(3) by (simp add: c um)
  have groups: "wgr_groups x = [unat (n_next_wgr nd)..<unat (n_next_wgr nd) + m]"
    using wgr_groups_carve [OF wf nw, of p] r(3) by (simp add: c um)
  have keep: "n_wgrs_in_the_wild nd' = n_wgrs_in_the_wild nd + 1" "n_kernel nd' = n_kernel nd"
      "n_event nd' = n_event nd" "w_parent x = Some p"
    using c by (auto simp: carve_wgs_def Let_def new_WorkGroupRange_def)
  let ?st = "(ss_store w)\<lparr>ns_ndranges := (ns_ndranges (ss_store w))(p \<mapsto> nd')\<rparr>"
  let ?x = "x\<lparr>w_execution_cost := word_of_int (?r * ?c + ?rc)\<rparr>"
  have "0 \<le> ?r * ?c" using r(1) cost(2) by simp
  then have ci: "c_int (?r * ?c) = Inr (?r * ?c)" "c_int (?r * ?c + ?rc) = Inr (?r * ?c + ?rc)"
    using cost by (simp_all add: c_int_def)
  have at: "carve_at (ss_store w) p (word_of_int ?r) = Inr (x, ?st)"
    using nd c r(1) by (simp add: carve_at_def)
  have nu: "\<not> (?r = UNSUITABLE_ISLAND \<or> ?r = 0)" using r(1,2) by (simp add: UNSUITABLE_ISLAND_def)
  have l: "i < length (m_result a)" "i < length (m_current_work_potential_cost a)"
    "i < length (m_current_work_reconf_cost a)" using a i by (simp_all add: algo_wf_def)
  have ci_eq: "carve_island lv p a i w = submit_wgr lv i ?x (w\<lparr>ss_store := ?st\<rparr>)"
    unfolding carve_island_def vec_get_def if_P [OF l(1)] if_P [OF l(2)] if_P [OF l(3)] bindr.simps
      if_not_P [OF nu] at prod.case ci by (rule refl)
  have inv0: "sched_inv (w\<lparr>ss_store := ?st\<rparr>)" using inv by simp
  have i0: "i < length (ss_schedulers (w\<lparr>ss_store := ?st\<rparr>))" using i by simp
  have room0: "length (queues (w\<lparr>ss_store := ?st\<rparr>) ! i) < 100" using room by simp
  have px: "w_parent ?x = Some p" using keep(4) by simp
  have nm: "named (ss_store (w\<lparr>ss_store := ?st\<rparr>)) ?x" using carved_named [OF linv nd keep(2) px] by simp
  obtain w' where w': "submit_wgr lv i ?x (w\<lparr>ss_store := ?st\<rparr>) = Inr w'" "sched_inv w'"
      "queues w' = (queues (w\<lparr>ss_store := ?st\<rparr>))[i := queues (w\<lparr>ss_store := ?st\<rparr>) ! i @ [?x]]"
      "ss_store w' = ss_store (w\<lparr>ss_store := ?st\<rparr>)"
      "length (ss_schedulers w') = length (ss_schedulers (w\<lparr>ss_store := ?st\<rparr>))"
    using submit_wgr_ok [OF lv inv0 i0 room0, of ?x] nm by blast
  have iq: "i < length (queues w)" using i by (simp add: queues_def)
  have q': "queues w' = (queues w)[i := queues w ! i @ [?x]]" using w'(3) by simp
  have st': "ss_store w' = ?st" using w'(4) by simp
  note launch = launches_inv_submit [OF linv nd iq px small keep(1-3) q' st']
  have "wgr_groups ?x = wgr_groups x" by (simp add: wgr_groups_def)
  moreover have "launch_open w' p nd'" using wf' by (simp add: launch_open_def st')
  moreover have "length (ss_schedulers w') = length (ss_schedulers w)" using w'(5) by simp
  ultimately show ?thesis using w'(1,2) launch(1,2) q' rest' next' groups unfolding ci_eq by auto
qed


text \<open>The groups of a list of ranges.\<close>

definition groups_of :: "work_group_range list \<Rightarrow> nat list" where
  "groups_of ws = concat (map wgr_groups ws)"

lemma groups_of_simps [simp]: "groups_of [] = []" "groups_of [x] = wgr_groups x"
  by (simp_all add: groups_of_def)

lemma carve_islands_ok:
  assumes lv: "libev_ok lv"
    and a: "algo_wf a n"
    and r: "\<forall>i\<in>set is. 0 \<le> m_result a ! i \<and>
      m_result a ! i * m_current_work_potential_cost a ! i + m_current_work_reconf_cost a ! i < 2 ^ 31 \<and>
      0 \<le> m_current_work_potential_cost a ! i \<and> 0 \<le> m_current_work_reconf_cost a ! i"
    and "distinct is" and "set is \<subseteq> {..<n}"
    and "sched_inv w" and "launches_inv w" and "launch_open w p nd" and "length (ss_schedulers w) = n"
    and "\<forall>i\<in>set is. length (queues w ! i) < 100"
    and "sum_list (map (\<lambda>i. nat (m_result a ! i)) is) \<le> nd_rest nd"
    and "pending w p + length is < 2 ^ 32"
  shows "\<exists>w' X nd'. foldr_res (carve_island lv p a) is w = Inr w' \<and> sched_inv w' \<and> launches_inv w' \<and>
    launch_open w' p nd' \<and> nd_rest nd' = nd_rest nd - sum_list (map (\<lambda>i. nat (m_result a ! i)) is) \<and>
    length (ss_schedulers w') = n \<and> (\<forall>i<n. queues w' ! i = queues w ! i @ X i) \<and>
    (\<forall>i. length (X i) = (if i \<in> set is \<and> 0 < m_result a ! i then 1 else 0)) \<and>
    (\<forall>i\<in>set is. length (groups_of (X i)) = nat (m_result a ! i)) \<and>
    concat (map (groups_of \<circ> X) is) = [unat (n_next_wgr nd)..<
      unat (n_next_wgr nd) + sum_list (map (\<lambda>i. nat (m_result a ! i)) is)] \<and>
    pending w' p = pending w p + length (filter (\<lambda>i. 0 < m_result a ! i) is)"
  using assms(3-)
proof (induction "is" arbitrary: w nd)
  case Nil
  then show ?case by (intro exI [of _ w] exI [of _ "\<lambda>_. []"] exI [of _ nd]) simp
next
  case (Cons i "is")
  have i: "i < length (ss_schedulers w)" and iq: "i < length (queues w)"
    using Cons.prems(3,7) by (simp_all add: queues_def)
  let ?m = "nat (m_result a ! i)"
  have step: "\<exists>w1 xs nd1. carve_island lv p a i w = Inr w1 \<and> sched_inv w1 \<and> launches_inv w1 \<and>
      launch_open w1 p nd1 \<and> nd_rest nd1 = nd_rest nd - ?m \<and>
      unat (n_next_wgr nd1) = unat (n_next_wgr nd) + ?m \<and>
      queues w1 = (queues w)[i := queues w ! i @ xs] \<and> length xs = (if 0 < m_result a ! i then 1 else 0) \<and>
      groups_of xs = [unat (n_next_wgr nd)..<unat (n_next_wgr nd) + ?m] \<and>
      pending w1 p = pending w p + (if 0 < m_result a ! i then 1 else 0) \<and>
      length (ss_schedulers w1) = length (ss_schedulers w)"
  proof (cases "m_result a ! i = 0")
    case True
    then have "carve_island lv p a i w = Inr w"
      using a i Cons.prems(7) by (simp add: carve_island_def vec_get_def algo_wf_def)
    then show ?thesis using True Cons.prems(4,5,6)
      by (intro exI [of _ w] exI [of _ "[]"] exI [of _ nd]) simp
  next
    case False
    have m: "m_result a ! i = int ?m" "0 < ?m" "?m \<le> nd_rest nd"
      using False Cons.prems(1,9) by auto
    have c: "m_result a ! i * m_current_work_potential_cost a ! i + m_current_work_reconf_cost a ! i < 2 ^ 31"
      "0 \<le> m_current_work_potential_cost a ! i" "0 \<le> m_current_work_reconf_cost a ! i"
      using Cons.prems(1) by simp_all
    have rm: "length (queues w ! i) < 100" and sm: "pending w p + 1 < 2 ^ 32"
      using Cons.prems(8,10) by simp_all
    have aw: "algo_wf a (length (ss_schedulers w))" using a Cons.prems(7) by simp
    obtain w1 x nd1 where "carve_island lv p a i w = Inr w1" "sched_inv w1" "launches_inv w1"
      "launch_open w1 p nd1" "nd_rest nd1 = nd_rest nd - ?m"
      "unat (n_next_wgr nd1) = unat (n_next_wgr nd) + ?m" "queues w1 = (queues w)[i := queues w ! i @ [x]]"
      "wgr_groups x = [unat (n_next_wgr nd)..<unat (n_next_wgr nd) + ?m]"
      "pending w1 p = pending w p + 1" "length (ss_schedulers w1) = length (ss_schedulers w)"
      using carve_island_ok [OF lv Cons.prems(4-6) i rm sm aw m c] by (elim exE conjE) (rule that)
    then show ?thesis using m by (intro exI [of _ w1] exI [of _ "[x]"] exI [of _ nd1]) simp
  qed
  obtain w1 xs nd1 where w1: "carve_island lv p a i w = Inr w1" "sched_inv w1" "launches_inv w1"
      "launch_open w1 p nd1" "nd_rest nd1 = nd_rest nd - ?m"
      "unat (n_next_wgr nd1) = unat (n_next_wgr nd) + ?m"
      "queues w1 = (queues w)[i := queues w ! i @ xs]" "length xs = (if 0 < m_result a ! i then 1 else 0)"
      "groups_of xs = [unat (n_next_wgr nd)..<unat (n_next_wgr nd) + ?m]"
      "pending w1 p = pending w p + (if 0 < m_result a ! i then 1 else 0)"
      "length (ss_schedulers w1) = length (ss_schedulers w)"
    using step by (elim exE conjE) (rule that)
  have ni: "i \<notin> set is" and d: "distinct is" using Cons.prems(2) by simp_all
  have p1: "\<forall>i\<in>set is. 0 \<le> m_result a ! i \<and>
      m_result a ! i * m_current_work_potential_cost a ! i + m_current_work_reconf_cost a ! i < 2 ^ 31 \<and>
      0 \<le> m_current_work_potential_cost a ! i \<and> 0 \<le> m_current_work_reconf_cost a ! i"
    using Cons.prems(1) by simp
  have p2: "set is \<subseteq> {..<n}" and p3: "length (ss_schedulers w1) = n"
    using Cons.prems(3,7) w1(11) by simp_all
  have p4: "\<forall>j\<in>set is. length (queues w1 ! j) < 100"
    using Cons.prems(8) ni unfolding w1(7) by (metis list.set_intros(2) nth_list_update_neq)
  have p5: "sum_list (map (\<lambda>i. nat (m_result a ! i)) is) \<le> nd_rest nd1"
    using Cons.prems(9) w1(5) by simp
  have p6: "pending w1 p + length is < 2 ^ 32" using Cons.prems(10) w1(10) by simp
  obtain w2 X nd2 where w2: "foldr_res (carve_island lv p a) is w1 = Inr w2" "sched_inv w2" "launches_inv w2"
      "launch_open w2 p nd2" "nd_rest nd2 = nd_rest nd1 - sum_list (map (\<lambda>i. nat (m_result a ! i)) is)"
      "length (ss_schedulers w2) = n" "\<forall>i<n. queues w2 ! i = queues w1 ! i @ X i"
      "\<forall>i. length (X i) = (if i \<in> set is \<and> 0 < m_result a ! i then 1 else 0)"
      "\<forall>i\<in>set is. length (groups_of (X i)) = nat (m_result a ! i)"
      "concat (map (groups_of \<circ> X) is) = [unat (n_next_wgr nd1)..<
        unat (n_next_wgr nd1) + sum_list (map (\<lambda>i. nat (m_result a ! i)) is)]"
      "pending w2 p = pending w1 p + length (filter (\<lambda>i. 0 < m_result a ! i) is)"
    using Cons.IH [OF p1 d p2 w1(2-4) p3 p4 p5 p6] by (elim exE conjE) (rule that)
  let ?Y = "X(i := xs)"
  have f: "foldr_res (carve_island lv p a) (i # is) w = Inr w2" using w1(1) w2(1) by simp
  have q: "\<forall>j<n. queues w2 ! j = queues w ! j @ ?Y j"
  proof (intro allI impI)
    fix j assume j: "j < n"
    have "X i = []" using w2(8) ni by (metis length_0_conv)
    then show "queues w2 ! j = queues w ! j @ ?Y j"
      using w2(7) j iq unfolding w1(7) by (cases "j = i") simp_all
  qed
  have l: "\<forall>j. length (?Y j) = (if j \<in> set (i # is) \<and> 0 < m_result a ! j then 1 else 0)"
  proof
    fix j show "length (?Y j) = (if j \<in> set (i # is) \<and> 0 < m_result a ! j then 1 else 0)"
      using w2(8) [rule_format, of j] w1(8) by (cases "j = i") simp_all
  qed
  have g: "\<forall>j\<in>set (i # is). length (groups_of (?Y j)) = nat (m_result a ! j)"
    using w2(9) w1(9) by simp
  have e: "map (groups_of \<circ> ?Y) is = map (groups_of \<circ> X) is" using ni by auto
  have "concat (map (groups_of \<circ> ?Y) (i # is)) = groups_of xs @ concat (map (groups_of \<circ> X) is)"
    by (simp only: list.map concat.simps o_apply fun_upd_same e)
  then have "concat (map (groups_of \<circ> ?Y) (i # is)) =
      [unat (n_next_wgr nd)..<unat (n_next_wgr nd) + ?m] @ [unat (n_next_wgr nd) + ?m..<
        unat (n_next_wgr nd) + ?m + sum_list (map (\<lambda>i. nat (m_result a ! i)) is)]"
    using w2(10) w1(6,9) by simp
  also have "\<dots> = [unat (n_next_wgr nd)..<
      unat (n_next_wgr nd) + sum_list (map (\<lambda>i. nat (m_result a ! i)) (i # is))]"
    using upt_add_eq_append [of "unat (n_next_wgr nd)" "unat (n_next_wgr nd) + ?m"] by (simp add: add.assoc)
  finally have c: "concat (map (groups_of \<circ> ?Y) (i # is)) = \<dots>" .
  have rest: "nd_rest nd2 = nd_rest nd - sum_list (map (\<lambda>i. nat (m_result a ! i)) (i # is))"
    using w2(5) w1(5) by simp
  have pe: "pending w2 p = pending w p + length (filter (\<lambda>i. 0 < m_result a ! i) (i # is))"
    using w2(11) w1(10) by simp
  show ?case using f w2(2-4,6) q l g c rest pe by blast
qed


section \<open>Routing a launch\<close>

text \<open>
  What routing asks for: a launch none of whose groups is carved yet, a kernel with a name,
  1 to 89 schedulers (the log line has room for the numbers of 89) with room in every queue,
  and prices that the search's \<open>int\<close>s can hold.
\<close>

definition launch_ready ::
  "tracker \<Rightarrow> algo_simple \<Rightarrow> sched_state \<Rightarrow> ptr \<Rightarrow> ndrange \<Rightarrow> string \<Rightarrow> bool" where
  "launch_ready tr a w p nd name \<longleftrightarrow>
     ns_ndranges (ss_store w) p = Some nd \<and> n_next_wgr nd = 0 \<and> pending w p = 0 \<and>
     0 < unat (n_total_size nd) \<and> int (unat (n_total_size nd)) < int_max \<and>
     nd_get_kernel_name (ns_objs (ss_store w)) nd = Inr name \<and>
     algo_wf a (length (ss_schedulers w)) \<and>
     0 < length (ss_schedulers w) \<and> length (ss_schedulers w) \<le> 89 \<and>
     (\<forall>i<length (ss_schedulers w). length (queues w ! i) < 100) \<and>
     prices_ok tr name w (int (unat (n_total_size nd)))"

lemma routed_ok:
  assumes lv: "libev_ok lv" and inv: "sched_inv w" and linv: "launches_inv w"
    and ready: "launch_ready tr a w p nd name"
  shows "\<exists>a' w' X. simple_route_ndrange lv tr (Some p) a w = Inr (ML_SUCCESS, a', w') \<and>
    length (m_result a') = length (ss_schedulers w) \<and> (\<forall>x\<in>set (m_result a'). 0 \<le> x) \<and>
    sum_list (m_result a') = int (unat (n_total_size nd)) \<and>
    (\<forall>d. length d = length (ss_schedulers w) \<and> (\<forall>x\<in>set d. 0 \<le> x) \<and>
       sum_list d = int (unat (n_total_size nd)) \<longrightarrow> makespan tr name w (m_result a') \<le> makespan tr name w d) \<and>
    length (ss_schedulers w') = length (ss_schedulers w) \<and>
    (\<forall>i<length (ss_schedulers w). queues w' ! i = queues w ! i @ X i \<and>
       length (X i) = (if 0 < m_result a' ! i then 1 else 0) \<and>
       length (groups_of (X i)) = nat (m_result a' ! i)) \<and>
    concat (map (groups_of \<circ> X) [0..<length (ss_schedulers w)]) = [0..<unat (n_total_size nd)] \<and>
    sched_inv w' \<and> launches_inv w' \<and> 0 < pending w' p"
proof -
  note nd = ready [unfolded launch_ready_def, THEN conjunct1]
  note new = ready [unfolded launch_ready_def, THEN conjunct2, THEN conjunct1]
    ready [unfolded launch_ready_def, THEN conjunct2, THEN conjunct2, THEN conjunct1]
  have a: "algo_wf a (length (ss_schedulers w))" and n: "0 < length (ss_schedulers w)" "length (ss_schedulers w) \<le> 89"
    and name: "nd_get_kernel_name (ns_objs (ss_store w)) nd = Inr name"
    and k: "0 < unat (n_total_size nd)" "int (unat (n_total_size nd)) < int_max"
    and prices: "prices_ok tr name w (int (unat (n_total_size nd)))"
    and room: "\<forall>i<length (ss_schedulers w). length (queues w ! i) < 100"
    using ready unfolding launch_ready_def by blast+
  let ?n = "length (ss_schedulers w)" and ?K = "int (unat (n_total_size nd))"
  let ?a0 = "a\<lparr>m_current_min := -1\<rparr>"
  let ?a1 = "priced tr name w ?n ?a0"
  have a0: "algo_wf ?a0 ?n" "m_current_min ?a0 = -1" using a by (simp_all add: algo_wf_def)
  have ni: "m_num_islands a = ?n" using a by (simp add: algo_wf_def)
  have fill: "foldr_res (fill_island tr (ss_now w) (ss_schedulers w) (n_resource_string nd) name) [0..<?n] ?a0 =
      Inr ?a1" by (rule fill_islands [OF prices a0(1)]) simp
  have K0: "0 \<le> ?K" by (rule of_nat_0_le_iff)
  note ready = priced_ready [OF prices a0 K0 k(2)]
  have "?K < int (2 ^ 31)" by (rule order.strict_trans [OF k(2)]) simp
  then have "unat (n_total_size nd) < 2 ^ 31" by (simp only: of_nat_less_iff)
  then have sK: "sint (n_total_size nd) = ?K" by (rule sint_small)
  have T: "True \<in> set (replicate ?n True)" using n(1) by simp
  have n1: "m_num_islands ?a1 = ?n" using ni by (simp add: priced_def)
  obtain a2 where a2: "recursive_function (m_num_islands ?a1) ?a1 ?K 0 = Inr a2"
      "is_dist (replicate ?n True) ?K (m_result a2)"
      "\<forall>d. is_dist (replicate ?n True) ?K d \<longrightarrow> dist_cost ?a1 (m_result a2) \<le> dist_cost ?a1 d"
      "m_num_islands a2 = m_num_islands ?a1"
      "m_current_work_potential_cost a2 = m_current_work_potential_cost ?a1"
      "m_current_work_reconf_cost a2 = m_current_work_reconf_cost ?a1"
      "m_work_in_progress_cost a2 = m_work_in_progress_cost ?a1"
      "map (\<lambda>x. x \<noteq> UNSUITABLE_ISLAND) (m_wgs_per_islands a2) = replicate ?n True"
    using search_best [OF ready(1) ready(2) [symmetric] T] by (elim exE conjE) (rule that)
  have l2: "length (m_wgs_per_islands a2) = ?n" using a2(8) by (metis length_map length_replicate)
  have d2: "length (m_result a2) = ?n" "\<forall>x\<in>set (m_result a2). 0 \<le> x" "sum_list (m_result a2) = ?K"
    using a2(2) by (simp_all add: is_dist_all)
  have le: "\<forall>x\<in>set (m_result a2). x \<le> ?K" using member_le_sum_list_int [OF d2(2)] d2(3) by simp
  have log: "log_line_bytes (m_result a2) \<le> 1024"
    using d2(1,2) le n(2) k(2) by (intro log_line_fits) fastforce+
  have aw2: "algo_wf a2 ?n"
    using a a2(4-7) l2 d2(1) by (simp add: algo_wf_def priced_def)
  have cost: "\<forall>i\<in>set [0..<?n]. 0 \<le> m_result a2 ! i \<and>
      m_result a2 ! i * m_current_work_potential_cost a2 ! i + m_current_work_reconf_cost a2 ! i < 2 ^ 31 \<and>
      0 \<le> m_current_work_potential_cost a2 ! i \<and> 0 \<le> m_current_work_reconf_cost a2 ! i"
  proof
    fix i assume "i \<in> set [0..<?n]"
    then have i: "i < ?n" by simp
    then have r: "0 \<le> m_result a2 ! i" "m_result a2 ! i \<le> ?K" using d2(1,2) le by simp_all
    have p: "0 \<le> price_remaining w i" "0 \<le> price_reconf tr name w i" "0 \<le> price_wg tr name i"
      "?K * price_wg tr name i + price_remaining w i + price_reconf tr name w i < 2 ^ 31"
      using prices i unfolding prices_ok_def by blast+
    have "m_result a2 ! i * price_wg tr name i \<le> ?K * price_wg tr name i"
      using r(2) p(3) by (rule mult_right_mono)
    moreover have "m_current_work_potential_cost a2 ! i = price_wg tr name i"
      "m_current_work_reconf_cost a2 ! i = price_reconf tr name w i"
      using i a2(5,6) by (simp_all add: priced_def nth_append)
    ultimately show "0 \<le> m_result a2 ! i \<and>
      m_result a2 ! i * m_current_work_potential_cost a2 ! i + m_current_work_reconf_cost a2 ! i < 2 ^ 31 \<and>
      0 \<le> m_current_work_potential_cost a2 ! i \<and> 0 \<le> m_current_work_reconf_cost a2 ! i"
      using r p by simp
  qed
  have wf: "nd_wf nd" and rest: "nd_rest nd = unat (n_total_size nd)"
    using k(1) new(1) by (auto simp: nd_wf_def nd_rest_def)
  have sum: "sum_list (map (\<lambda>i. nat (m_result a2 ! i)) [0..<?n]) = unat (n_total_size nd)"
  proof -
    have "int (sum_list (map (\<lambda>i. nat (m_result a2 ! i)) [0..<?n])) = sum_list (map (\<lambda>i. m_result a2 ! i) [0..<?n])"
      using d2(1,2) by (simp add: interv_sum_list_conv_sum_set_nat)
    also have "\<dots> = ?K" using d2(1,3) by (metis map_nth)
    finally show ?thesis by linarith
  qed
  have op: "launch_open w p nd" using nd wf by (simp add: launch_open_def)
  have sub: "set [0..<?n] \<subseteq> {..<?n}" and dis: "distinct [0..<?n]" by auto
  have rm: "\<forall>i\<in>set [0..<?n]. length (queues w ! i) < 100" using room by simp
  have s1: "sum_list (map (\<lambda>i. nat (m_result a2 ! i)) [0..<?n]) \<le> nd_rest nd" using sum rest by simp
  have s2: "pending w p + length [0..<?n] < 2 ^ 32" using new(2) n(2) by simp
  obtain w' X nd' where w': "foldr_res (carve_island lv p a2) [0..<?n] w = Inr w'" "sched_inv w'"
      "launches_inv w'" "launch_open w' p nd'"
      "nd_rest nd' = nd_rest nd - sum_list (map (\<lambda>i. nat (m_result a2 ! i)) [0..<?n])"
      "length (ss_schedulers w') = ?n" "\<forall>i<?n. queues w' ! i = queues w ! i @ X i"
      "\<forall>i. length (X i) = (if i \<in> set [0..<?n] \<and> 0 < m_result a2 ! i then 1 else 0)"
      "\<forall>i\<in>set [0..<?n]. length (groups_of (X i)) = nat (m_result a2 ! i)"
      "concat (map (groups_of \<circ> X) [0..<?n]) = [unat (n_next_wgr nd)..<unat (n_next_wgr nd) +
         sum_list (map (\<lambda>i. nat (m_result a2 ! i)) [0..<?n])]"
      "pending w' p = pending w p + length (filter (\<lambda>i. 0 < m_result a2 ! i) [0..<?n])"
    using carve_islands_ok [OF lv aw2 cost dis sub inv linv op refl rm s1 s2] by (elim exE conjE) (rule that)
  have fin: "\<not> has_more_wgs nd'" "ns_ndranges (ss_store w') p = Some nd'"
    using w'(4,5) sum rest has_more_rest [of nd'] by (simp_all add: launch_open_def)
  have route: "simple_route_ndrange lv tr (Some p) a w = Inr (ML_SUCCESS, a2, w')"
    using nd name fill a2(1,4) log w'(1) fin
    by (simp add: simple_route_ndrange_def ni n1 sK)
  have pos: "filter (\<lambda>i. 0 < m_result a2 ! i) [0..<?n] \<noteq> []"
  proof
    assume "filter (\<lambda>i. 0 < m_result a2 ! i) [0..<?n] = []"
    then have "\<forall>i<?n. nat (m_result a2 ! i) = 0" by (force simp: filter_empty_conv not_less)
    then have "sum_list (map (\<lambda>i. nat (m_result a2 ! i)) [0..<?n]) = 0" by simp
    then show False using sum k(1) by simp
  qed
  have opt: "\<forall>d. length d = ?n \<and> (\<forall>x\<in>set d. 0 \<le> x) \<and> sum_list d = ?K \<longrightarrow>
      makespan tr name w (m_result a2) \<le> makespan tr name w d"
    using a2(3) dist_cost_makespan [of ?a0 w tr name] ni by (simp add: is_dist_all)
  have q: "\<forall>i<?n. queues w' ! i = queues w ! i @ X i \<and>
       length (X i) = (if 0 < m_result a2 ! i then 1 else 0) \<and>
       length (groups_of (X i)) = nat (m_result a2 ! i)"
    using w'(7-9) by simp
  have c: "concat (map (groups_of \<circ> X) [0..<?n]) = [0..<unat (n_total_size nd)]"
    using w'(10) sum new(1) by simp
  have pp: "0 < pending w' p" using pos unfolding w'(11) by simp
  show ?thesis using route d2 opt w'(6) q c w'(2,3) pp by blast
qed


lemma fire_nonempty:
  assumes "fire_scheduler lv i w = Inr r" and "sched_inv w"
  shows "i < length (ss_schedulers w) \<and> queues w ! i \<noteq> []"
proof -
  have i: "i < length (ss_schedulers w)"
    using assms(1) by (auto simp: fire_scheduler_def sched_at_def bindr_Inr_iff split: if_splits)
  have "ca_pop_front (s_in_queue (ss_schedulers w ! i)) = Inl Empty_buffer"
    if "ca_list (s_in_queue (ss_schedulers w ! i)) = []"
    by (rule ca_pop_empty(2) [OF that])
  then show ?thesis using assms(1) i
    by (auto simp: fire_scheduler_def sched_at_def set_sched_def on_timer_def queues_def)
qed

text \<open>Timers do not touch a launch with nothing queued.\<close>

lemma run_fires_frame:
  assumes "libev_ok lv" and "run_fires lv is w = Some (w', cbs)" and "sched_inv w" and "launches_inv w"
    and "pending w p = 0"
  shows "ns_ndranges (ss_store w') p = ns_ndranges (ss_store w) p \<and> pending w' p = 0"
  using assms(2-)
proof (induction "is" arbitrary: w cbs)
  case Nil
  then show ?case by simp
next
  case (Cons i "is")
  then obtain w1 c1 c2 where r: "fire_scheduler lv i w = Inr (w1, c1)" "run_fires lv is w1 = Some (w', c2)"
    by (auto simp: run_fires_Cons)
  obtain x xs where i: "i < length (ss_schedulers w)" and q: "queues w ! i = x # xs"
    using fire_nonempty [OF r(1) Cons.prems(2)] by (cases "queues w ! i") auto
  obtain w2 c p' where w2: "fire_scheduler lv i w = Inr (w2, c)" "sched_inv w2" "launches_inv w2"
      "\<forall>r. pending w2 r + (if r = p' then 1 else 0) = pending w r"
      "\<forall>r. r \<noteq> p' \<longrightarrow> ns_ndranges (ss_store w2) r = ns_ndranges (ss_store w) r"
    using fire_keeps_launches [OF assms(1) Cons.prems(2,3) i q] by (elim exE conjE) (rule that)
  have "w2 = w1" using w2(1) r(1) by simp
  moreover have "p \<noteq> p'" "pending w2 p = 0"
    using w2(4) [rule_format, of p] Cons.prems(4) by (auto split: if_splits)
  ultimately show ?case using Cons.IH [OF r(2)] w2 by simp
qed

section \<open>Examples\<close>

definition demo_launch :: "ndrange \<Rightarrow> nd_store" where
  "demo_launch nd = \<lparr>ns_objs = demo_objs\<lparr>o_kernels := [0 \<mapsto> new_cl_kernel (Some 2)],
       o_programs := [2 \<mapsto> \<lparr>m_counter = 1, m_xml_name = ''k.xml'', m_build_log = [], m_context = None\<rparr>]\<rparr>,
     ns_ndranges = [7 \<mapsto> nd]\<rparr>"

abbreviation demo_tracker :: tracker where
  "demo_tracker \<equiv> \<lparr>m_wg_cost_mapping = [(''k.xml'', [10, 20])], m_reconf_cost_mapping = []\<rparr>"

lemma new_schedulers_end:
  "new_schedulers junk jr je poll prs = Inr ss \<Longrightarrow> \<forall>s\<in>set ss. s_end_time s = je"
proof (induction prs arbitrary: ss)
  case (Cons x prs)
  obtain b f p where x: "x = (b, f, p)" by (cases x)
  obtain s ss' where s: "new_Scheduler junk b f p poll jr je = Inr s"
      "new_schedulers junk jr je poll prs = Inr ss'" "ss = s # ss'"
    using Cons.prems x by (auto simp: bindr_Inr_iff)
  have "s_end_time s = je"
    using s(1) by (auto simp: new_Scheduler_def bindr_Inr_iff PR_Slot_def split: if_splits)
  then show ?case using Cons.IH [OF s(2)] s(3) by simp
qed simp

lemma sched_startup_times:
  assumes "sched_startup lv now junk fjunk jr je poll prs store = Inr w"
  shows "ss_now w = now" and "\<forall>s\<in>set (ss_schedulers w). s_end_time s = je \<and> \<not> s_mock_would_need_reconf s"
  using assms
  by (auto simp: sched_startup_def bindr_Inr_iff register_schedulers_def dest!: new_schedulers_end)

lemma demo_launch_start:
  assumes nd: "n_wgrs_in_the_wild nd = 0" "n_kernel nd = 0" "n_event nd = 1" and K: "0 \<le> K" "K \<le> 5"
  shows "\<exists>w. sched_inv w \<and> launches_inv w \<and> ss_store w = demo_launch nd \<and> queues w = [[], []] \<and>
    length (ss_schedulers w) = 2 \<and> pending w 7 = 0 \<and> prices_ok demo_tracker ''k.xml'' w K"
proof -
  have d: "distinct (map (\<lambda>(b, f, p). scheduler_id b f p) demo_regions)"
    by (simp add: demo_regions_ids(1))
  obtain w where w: "sched_startup demo_libev 0 (\<lambda>_. empty_WorkGroupRange 0) (\<lambda>_. 0) False 0 0
      demo_regions (demo_launch nd) = Inr w" "sched_inv w" "ss_store w = demo_launch nd"
      "queues w = map (\<lambda>_. []) demo_regions"
    using sched_startup_ok [OF demo_libev_ok demo_regions_ids(2,3) d, of 0 "\<lambda>_. empty_WorkGroupRange 0"
      "\<lambda>_. 0" False 0 0 "demo_launch nd"] by blast
  have q: "queues w = [[], []]" by (simp add: w(4)) (simp add: demo_regions_def)
  then have l: "length (ss_schedulers w) = 2" by (metis length_map queues_def list.size(3,4) One_nat_def Suc_1 add.commute plus_1_eq_Suc)
  have pend: "pending w p = 0" for p by (simp add: pending_def q)
  have k: "refs_ok (has_program (ns_objs (ss_store w))) (o_kernels (ns_objs (ss_store w))) (kernels_held (ss_store w))"
    and e: "refs_ok (\<lambda>e. m_cb e \<noteq> None) (o_events (ns_objs (ss_store w))) (events_held (ss_store w))"
    by (auto simp: refs_ok_def kernels_held_def events_held_def w(3) demo_launch_def demo_objs_def
        nd new_cl_kernel_def new_cl_event_def dom_def simp: has_program_def split: if_splits)
  have "launches_inv w"
    using pend k e by (auto simp: launches_inv_def q w(3) demo_launch_def nd split: if_splits)
  moreover have "prices_ok demo_tracker ''k.xml'' w K"
  proof -
    have r: "get_remaining_time (ss_now w) (ss_schedulers w ! i) = Inr 0" and nr: "\<not> would_need_reconf (ss_schedulers w ! i) nm"
      if "i < 2" for i nm
      using sched_startup_times [OF w(1)] that l
      by (simp_all add: get_remaining_time_def rat_to_unsigned_def would_need_reconf_def)
    have c: "get_wg_cost_on_island demo_tracker (of_nat i) ''k.xml'' = Inr (if i = 0 then 10 else 20)" if "i < 2" for i
      using that by (cases i) (auto simp: get_wg_cost_on_island_def vec_at_def less_Suc_eq)
    show ?thesis
      using r nr c K by (simp add: prices_ok_def l price_remaining_def price_reconf_def price_wg_def)
  qed
  ultimately show ?thesis using w q l pend by blast
qed


lemma demo_launch_ready:
  "\<exists>w. sched_inv w \<and> launches_inv w \<and> queues w = [[], []] \<and> length (ss_schedulers w) = 2 \<and>
    launch_ready demo_tracker (new_AlgoSimple 2) w 7 demo_nd ''k.xml''"
proof -
  have f: "n_wgrs_in_the_wild demo_nd = 0" "n_kernel demo_nd = 0" "n_event demo_nd = 1"
    by (simp_all add: demo_nd_def)
  have K: "(0::int) \<le> 5" "(5::int) \<le> 5" by simp_all
  obtain w where w: "sched_inv w" "launches_inv w" "ss_store w = demo_launch demo_nd" "queues w = [[], []]"
      "length (ss_schedulers w) = 2" "pending w 7 = 0" "prices_ok demo_tracker ''k.xml'' w 5"
    using demo_launch_start [OF f K] by (elim exE conjE) (rule that)
  have "launch_ready demo_tracker (new_AlgoSimple 2) w 7 demo_nd ''k.xml''"
    using w(6,7) new_AlgoSimple_wf [of 2]
    by (simp add: launch_ready_def w(3-5) demo_launch_def demo_nd_def nd_get_kernel_name_def
        new_cl_kernel_def less_2_cases_iff)
  then show ?thesis using w by blast
qed

section \<open>Properties\<close>

text \<open>C4: Routing a launch of \<open>K\<close> work groups, \<open>0 < K < 2 ^ 31 - 1\<close>, over 1 to 89 islands with room in their queues
  succeeds, if the costs of every island can be looked up and are not negative and the price of
  all \<open>K\<close> groups on any one island, with its remaining time and reconfiguration, fits an \<open>int\<close>: the groups \<open>0..<K\<close> are cut, in order and each once, into one range for every island
  that the distribution gives work, each queued behind what its scheduler already has; no way of
  distributing the groups has a slowest island that finishes earlier.\<close>
theorem simple_route_submits_cheapest:
  assumes "libev_ok lv" and "sched_inv w" and "launches_inv w" and "launch_ready tr a w p nd name"
  shows "\<exists>a' w' X. simple_route_ndrange lv tr (Some p) a w = Inr (ML_SUCCESS, a', w') \<and>
    sum_list (m_result a') = int (unat (n_total_size nd)) \<and>
    (\<forall>d. length d = length (ss_schedulers w) \<and> (\<forall>x\<in>set d. 0 \<le> x) \<and>
       sum_list d = int (unat (n_total_size nd)) \<longrightarrow> makespan tr name w (m_result a') \<le> makespan tr name w d) \<and>
    (\<forall>i<length (ss_schedulers w). queues w' ! i = queues w ! i @ X i \<and>
       length (X i) = (if 0 < m_result a' ! i then 1 else 0) \<and>
       length (groups_of (X i)) = nat (m_result a' ! i)) \<and>
    concat (map (groups_of \<circ> X) [0..<length (ss_schedulers w)]) = [0..<unat (n_total_size nd)]"
proof -
  obtain a' w' X where r: "simple_route_ndrange lv tr (Some p) a w = Inr (ML_SUCCESS, a', w')"
    "sum_list (m_result a') = int (unat (n_total_size nd))"
    "\<forall>d. length d = length (ss_schedulers w) \<and> (\<forall>x\<in>set d. 0 \<le> x) \<and>
       sum_list d = int (unat (n_total_size nd)) \<longrightarrow> makespan tr name w (m_result a') \<le> makespan tr name w d"
    "\<forall>i<length (ss_schedulers w). queues w' ! i = queues w ! i @ X i \<and>
       length (X i) = (if 0 < m_result a' ! i then 1 else 0) \<and>
       length (groups_of (X i)) = nat (m_result a' ! i)"
    "concat (map (groups_of \<circ> X) [0..<length (ss_schedulers w)]) = [0..<unat (n_total_size nd)]"
    using routed_ok [OF assms] by (elim exE conjE) (rule that)
  then show ?thesis by blast
qed

theorem simple_route_submits_cheapest_witness:
  "\<exists>w a' w'. queues w = [[], []] \<and>
    simple_route_ndrange demo_libev demo_tracker (Some 7) (new_AlgoSimple 2) w = Inr (ML_SUCCESS, a', w') \<and>
    sum_list (m_result a') = 5 \<and>
    makespan demo_tracker ''k.xml'' w (m_result a') \<le> makespan demo_tracker ''k.xml'' w [3, 2]"
proof -
  obtain w where w: "sched_inv w" "launches_inv w" "queues w = [[], []]" "length (ss_schedulers w) = 2"
      "launch_ready demo_tracker (new_AlgoSimple 2) w 7 demo_nd ''k.xml''"
    using demo_launch_ready by (elim exE conjE) (rule that)
  have t: "unat (n_total_size demo_nd) = 5" by (simp add: demo_nd_def)
  obtain a' w' where r: "simple_route_ndrange demo_libev demo_tracker (Some 7) (new_AlgoSimple 2) w =
      Inr (ML_SUCCESS, a', w')" "sum_list (m_result a') = int (unat (n_total_size demo_nd))"
    "\<forall>d. length d = length (ss_schedulers w) \<and> (\<forall>x\<in>set d. 0 \<le> x) \<and>
       sum_list d = int (unat (n_total_size demo_nd)) \<longrightarrow>
       makespan demo_tracker ''k.xml'' w (m_result a') \<le> makespan demo_tracker ''k.xml'' w d"
    using simple_route_submits_cheapest [OF demo_libev_ok w(1,2,5)]
    by (elim exE conjE) (rule that)
  have "length [3, 2 :: int] = length (ss_schedulers w) \<and> (\<forall>x\<in>set [3, 2 :: int]. 0 \<le> x) \<and>
      sum_list [3, 2] = int (unat (n_total_size demo_nd))"
    unfolding w(4) t by simp
  then have "makespan demo_tracker ''k.xml'' w (m_result a') \<le> makespan demo_tracker ''k.xml'' w [3, 2]"
    using r(3) by blast
  then show ?thesis using r(1,2) w(3) t by auto
qed

text \<open>C5: A launch routed like this completes, if what was queued before belongs to live launches whose
  kernels still have their programs. Its ranges wait in the schedulers, so some scheduler's timer
  runs; and in whatever order the timers then fire, as often as ranges are queued for each, every
  timer that is to fire runs, no callback faults and the queues end up empty; as many callbacks
  have been made as launches had ranges waiting, this one among them, and this one has been
  deleted.\<close>
theorem routed_launch_completes:
  assumes "libev_ok lv" and "sched_inv w" and "launches_inv w" and "launch_ready tr a w p nd name"
  shows "\<exists>a' w'. simple_route_ndrange lv tr (Some p) a w = Inr (ML_SUCCESS, a', w') \<and>
    p \<in> waiting w' \<and> (\<exists>i<length (ss_schedulers w'). t_active (s_timer (ss_schedulers w' ! i))) \<and>
    (\<forall>is. set is \<subseteq> {..<length (ss_schedulers w)} \<and>
       (\<forall>i<length (ss_schedulers w). count_list is i = length (queues w' ! i)) \<longrightarrow>
       (\<exists>w'' cbs. run_fires lv is w' = Some (w'', cbs) \<and> concat (queues w'') = [] \<and>
          length cbs = card (waiting w') \<and> ns_ndranges (ss_store w'') p = None))"
proof -
  obtain a' w' where r: "simple_route_ndrange lv tr (Some p) a w = Inr (ML_SUCCESS, a', w')"
    "length (ss_schedulers w') = length (ss_schedulers w)" "sched_inv w'" "launches_inv w'" "0 < pending w' p"
    using routed_ok [OF assms] by (elim exE conjE) (rule that)
  have p: "p \<in> waiting w'" using r(5) by (simp add: waiting_def)
  have "concat (queues w') \<noteq> []" using r(5) by (auto simp: pending_def simp del: concat_eq_Nil_conv)
  then have t: "\<exists>i<length (ss_schedulers w'). t_active (s_timer (ss_schedulers w' ! i))"
    using some_timer_runs [OF r(3)] by (auto simp: timer_runs_def)
  have "\<exists>w'' cbs. run_fires lv is w' = Some (w'', cbs) \<and> concat (queues w'') = [] \<and>
      length cbs = card (waiting w') \<and> ns_ndranges (ss_store w'') p = None"
    if h: "set is \<subseteq> {..<length (ss_schedulers w)}"
      "\<forall>i<length (ss_schedulers w). count_list is i = length (queues w' ! i)" for "is"
    using run_fires_drains [OF assms(1) r(3,4)] h r(2) p by (metis (no_types, lifting))
  then show ?thesis using r(1) p t by blast
qed

theorem routed_launch_completes_witness:
  "\<exists>w a' w'. queues w = [[], []] \<and>
    simple_route_ndrange demo_libev demo_tracker (Some 7) (new_AlgoSimple 2) w = Inr (ML_SUCCESS, a', w') \<and>
    (\<forall>is. set is \<subseteq> {..<2} \<and> (\<forall>i<2. count_list is i = length (queues w' ! i)) \<longrightarrow>
       (\<exists>w'' cbs. run_fires demo_libev is w' = Some (w'', cbs) \<and> ns_ndranges (ss_store w'') 7 = None))"
proof -
  obtain w where w: "sched_inv w" "launches_inv w" "queues w = [[], []]" "length (ss_schedulers w) = 2"
      "launch_ready demo_tracker (new_AlgoSimple 2) w 7 demo_nd ''k.xml''"
    using demo_launch_ready by (elim exE conjE) (rule that)
  have t: "unat (n_total_size demo_nd) = 5" by (simp add: demo_nd_def)
  show ?thesis
    using routed_launch_completes [OF demo_libev_ok w(1,2,5)] w(3,4)
    by (metis (no_types, lifting))
qed


text \<open>C33: A launch without work groups is lost: routing reports success but submits nothing, and
  whatever timers fire afterwards, its index space is never deleted, so the code that would
  complete its event never runs.\<close>
theorem empty_launch_never_completes:
  assumes "libev_ok lv" and "sched_inv w" and "launches_inv w"
    and "ns_ndranges (ss_store w) p = Some nd" and "n_total_size nd = 0" and "pending w p = 0"
    and "nd_get_kernel_name (ns_objs (ss_store w)) nd = Inr name"
    and "algo_wf a (length (ss_schedulers w))" and "length (ss_schedulers w) \<le> 89"
    and "prices_ok tr name w 0"
  shows "(\<exists>a'. simple_route_ndrange lv tr (Some p) a w = Inr (ML_SUCCESS, a', w)) \<and>
    (\<forall>is w' cbs. run_fires lv is w = Some (w', cbs) \<longrightarrow> ns_ndranges (ss_store w') p = Some nd)"
proof
  let ?n = "length (ss_schedulers w)" and ?a0 = "a\<lparr>m_current_min := -1\<rparr>"
  let ?a1 = "priced tr name w ?n ?a0"
  have a0: "algo_wf ?a0 ?n" "m_current_min ?a0 = -1" using assms(8) by (simp_all add: algo_wf_def)
  have ni: "m_num_islands a = ?n" using assms(8) by (simp add: algo_wf_def)
  have fill: "foldr_res (fill_island tr (ss_now w) (ss_schedulers w) (n_resource_string nd) name) [0..<?n] ?a0 =
      Inr ?a1" by (rule fill_islands [OF assms(10) a0(1)]) simp
  note ready = priced_ready [OF assms(10) a0]
  have r0: "search_ready ?a1 0" by (rule ready(1)) simp_all
  have fl: "map (\<lambda>x. x \<noteq> UNSUITABLE_ISLAND) (m_wgs_per_islands ?a1) = replicate ?n True"
    by (rule ready(2)) simp_all
  have d0: "dists (replicate m True) 0 = [replicate m 0]" for m by (induction m) simp_all
  obtain v where v: "recursive_function ?n ?a1 0 0 =
      Inr ((take_if_better (replicate ?n 0) ?a1)\<lparr>m_wgs_per_islands := v\<rparr>)"
    using search_result [OF r0] unfolding fl d0 by (auto simp: priced_def ni)
  define a2 where "a2 = (take_if_better (replicate ?n 0) ?a1)\<lparr>m_wgs_per_islands := v\<rparr>"
  have res: "m_result a2 = replicate ?n 0" and n2: "m_num_islands a2 = ?n"
    by (simp_all add: a2_def take_if_better_def priced_def ni)
  have "log_line_bytes (m_result a2) \<le> 1024"
    using assms(9) by (intro log_line_fits) (simp_all add: res)
  moreover have carve: "foldr_res (carve_island lv p a2) is w = Inr w" if "set is \<subseteq> {..<?n}" for "is"
    using that by (induction "is") (simp_all add: carve_island_def vec_get_def res)
  moreover have "\<not> has_more_wgs nd" by (simp add: has_more_wgs_def assms(5))
  moreover have "foldr_res (carve_island lv p a2) [0..<?n] w = Inr w" by (rule carve) auto
  moreover have "m_num_islands ?a1 = ?n" using ni by (simp add: priced_def)
  ultimately have "simple_route_ndrange lv tr (Some p) a w = Inr (ML_SUCCESS, a2, w)"
    using assms(4,5,7) fill v n2 by (simp add: simple_route_ndrange_def ni a2_def [symmetric])
  then show "\<exists>a'. simple_route_ndrange lv tr (Some p) a w = Inr (ML_SUCCESS, a', w)" by blast
next
  show "\<forall>is w' cbs. run_fires lv is w = Some (w', cbs) \<longrightarrow> ns_ndranges (ss_store w') p = Some nd"
    using run_fires_frame [OF assms(1) _ assms(2,3,6)] assms(4) by (metis (no_types))
qed

theorem empty_launch_never_completes_witness:
  "\<exists>w a'. queues w = [[], []] \<and>
    simple_route_ndrange demo_libev demo_tracker (Some 7) (new_AlgoSimple 2) w = Inr (ML_SUCCESS, a', w) \<and>
    ns_ndranges (ss_store w) 7 = Some (demo_nd\<lparr>n_total_size := 0\<rparr>)"
proof -
  let ?nd = "demo_nd\<lparr>n_total_size := 0\<rparr>"
  have f: "n_wgrs_in_the_wild ?nd = 0" "n_kernel ?nd = 0" "n_event ?nd = 1" by (simp_all add: demo_nd_def)
  have K: "(0::int) \<le> 0" "(0::int) \<le> 5" by simp_all
  obtain w where w: "sched_inv w" "launches_inv w" "ss_store w = demo_launch ?nd" "queues w = [[], []]"
      "length (ss_schedulers w) = 2" "pending w 7 = 0" "prices_ok demo_tracker ''k.xml'' w 0"
    using demo_launch_start [OF f K] by (elim exE conjE) (rule that)
  have nd: "ns_ndranges (ss_store w) 7 = Some ?nd" by (simp add: w(3) demo_launch_def)
  have t: "n_total_size ?nd = 0" by simp
  have name: "nd_get_kernel_name (ns_objs (ss_store w)) ?nd = Inr ''k.xml''"
    by (simp add: w(3) demo_launch_def demo_nd_def nd_get_kernel_name_def new_cl_kernel_def)
  have aw: "algo_wf (new_AlgoSimple 2) (length (ss_schedulers w))" by (simp add: w(5) new_AlgoSimple_wf)
  have l: "length (ss_schedulers w) \<le> 89" by (simp add: w(5))
  show ?thesis
    using empty_launch_never_completes [OF demo_libev_ok w(1,2) nd t w(6) name aw l w(7)] nd w(4) by blast
qed

text \<open>Without schedulers (a configuration without regions) every launch that has work groups ends
  the process with a failed assertion.\<close>
theorem simple_route_without_schedulers:
  assumes "ns_ndranges (ss_store w) p = Some nd" and "has_more_wgs nd"
    and "nd_get_kernel_name (ns_objs (ss_store w)) nd = Inr name" and "n_total_size nd < 2 ^ 31"
  shows "simple_route_ndrange lv tr (Some p) (new_AlgoSimple 0) w = Inl Assert_failed"
proof -
  have "0 < n_total_size nd" using assms(2) by (auto simp: has_more_wgs_def word_less_nat_alt)
  moreover have "unat (n_total_size nd) < 2 ^ 31" using assms(4) by (simp add: word_less_nat_alt)
  ultimately have "sint (n_total_size nd) \<noteq> 0"
    unfolding sint_small [OF \<open>unat (n_total_size nd) < 2 ^ 31\<close>] word_less_nat_alt
    by (simp only: of_nat_eq_0_iff unat_0)
  then show ?thesis using assms
    by (simp add: simple_route_ndrange_def new_AlgoSimple_def log_line_bytes_def)
       (subst recursive_function.simps, simp)
qed


theorem simple_route_without_schedulers_witness:
  "simple_route_ndrange demo_libev demo_tracker (Some 7) (new_AlgoSimple 0)
     \<lparr>ss_store = demo_launch demo_nd, ss_schedulers = [],
      ss_free = \<lparr>f_free_schedulers = undefined, f_free_sched_timer = new_EvTimerBase, f_cb = True\<rparr>,
      ss_now = 0\<rparr> = Inl Assert_failed"
  by (rule simple_route_without_schedulers [where nd = demo_nd and name = "''k.xml''"])
     (simp_all add: demo_launch_def demo_nd_def nd_get_kernel_name_def new_cl_kernel_def has_more_wgs_def)

end
