(* ===== verification/Algo_Slicing.thy ===== *)
theory Algo_Slicing
  imports Algo_Simple
begin

text \<open>
  The slicing algorithm (\<^verbatim>\<open>cpp/algo_slicing.cc\<close>): launches wait in a ring; whenever the timer of
  the free schedulers fires, the launch at the front gets one slice, as many work groups as fit
  a quantum of time on the best free scheduler, and goes to the back while it has groups left.
  The dispatcher constructs it and registers it with the manager of the free schedulers, but
  routes launches to the other algorithm; it is reached through \<open>route_ndrange\<close>.
\<close>

section \<open>State\<close>

(* src/cpp/algo_slicing.h:39-59 AlgoSlicing *)
record algo_slicing =
  m_ndranges :: "ptr circ_array"
  m_min_quant :: u32
  m_max_idle_threshold :: u32

(* src/cpp/algo_slicing.h:42-46 AlgoSlicing::AlgoSlicing *)
definition new_AlgoSlicing :: "(nat \<Rightarrow> ptr) \<Rightarrow> u32 \<Rightarrow> u32 \<Rightarrow> algo_slicing res" where
  "new_AlgoSlicing junk min_quant max_idle_threshold =
     bindr (ca_new_default junk) (\<lambda>c.
       Inr \<lparr>m_ndranges = c, m_min_quant = min_quant, m_max_idle_threshold = max_idle_threshold\<rparr>)"

(* src/cpp/algo_slicing.cc:10-23 AlgoSlicing::route_ndrange *)
definition slicing_route_ndrange :: "ptr \<Rightarrow> algo_slicing \<Rightarrow> (RC \<times> algo_slicing) res" where
  "slicing_route_ndrange ndrange al =
     (if ca_is_full (m_ndranges al) then Inr (ML_ERROR_TOO_MANY_NDR, al)
      else bindr (ca_push_front (m_ndranges al) ndrange False) (\<lambda>(_, c).
             Inr (ML_SUCCESS, al\<lparr>m_ndranges := c\<rparr>)))"

section \<open>Choosing a scheduler\<close>

text \<open>
  The variables of the loop: \<open>max_wgs\<close> is an \<open>int\<close> that starts as -1, the others are unsigned.
\<close>

(* src/cpp/algo_slicing.cc:35-39 select_best_scheduler (variables) *)
record chosen =
  c_scheduler_idx :: u64
  c_max_wgs :: int
  c_reconf_cost :: u32
  c_wg_cost :: u32
  c_total_cost :: u32

text \<open>
  One turn of the loop. The identifier in the list of free schedulers is used as an index into
  the vector of schedulers. All costs are computed in \<open>unsigned\<close>; comparing \<open>num_wgs\<close> with
  \<open>max_wgs\<close> converts the latter.
\<close>

(* src/cpp/algo_slicing.cc:47-95 select_best_scheduler (loop body) *)
definition consider_scheduler ::
  "tracker \<Rightarrow> scheduler list \<Rightarrow> string \<Rightarrow> string \<Rightarrow> u32 \<Rightarrow> u32 \<Rightarrow> chosen \<Rightarrow> chosen res" where
  "consider_scheduler tr ss res_string kernel_name quant scheduler_idx ch =
     bindr (vec_get ss (unat scheduler_idx)) (\<lambda>s.
       if \<not> check_resource_string (s_id s) res_string kernel_name then Inr ch
       else bindr (get_wg_cost_on_island tr scheduler_idx kernel_name) (\<lambda>wg_exec_cost.
            bindr (if would_need_reconf s kernel_name
                   then get_reconf_cost_on_island tr scheduler_idx kernel_name else Inr 0) (\<lambda>reconf_cost.
              if wg_exec_cost = 0 then Inl Div_by_zero
              else let after_reconf_cost = quant - reconf_cost;
                       num_wgs = after_reconf_cost div wg_exec_cost;
                       total_cost = reconf_cost + num_wgs * wg_exec_cost
                   in Inr (if num_wgs = 0 then ch
                           else if c_max_wgs ch < 0 \<or> num_wgs > word_of_int (c_max_wgs ch) \<or>
                                   (num_wgs = word_of_int (c_max_wgs ch) \<and> total_cost < c_total_cost ch)
                           then \<lparr>c_scheduler_idx = ucast scheduler_idx, c_max_wgs = sint num_wgs,
                                 c_reconf_cost = reconf_cost, c_wg_cost = wg_exec_cost,
                                 c_total_cost = total_cost\<rparr>
                           else ch))))"

(* src/cpp/algo_slicing.cc:45-96 select_best_scheduler (loop) *)
function select_loop ::
  "tracker \<Rightarrow> scheduler list \<Rightarrow> string \<Rightarrow> string \<Rightarrow> u32 \<Rightarrow> u32 circ_array \<Rightarrow> int \<Rightarrow> chosen \<Rightarrow> chosen res" where
  "select_loop tr ss res_string kernel_name quant free i ch =
     (if (word_of_int i :: u64) < ca_occupancy free then
        bindr (ca_get free (word_of_int i)) (\<lambda>scheduler_idx.
        bindr (consider_scheduler tr ss res_string kernel_name quant scheduler_idx ch) (\<lambda>ch'.
          if i \<ge> int_max then Inl Int_overflow
          else select_loop tr ss res_string kernel_name quant free (i + 1) ch'))
      else Inr ch)"
  by pat_completeness auto
termination
  by (relation "measure (\<lambda>(tr, ss, rs, kn, q, f, i, ch). nat (int_max - i))") auto

declare select_loop.simps [simp del]

text \<open>The result: the chosen index or -1, and the tuple, which is left alone in the second case.\<close>

(* src/cpp/algo_slicing.cc:27-110 select_best_scheduler *)
definition select_best_scheduler ::
  "tracker \<Rightarrow> scheduler list \<Rightarrow> nd_store \<Rightarrow> u32 circ_array \<Rightarrow> ptr \<Rightarrow> u32 \<Rightarrow> u32 \<times> u32 \<times> u32 \<Rightarrow>
     (int \<times> u32 \<times> u32 \<times> u32) res" where
  "select_best_scheduler tr ss st free p quant wgs_and_cost =
     bindr (deref (ns_ndranges st) p) (\<lambda>nd.
     bindr (nd_get_kernel_name (ns_objs st) nd) (\<lambda>kernel_name.
     bindr (select_loop tr ss (n_resource_string nd) kernel_name quant free 0
              \<lparr>c_scheduler_idx = 0, c_max_wgs = -1, c_reconf_cost = 0, c_wg_cost = 0, c_total_cost = 0\<rparr>) (\<lambda>ch.
       Inr (if c_max_wgs ch < 0 then (-1, wgs_and_cost)
            else (sint (ucast (c_scheduler_idx ch) :: u32), word_of_int (c_max_wgs ch), c_wg_cost ch,
                  c_reconf_cost ch)))))"

section \<open>The slice\<close>

(* src/cpp/algo_slicing.cc:114-167 AlgoSlicing::on_free_schedulers *)
definition on_free_schedulers ::
  "libev \<Rightarrow> tracker \<Rightarrow> algo_slicing \<Rightarrow> sched_state \<Rightarrow> (algo_slicing \<times> sched_state) res" where
  "on_free_schedulers lv tr al w =
     (let free = f_free_schedulers (ss_free w); ss = ss_schedulers w in
      if ca_empty (m_ndranges al) \<or> ca_empty free then Inr (al, w)
      else bindr (ca_pop_front (m_ndranges al)) (\<lambda>(p, c).
           bindr (deref (ns_ndranges (ss_store w)) p) (\<lambda>nd.
           bindr (nd_get_kernel_name (ns_objs (ss_store w)) nd) (\<lambda>_.
           bindr (select_best_scheduler tr ss (ss_store w) free p (m_min_quant al) (0, 0, 0)) (\<lambda>(chosen1, t1).
           bindr (if chosen1 < 0 \<and> m_max_idle_threshold al \<noteq> 0
                  then select_best_scheduler tr ss (ss_store w) free p
                         (m_min_quant al * m_max_idle_threshold al) t1
                  else Inr (chosen1, t1)) (\<lambda>(chosen, wgs, wg_cost, reconf_cost).
             if chosen < 0
             then bindr (ca_push_back c p False) (\<lambda>(_, c'). Inr (al\<lparr>m_ndranges := c'\<rparr>, w))
             else bindr (vec_get ss (nat chosen)) (\<lambda>s.
                  bindr (carve_at (ss_store w) p (ucast wgs)) (\<lambda>(wgr, st).
                  bindr (submit_wgr lv (nat chosen)
                           (wgr\<lparr>w_execution_cost := ucast (w_total_size wgr * wg_cost + reconf_cost)\<rparr>)
                           (w\<lparr>ss_store := st\<rparr>)) (\<lambda>w1.
                  bindr (deref (ns_ndranges (ss_store w1)) p) (\<lambda>nd1.
                    if has_more_wgs nd1
                    then bindr (ca_push_back c p False) (\<lambda>(_, c'). Inr (al\<lparr>m_ndranges := c'\<rparr>, w1))
                    else bindr (nd_get_kernel_name (ns_objs (ss_store w1)) nd1) (\<lambda>_.
                           Inr (al\<lparr>m_ndranges := c\<rparr>, w1))))))))))))"

text \<open>The timer of the free schedulers.\<close>

(* src/cpp/ev_timer.cc:78-92 FreeSchedulersEvTimer::on_timer *)
definition free_on_timer ::
  "libev \<Rightarrow> tracker \<Rightarrow> algo_slicing \<Rightarrow> sched_state \<Rightarrow> (algo_slicing \<times> sched_state) res" where
  "free_on_timer lv tr al w =
     (if \<not> f_cb (ss_free w) then Inr (al, w)
      else bindr (on_free_schedulers lv tr al w) (\<lambda>(al1, w1).
             Inr (al1, if ca_occupancy (f_free_schedulers (ss_free w1)) \<noteq> 0
                       then w1\<lparr>ss_free := (ss_free w1)\<lparr>f_free_sched_timer :=
                              start_timer lv (ss_now w1) (f_free_sched_timer (ss_free w1)) 0 0\<rparr>\<rparr>
                       else w1)))"

section \<open>Facts about the choice\<close>

text \<open>The loop goes through the list of free schedulers.\<close>

lemma select_loop_ok:
  assumes wf: "ca_wf c" and n: "length (ca_list c) < 2 ^ 31" and i: "i \<le> length (ca_list c)"
  shows "select_loop tr ss rs kn q c (int i) ch =
    foldr_res (consider_scheduler tr ss rs kn q) (drop i (ca_list c)) ch"
  using i
proof (induction "length (ca_list c) - i" arbitrary: i ch)
  case 0
  then have il: "i = length (ca_list c)" by simp
  have "\<not> (word_of_int (int i) :: u64) < ca_occupancy c"
    using n il by (simp add: word_less_nat_alt ca_occupancy_length unat_of_nat_small)
  then show ?case using il by (subst select_loop.simps) simp
next
  case (Suc k)
  then have il: "i < length (ca_list c)" by simp
  have u: "unat (word_of_int (int i) :: u64) = i" using il n by (simp add: unat_of_nat_small)
  have lt: "(word_of_int (int i) :: u64) < ca_occupancy c"
    unfolding word_less_nat_alt ca_occupancy_length u by (rule il)
  have g: "ca_get c (word_of_int (int i)) = Inr (ca_list c ! i)"
    using ca_get_ok [OF wf, of "word_of_int (int i)"] il unfolding u by simp
  have ni: "\<not> int i \<ge> int_max" using il n by simp
  have k: "k = length (ca_list c) - Suc i" using Suc.hyps(2) by simp
  have IH: "select_loop tr ss rs kn q c (int i + 1) ch' =
      foldr_res (consider_scheduler tr ss rs kn q) (drop (Suc i) (ca_list c)) ch'" for ch'
    using Suc.hyps(1) [OF k] il by (simp add: add.commute)
  show ?case
    using lt g ni il IH
    by (subst select_loop.simps) (simp add: Cons_nth_drop_Suc [symmetric] cong: bindr_cong)
qed

text \<open>
  What a free scheduler offers for a quantum, in natural numbers: its reconfiguration cost, the
  cost of a group, how many groups fit the quantum and what they cost.
\<close>

definition reconf_of :: "tracker \<Rightarrow> string \<Rightarrow> scheduler list \<Rightarrow> u32 \<Rightarrow> nat" where
  "reconf_of tr kn ss sid =
     (if would_need_reconf (ss ! unat sid) kn
      then (case get_reconf_cost_on_island tr sid kn of Inl _ \<Rightarrow> 0 | Inr x \<Rightarrow> unat x) else 0)"

definition cost_of :: "tracker \<Rightarrow> string \<Rightarrow> u32 \<Rightarrow> nat" where
  "cost_of tr kn sid = (case get_wg_cost_on_island tr sid kn of Inl _ \<Rightarrow> 0 | Inr x \<Rightarrow> unat x)"

definition slice_wgs :: "tracker \<Rightarrow> string \<Rightarrow> scheduler list \<Rightarrow> nat \<Rightarrow> u32 \<Rightarrow> nat" where
  "slice_wgs tr kn ss q sid = (q - reconf_of tr kn ss sid) div cost_of tr kn sid"

definition slice_total :: "tracker \<Rightarrow> string \<Rightarrow> scheduler list \<Rightarrow> nat \<Rightarrow> u32 \<Rightarrow> nat" where
  "slice_total tr kn ss q sid = reconf_of tr kn ss sid + slice_wgs tr kn ss q sid * cost_of tr kn sid"

text \<open>
  A scheduler the loop can price: its id is an index of the vector, the tracker knows it, its
  groups cost something, and it can be reconfigured within the quantum.
\<close>

definition choosable :: "tracker \<Rightarrow> string \<Rightarrow> scheduler list \<Rightarrow> nat \<Rightarrow> u32 \<Rightarrow> bool" where
  "choosable tr kn ss q sid \<longleftrightarrow> unat sid < length ss \<and>
     is_ok (get_wg_cost_on_island tr sid kn) \<and> 0 < cost_of tr kn sid \<and>
     (would_need_reconf (ss ! unat sid) kn \<longrightarrow> is_ok (get_reconf_cost_on_island tr sid kn)) \<and>
     reconf_of tr kn ss sid \<le> q"

lemma consider_ok:
  assumes q: "unat q < 2 ^ 31" and ok: "choosable tr kn ss (unat q) sid"
    and ch: "-1 \<le> c_max_wgs ch" "c_max_wgs ch < 2 ^ 31"
  shows "consider_scheduler tr ss rs kn q sid ch =
    Inr (if slice_wgs tr kn ss (unat q) sid = 0 then ch
         else if c_max_wgs ch < int (slice_wgs tr kn ss (unat q) sid) \<or>
                 c_max_wgs ch = int (slice_wgs tr kn ss (unat q) sid) \<and>
                 slice_total tr kn ss (unat q) sid < unat (c_total_cost ch)
         then \<lparr>c_scheduler_idx = ucast sid, c_max_wgs = int (slice_wgs tr kn ss (unat q) sid),
               c_reconf_cost = of_nat (reconf_of tr kn ss sid), c_wg_cost = of_nat (cost_of tr kn sid),
               c_total_cost = of_nat (slice_total tr kn ss (unat q) sid)\<rparr>
         else ch)"
proof -
  let ?s = "ss ! unat sid"
  let ?n = "slice_wgs tr kn ss (unat q) sid" and ?t = "slice_total tr kn ss (unat q) sid"
  obtain c where c: "get_wg_cost_on_island tr sid kn = Inr c"
    using ok by (auto simp: choosable_def is_ok_iff)
  have co: "cost_of tr kn sid = unat c" by (simp add: cost_of_def c)
  have "\<exists>r. (if would_need_reconf ?s kn then get_reconf_cost_on_island tr sid kn else Inr 0) = Inr r \<and>
      reconf_of tr kn ss sid = unat r"
    using ok by (cases "would_need_reconf ?s kn") (auto simp: choosable_def is_ok_iff reconf_of_def)
  then obtain r where r: "(if would_need_reconf ?s kn then get_reconf_cost_on_island tr sid kn else Inr 0) = Inr r"
      and ro: "reconf_of tr kn ss sid = unat r" by blast
  have cz: "c \<noteq> 0" using ok co by (auto simp: choosable_def)
  have rq: "unat r \<le> unat q" using ok ro by (simp add: choosable_def)
  have n: "unat ((q - r) div c) = ?n"
    using rq unat_sub [of r q] by (simp add: unat_div slice_wgs_def co ro word_le_nat_alt)
  have nc: "?n * unat c \<le> unat q - unat r" by (simp add: slice_wgs_def co ro)
  have n31: "?n < 2 ^ 31" using q by (simp add: slice_wgs_def co ro) (meson div_le_dividend less_imp_diff_less order.strict_trans1)
  have m: "unat ((q - r) div c * c) = ?n * unat c"
    using nc q n by (subst unat_word_ariths) simp
  have t: "unat (r + (q - r) div c * c) = ?t"
    using nc q rq m unfolding slice_total_def co ro by (subst unat_add_nowrap) simp_all
  have sn: "sint ((q - r) div c) = int ?n" using n n31 by (subst sint_small) simp_all
  have cond: "c_max_wgs ch < 0 \<or> (q - r) div c > word_of_int (c_max_wgs ch) \<or>
      (q - r) div c = word_of_int (c_max_wgs ch) \<and> r + (q - r) div c * c < c_total_cost ch \<longleftrightarrow>
      c_max_wgs ch < int ?n \<or> c_max_wgs ch = int ?n \<and> ?t < unat (c_total_cost ch)"
    if n0: "?n \<noteq> 0"
  proof (cases "c_max_wgs ch < 0")
    case True
    then show ?thesis using n0 by simp
  next
    case False
    then obtain k where k: "c_max_wgs ch = int k" using nonneg_int_cases by (metis not_less)
    then have "k < 2 ^ 31" using ch by simp
    then have "unat (word_of_int (c_max_wgs ch) :: u32) = k" by (simp add: k unat_of_nat_small)
    then show ?thesis using False by (simp add: word_less_nat_alt word_unat_eq_iff n t k) auto
  qed
  have z: "(q - r) div c = 0 \<longleftrightarrow> ?n = 0" using n by (simp add: word_unat_eq_iff)
  have rw: "of_nat (reconf_of tr kn ss sid) = r" "of_nat (cost_of tr kn sid) = c"
    "of_nat ?t = r + (q - r) div c * c" unfolding t [symmetric] ro co by simp_all
  have l: "unat sid < length ss" using ok by (simp add: choosable_def)
  have "consider_scheduler tr ss rs kn q sid ch =
      Inr (if ?n = 0 then ch
           else if c_max_wgs ch < 0 \<or> (q - r) div c > word_of_int (c_max_wgs ch) \<or>
                   (q - r) div c = word_of_int (c_max_wgs ch) \<and> r + (q - r) div c * c < c_total_cost ch
           then \<lparr>c_scheduler_idx = ucast sid, c_max_wgs = int ?n, c_reconf_cost = r, c_wg_cost = c,
                 c_total_cost = r + (q - r) div c * c\<rparr>
           else ch)"
    unfolding consider_scheduler_def vec_get_def if_P [OF l] bindr.simps check_resource_string_def c r
      if_not_P [OF cz] Let_def z sn by simp
  then show ?thesis unfolding rw using cond by (cases "?n = 0") simp_all
qed

text \<open>The variables after the schedulers of a list were considered.\<close>

definition best_choice :: "tracker \<Rightarrow> string \<Rightarrow> scheduler list \<Rightarrow> nat \<Rightarrow> u32 set \<Rightarrow> chosen \<Rightarrow> bool" where
  "best_choice tr kn ss q D ch \<longleftrightarrow>
     (c_max_wgs ch = -1 \<and> (\<forall>d\<in>D. slice_wgs tr kn ss q d = 0)) \<or>
     (\<exists>sid\<in>D. 0 < slice_wgs tr kn ss q sid \<and>
        ch = \<lparr>c_scheduler_idx = ucast sid, c_max_wgs = int (slice_wgs tr kn ss q sid),
              c_reconf_cost = of_nat (reconf_of tr kn ss sid), c_wg_cost = of_nat (cost_of tr kn sid),
              c_total_cost = of_nat (slice_total tr kn ss q sid)\<rparr> \<and>
        (\<forall>d\<in>D. slice_wgs tr kn ss q d < slice_wgs tr kn ss q sid \<or>
           slice_wgs tr kn ss q d = slice_wgs tr kn ss q sid \<and>
           slice_total tr kn ss q sid \<le> slice_total tr kn ss q d))"

lemma slice_bounds:
  assumes "choosable tr kn ss q sid"
  shows "slice_wgs tr kn ss q sid \<le> q" and "slice_total tr kn ss q sid \<le> q"
proof -
  have "slice_wgs tr kn ss q sid * cost_of tr kn sid \<le> q - reconf_of tr kn ss sid"
    by (simp add: slice_wgs_def)
  moreover have "reconf_of tr kn ss sid \<le> q" using assms by (simp add: choosable_def)
  ultimately show "slice_total tr kn ss q sid \<le> q" unfolding slice_total_def by (simp only: le_diff_conv2 add.commute)
  show "slice_wgs tr kn ss q sid \<le> q"
    unfolding slice_wgs_def by (meson diff_le_self div_le_dividend le_trans)
qed

lemma consider_all:
  assumes q: "unat q < 2 ^ 31"
    and "\<forall>sid\<in>D \<union> set sids. choosable tr kn ss (unat q) sid" and "best_choice tr kn ss (unat q) D ch"
  shows "\<exists>ch'. foldr_res (consider_scheduler tr ss rs kn q) sids ch = Inr ch' \<and>
    best_choice tr kn ss (unat q) (D \<union> set sids) ch'"
  using assms(2,3)
proof (induction sids arbitrary: D ch)
  case Nil
  then show ?case by simp
next
  case (Cons sid sids)
  let ?q = "unat q"
  let ?W = "slice_wgs tr kn ss ?q" and ?T = "slice_total tr kn ss ?q"
  have ok: "choosable tr kn ss ?q sid" using Cons.prems(1) by simp
  have r: "-1 \<le> c_max_wgs ch" "c_max_wgs ch < 2 ^ 31"
    using Cons.prems q slice_bounds(1) unfolding best_choice_def by fastforce+
  have tot: "unat (c_total_cost ch) = ?T d"
    if "ch = \<lparr>c_scheduler_idx = ucast d, c_max_wgs = int (?W d),
              c_reconf_cost = of_nat (reconf_of tr kn ss d), c_wg_cost = of_nat (cost_of tr kn d),
              c_total_cost = of_nat (?T d)\<rparr>" "d \<in> D" for d
    using that Cons.prems(1) slice_bounds(2) [of tr kn ss ?q d] q by (simp add: unat_of_nat_small)
  obtain ch1 where c1: "consider_scheduler tr ss rs kn q sid ch = Inr ch1"
      and b1: "best_choice tr kn ss ?q (insert sid D) ch1"
  proof -
    consider (none) "c_max_wgs ch = -1" "\<forall>d\<in>D. ?W d = 0"
      | (some) d where "d \<in> D" "0 < ?W d" "ch = \<lparr>c_scheduler_idx = ucast d, c_max_wgs = int (?W d),
              c_reconf_cost = of_nat (reconf_of tr kn ss d), c_wg_cost = of_nat (cost_of tr kn d),
              c_total_cost = of_nat (?T d)\<rparr>" "\<forall>e\<in>D. ?W e < ?W d \<or> ?W e = ?W d \<and> ?T d \<le> ?T e"
      using Cons.prems(2) unfolding best_choice_def by blast
    then show ?thesis
    proof cases
      case none
      show ?thesis
      proof (cases "?W sid = 0")
        case True
        then have "consider_scheduler tr ss rs kn q sid ch = Inr ch"
          using consider_ok [OF q ok r] by simp
        moreover have "best_choice tr kn ss ?q (insert sid D) ch"
          unfolding best_choice_def using none True by (intro disjI1) simp
        ultimately show ?thesis by (rule that)
      next
        case False
        let ?ch = "\<lparr>c_scheduler_idx = ucast sid, c_max_wgs = int (?W sid),
              c_reconf_cost = of_nat (reconf_of tr kn ss sid), c_wg_cost = of_nat (cost_of tr kn sid),
              c_total_cost = of_nat (?T sid)\<rparr>"
        have "consider_scheduler tr ss rs kn q sid ch = Inr ?ch"
          using consider_ok [OF q ok r] False none(1) by simp
        moreover have "best_choice tr kn ss ?q (insert sid D) ?ch"
          unfolding best_choice_def using none(2) False by (intro disjI2 bexI [of _ sid]) simp_all
        ultimately show ?thesis by (rule that)
      qed
    next
      case some
      have t: "unat (c_total_cost ch) = ?T d" by (rule tot [OF some(3,1)])
      have m: "c_max_wgs ch = int (?W d)" by (simp add: some(3))
      show ?thesis
      proof (cases "?W sid = 0 \<or> \<not> (?W d < ?W sid \<or> ?W d = ?W sid \<and> ?T sid < ?T d)")
        case True
        then have "consider_scheduler tr ss rs kn q sid ch = Inr ch"
          using consider_ok [OF q ok r] unfolding m t by auto
        moreover have "best_choice tr kn ss ?q (insert sid D) ch"
          unfolding best_choice_def using some True by (intro disjI2 bexI [of _ d]) auto
        ultimately show ?thesis by (rule that)
      next
        case False
        let ?ch = "\<lparr>c_scheduler_idx = ucast sid, c_max_wgs = int (?W sid),
              c_reconf_cost = of_nat (reconf_of tr kn ss sid), c_wg_cost = of_nat (cost_of tr kn sid),
              c_total_cost = of_nat (?T sid)\<rparr>"
        have "consider_scheduler tr ss rs kn q sid ch = Inr ?ch"
          using consider_ok [OF q ok r] False unfolding m t by auto
        moreover have "best_choice tr kn ss ?q (insert sid D) ?ch"
          unfolding best_choice_def using some(4) False by (intro disjI2 bexI [of _ sid]) fastforce+
        ultimately show ?thesis by (rule that)
      qed
    qed
  qed
  have "\<forall>d\<in>insert sid D \<union> set sids. choosable tr kn ss ?q d" using Cons.prems(1) by auto
  then show ?case using Cons.IH [OF _ b1] c1 by simp
qed


lemma ucast_id_up: "(ucast (ucast (x :: u32) :: u64) :: u32) = x"
proof -
  have "unat (ucast x :: u64) = unat x" using unat_bound32 [of x] by (intro unat_ucast_small) simp
  moreover from this have "unat (ucast (ucast x :: u64) :: u32) = unat (ucast x :: u64)"
    using unat_bound32 [of x] by (intro unat_ucast_small) simp
  ultimately show ?thesis by (simp only: word_unat_eq_iff)
qed

lemma select_best_ok:
  assumes free: "ca_wf free" "length (ca_list free) < 2 ^ 31" and q: "unat q < 2 ^ 31"
    and ok: "\<forall>sid\<in>set (ca_list free). choosable tr kn ss (unat q) sid" and l: "length ss < 2 ^ 31"
    and nd: "ns_ndranges st p = Some nd" "nd_get_kernel_name (ns_objs st) nd = Inr kn"
  shows "(\<forall>d\<in>set (ca_list free). slice_wgs tr kn ss (unat q) d = 0) \<and>
      select_best_scheduler tr ss st free p q t = Inr (-1, t) \<or>
    (\<exists>sid\<in>set (ca_list free). 0 < slice_wgs tr kn ss (unat q) sid \<and>
      select_best_scheduler tr ss st free p q t =
        Inr (int (unat sid), of_nat (slice_wgs tr kn ss (unat q) sid), of_nat (cost_of tr kn sid),
             of_nat (reconf_of tr kn ss sid)) \<and>
      (\<forall>d\<in>set (ca_list free).
         slice_wgs tr kn ss (unat q) d < slice_wgs tr kn ss (unat q) sid \<or>
         slice_wgs tr kn ss (unat q) d = slice_wgs tr kn ss (unat q) sid \<and>
         slice_total tr kn ss (unat q) sid \<le> slice_total tr kn ss (unat q) d))"
proof -
  let ?ch0 = "\<lparr>c_scheduler_idx = 0, c_max_wgs = -1, c_reconf_cost = 0, c_wg_cost = 0, c_total_cost = 0\<rparr>"
  have ok': "\<forall>sid\<in>{} \<union> set (ca_list free). choosable tr kn ss (unat q) sid" using ok by simp
  have b0: "best_choice tr kn ss (unat q) {} ?ch0" by (simp add: best_choice_def)
  obtain ch where ch: "foldr_res (consider_scheduler tr ss (n_resource_string nd) kn q) (ca_list free) ?ch0 = Inr ch"
      "best_choice tr kn ss (unat q) (set (ca_list free)) ch"
    using consider_all [OF q ok' b0] by auto
  have sel: "select_loop tr ss (n_resource_string nd) kn q free 0 ?ch0 = Inr ch"
    using select_loop_ok [OF free(1,2), of 0] ch(1) by simp
  have eq: "select_best_scheduler tr ss st free p q t =
      Inr (if c_max_wgs ch < 0 then (-1, t)
            else (sint (ucast (c_scheduler_idx ch) :: u32), word_of_int (c_max_wgs ch), c_wg_cost ch,
                  c_reconf_cost ch))"
    using nd sel by (simp add: select_best_scheduler_def)
  have idx: "sint (ucast (ucast sid :: u64) :: u32) = int (unat sid)" if "sid \<in> set (ca_list free)" for sid
    unfolding ucast_id_up using that ok l by (intro sint_small) (fastforce simp: choosable_def)
  from ch(2) consider "c_max_wgs ch = -1" "\<forall>d\<in>set (ca_list free). slice_wgs tr kn ss (unat q) d = 0"
    | sid where "sid \<in> set (ca_list free)" "0 < slice_wgs tr kn ss (unat q) sid"
      "ch = \<lparr>c_scheduler_idx = ucast sid, c_max_wgs = int (slice_wgs tr kn ss (unat q) sid),
              c_reconf_cost = of_nat (reconf_of tr kn ss sid), c_wg_cost = of_nat (cost_of tr kn sid),
              c_total_cost = of_nat (slice_total tr kn ss (unat q) sid)\<rparr>"
      "\<forall>d\<in>set (ca_list free). slice_wgs tr kn ss (unat q) d < slice_wgs tr kn ss (unat q) sid \<or>
           slice_wgs tr kn ss (unat q) d = slice_wgs tr kn ss (unat q) sid \<and>
           slice_total tr kn ss (unat q) sid \<le> slice_total tr kn ss (unat q) d"
    unfolding best_choice_def by blast
  then show ?thesis
  proof cases
    case 1
    then show ?thesis unfolding eq by simp
  next
    case 2
    have "select_best_scheduler tr ss st free p q t =
        Inr (int (unat sid), of_nat (slice_wgs tr kn ss (unat q) sid), of_nat (cost_of tr kn sid),
             of_nat (reconf_of tr kn ss sid))"
      unfolding eq using idx [OF 2(1)] by (simp add: 2(3))
    then show ?thesis using 2(1,2,4) by blast
  qed
qed

text \<open>An id that is no index ends the choice with a fault.\<close>

lemma foldr_res_fault:
  assumes "x \<in> set xs" and "\<And>s. \<exists>e. f x s = Inl e"
  shows "\<exists>e. foldr_res f xs s = Inl e"
  using assms
proof (induction xs arbitrary: s)
  case (Cons y ys)
  show ?case
  proof (cases "f y s")
    case (Inr s')
    then have "x \<in> set ys" using Cons.prems by (metis Inl_Inr_False set_ConsD)
    then show ?thesis using Cons Inr by simp
  qed simp
qed simp

section \<open>Facts about a slice\<close>

text \<open>The ids of the schedulers are their positions.\<close>

definition ids_are_indices :: "sched_state \<Rightarrow> bool" where
  "ids_are_indices w \<longleftrightarrow> (\<forall>i<length (ss_schedulers w). s_id (ss_schedulers w ! i) = of_nat i)"

text \<open>Every free scheduler can be priced for the quantum, and one has time for a group.\<close>

definition slice_ready :: "tracker \<Rightarrow> algo_slicing \<Rightarrow> sched_state \<Rightarrow> ptr \<Rightarrow> ndrange \<Rightarrow> string \<Rightarrow> bool" where
  "slice_ready tr al w p nd kn \<longleftrightarrow>
     ids_are_indices w \<and> launch_open w p nd \<and> 0 < nd_rest nd \<and> pending w p + 1 < 2 ^ 32 \<and>
     nd_get_kernel_name (ns_objs (ss_store w)) nd = Inr kn \<and>
     unat (m_min_quant al) < 2 ^ 31 \<and> ca_wf (m_ndranges al) \<and>
     (\<forall>sid\<in>set (free_ids (ss_free w)). choosable tr kn (ss_schedulers w) (unat (m_min_quant al)) sid) \<and>
     (\<exists>sid\<in>set (free_ids (ss_free w)). 0 < slice_wgs tr kn (ss_schedulers w) (unat (m_min_quant al)) sid)"

lemma slice_ok:
  assumes lv: "libev_ok lv" and inv: "sched_inv w" and linv: "launches_inv w"
    and ready: "slice_ready tr al w p nd kn" and ring: "ca_list (m_ndranges al) = p # others"
  shows "\<exists>sid x al' w' nd'. on_free_schedulers lv tr al w = Inr (al', w') \<and> sid \<in> set (free_ids (ss_free w)) \<and>
    unat sid < length (ss_schedulers w) \<and> queues w ! unat sid = [] \<and>
    (\<forall>d\<in>set (free_ids (ss_free w)).
       slice_wgs tr kn (ss_schedulers w) (unat (m_min_quant al)) d \<le>
       slice_wgs tr kn (ss_schedulers w) (unat (m_min_quant al)) sid) \<and>
    queues w' = (queues w)[unat sid := [x]] \<and> w_parent x = Some p \<and> ca_wf (m_ndranges al') \<and>
    wgr_groups x = [unat (n_next_wgr nd)..<unat (n_next_wgr nd) +
      min (slice_wgs tr kn (ss_schedulers w) (unat (m_min_quant al)) sid) (nd_rest nd)] \<and>
    ca_list (m_ndranges al') = others @
      (if slice_wgs tr kn (ss_schedulers w) (unat (m_min_quant al)) sid < nd_rest nd then [p] else []) \<and>
    sched_inv w' \<and> launches_inv w' \<and> launch_open w' p nd' \<and> pending w' p = pending w p + 1 \<and>
    nd_rest nd' = nd_rest nd - slice_wgs tr kn (ss_schedulers w) (unat (m_min_quant al)) sid \<and>
    length (ss_schedulers w') = length (ss_schedulers w)"
proof -
  let ?q = "m_min_quant al" and ?ss = "ss_schedulers w" and ?free = "f_free_schedulers (ss_free w)"
  let ?W = "slice_wgs tr kn ?ss (unat ?q)"
  have ids: "ids_are_indices w" and op: "launch_open w p nd" and rest: "0 < nd_rest nd"
    and small: "pending w p + 1 < 2 ^ 32" and kn: "nd_get_kernel_name (ns_objs (ss_store w)) nd = Inr kn"
    and q: "unat ?q < 2 ^ 31" and wfr: "ca_wf (m_ndranges al)"
    and ok: "\<forall>sid\<in>set (ca_list ?free). choosable tr kn ?ss (unat ?q) sid"
    and some: "\<exists>sid\<in>set (ca_list ?free). 0 < ?W sid"
    using ready by (simp_all add: slice_ready_def free_ids_def)
  have nd: "ns_ndranges (ss_store w) p = Some nd" and wf: "nd_wf nd" using op by (simp_all add: launch_open_def)
  have fwf: "ca_wf ?free" "length (ca_list ?free) < 2 ^ 31"
    using sched_inv_free [OF inv] by (simp_all add: free_wf_def free_ids_def)
  have lss: "length ?ss < 2 ^ 31" using inv unfolding sched_inv_def by linarith
  obtain sid where sid: "sid \<in> set (ca_list ?free)" "0 < ?W sid"
      "select_best_scheduler tr ?ss (ss_store w) ?free p ?q (0, 0, 0) =
        Inr (int (unat sid), of_nat (?W sid), of_nat (cost_of tr kn sid), of_nat (reconf_of tr kn ?ss sid))"
      "\<forall>d\<in>set (ca_list ?free). ?W d \<le> ?W sid"
  proof -
    have "\<not> (\<forall>d\<in>set (ca_list ?free). ?W d = 0)" using some by force
    then obtain sid where s: "sid \<in> set (ca_list ?free)" "0 < ?W sid"
      "select_best_scheduler tr ?ss (ss_store w) ?free p ?q (0, 0, 0) =
        Inr (int (unat sid), of_nat (?W sid), of_nat (cost_of tr kn sid), of_nat (reconf_of tr kn ?ss sid))"
      "\<forall>d\<in>set (ca_list ?free). ?W d < ?W sid \<or> ?W d = ?W sid \<and>
         slice_total tr kn ?ss (unat ?q) sid \<le> slice_total tr kn ?ss (unat ?q) d"
      using select_best_ok [OF fwf q ok lss nd kn, of "(0, 0, 0)"] by blast
    show ?thesis using s(1-3) s(4) by (intro that) (auto intro: less_imp_le)
  qed
  let ?j = "unat sid"
  have cs: "choosable tr kn ?ss (unat ?q) sid" using ok sid(1) by blast
  then have j: "?j < length ?ss" by (simp add: choosable_def)
  have "s_id (?ss ! ?j) = sid" using ids j by (simp add: ids_are_indices_def)
  then have "idle (?ss ! ?j)" using sched_inv_at(3) [OF inv j] sid(1) by (simp add: free_ids_def)
  then have qj: "queues w ! ?j = []" using j by (simp add: queues_def idle_def)
  have n31: "?W sid < 2 ^ 31" using slice_bounds(1) [OF cs] q by linarith
  have un: "unat (ucast (of_nat (?W sid) :: u32) :: u64) = ?W sid"
  proof -
    have "unat (of_nat (?W sid) :: u32) = ?W sid" using n31 by (intro unat_of_nat_small) simp
    then show ?thesis using n31 by (subst unat_ucast_small) simp_all
  qed
  let ?num = "ucast (of_nat (?W sid) :: u32) :: u64"
  have nw: "unat (n_next_wgr nd) + unat ?num < 2 ^ 64" using n31 un by (intro request_nowrap) simp
  obtain x nd' where c: "carve_wgs p nd ?num = (x, nd')" by (cases "carve_wgs p nd ?num")
  note step = carve_step(3,4) [OF wf nw, of p]
  have wf': "nd_wf nd'" and rest': "nd_rest nd' = nd_rest nd - ?W sid" using step un by (simp_all add: c)
  have groups: "wgr_groups x = [unat (n_next_wgr nd)..<unat (n_next_wgr nd) + min (?W sid) (nd_rest nd)]"
    using wgr_groups_carve [OF wf nw, of p] unfolding c un by simp
  have keep: "n_wgrs_in_the_wild nd' = n_wgrs_in_the_wild nd + 1" "n_kernel nd' = n_kernel nd"
      "n_event nd' = n_event nd" "w_parent x = Some p"
    using c by (auto simp: carve_wgs_def Let_def new_WorkGroupRange_def)
  let ?st = "(ss_store w)\<lparr>ns_ndranges := (ns_ndranges (ss_store w))(p \<mapsto> nd')\<rparr>"
  let ?x = "x\<lparr>w_execution_cost := ucast (w_total_size x * of_nat (cost_of tr kn sid) + of_nat (reconf_of tr kn ?ss sid))\<rparr>"
  have at: "carve_at (ss_store w) p ?num = Inr (x, ?st)" using nd c by (simp add: carve_at_def)
  have inv0: "sched_inv (w\<lparr>ss_store := ?st\<rparr>)" using inv by simp
  have i0: "?j < length (ss_schedulers (w\<lparr>ss_store := ?st\<rparr>))" using j by simp
  have room0: "length (queues (w\<lparr>ss_store := ?st\<rparr>) ! ?j) < 100" using qj by simp
  have px: "w_parent ?x = Some p" using keep(4) by simp
  have nm: "named (ss_store (w\<lparr>ss_store := ?st\<rparr>)) ?x" using carved_named [OF linv nd keep(2) px] by simp
  obtain w' where w': "submit_wgr lv ?j ?x (w\<lparr>ss_store := ?st\<rparr>) = Inr w'" "sched_inv w'"
      "queues w' = (queues (w\<lparr>ss_store := ?st\<rparr>))[?j := queues (w\<lparr>ss_store := ?st\<rparr>) ! ?j @ [?x]]"
      "ss_store w' = ss_store (w\<lparr>ss_store := ?st\<rparr>)"
      "length (ss_schedulers w') = length (ss_schedulers (w\<lparr>ss_store := ?st\<rparr>))"
    using submit_wgr_ok [OF lv inv0 i0 room0, of ?x] nm by blast
  have iq: "?j < length (queues w)" using j by (simp add: queues_def)
  have q': "queues w' = (queues w)[?j := queues w ! ?j @ [?x]]" using w'(3) by simp
  have st': "ss_store w' = ?st" using w'(4) by simp
  note launch = launches_inv_submit [OF linv nd iq px small keep(1-3) q' st']
  have nd2: "ns_ndranges (ss_store w') p = Some nd'" by (simp add: st')
  have more: "has_more_wgs nd' \<longleftrightarrow> ?W sid < nd_rest nd" unfolding has_more_rest [OF wf'] rest' by simp
  have ne: "ca_list (m_ndranges al) \<noteq> []" using ring by simp
  obtain r1 where r1: "ca_pop_front (m_ndranges al) = Inr (p, r1)" "ca_wf r1" "ca_list r1 = others"
      "ca_bound r1 = ca_bound (m_ndranges al)"
    using ca_pop_front_ok [OF wfr ne] ring by auto
  have "length (ca_list r1) < ca_bound r1" using ca_list_length [OF wfr] ring r1(3,4) by simp
  then obtain r2 where r2: "ca_push_back r1 p False = Inr (SUCCESS, r2)" "ca_list r2 = others @ [p]" "ca_wf r2"
    using ca_push_back_room [OF r1(2), of p False] r1(3) by auto
  have nb: "\<not> (ca_empty (m_ndranges al) \<or> ca_empty ?free)"
    using ring sid(1) by (auto simp: ca_empty_iff)
  have kn': "nd_get_kernel_name (ns_objs (ss_store w')) nd' = Inr kn"
    using kn keep(2) by (simp add: st' nd_get_kernel_name_def)
  have res: "on_free_schedulers lv tr al w =
      Inr (al\<lparr>m_ndranges := (if ?W sid < nd_rest nd then r2 else r1)\<rparr>, w')"
    unfolding on_free_schedulers_def Let_def if_not_P [OF nb] r1(1)
    using j at w'(1) nd2 more r2(1) nd kn kn' by (simp add: sid(3) vec_get_def)
  have gx: "wgr_groups ?x = wgr_groups x" by (simp add: wgr_groups_def)
  have lo: "launch_open w' p nd'" using wf' nd2 by (simp add: launch_open_def)
  have len: "length (ss_schedulers w') = length ?ss" using w'(5) by simp
  have q2: "queues w' = (queues w)[?j := [?x]]" using q' qj by simp
  have ring': "ca_list (m_ndranges (al\<lparr>m_ndranges := (if ?W sid < nd_rest nd then r2 else r1)\<rparr>)) =
      others @ (if ?W sid < nd_rest nd then [p] else [])" using r1(3) r2(2) by simp
  have sid': "sid \<in> set (free_ids (ss_free w))" "\<forall>d\<in>set (free_ids (ss_free w)). ?W d \<le> ?W sid"
    using sid(1,4) by (simp_all add: free_ids_def)
  have rwf: "ca_wf (m_ndranges (al\<lparr>m_ndranges := (if ?W sid < nd_rest nd then r2 else r1)\<rparr>))"
    using r1(2) r2(3) by simp
  show ?thesis
    using res sid' j qj q2 px rwf groups gx ring' w'(2) launch(1,2) lo rest' len by metis
qed


section \<open>Examples\<close>

definition demo_free :: free_sched_mgr where
  "demo_free = \<lparr>f_free_schedulers = \<lparr>ca_array = [0, 1], ca_start = 0, ca_size = 2, ca_capacity = 2\<rparr>,
     f_free_sched_timer = \<lparr>t_active = True, t_at = 0, t_repeat = 0\<rparr>, f_cb = True\<rparr>"

definition demo_sched :: "u32 \<Rightarrow> scheduler" where
  "demo_sched i = \<lparr>s_timer = new_EvTimerBase,
     s_in_queue = \<lparr>ca_array = replicate 100 (empty_WorkGroupRange 0), ca_start = 0, ca_size = 0, ca_capacity = 100\<rparr>,
     s_id = i, s_last_kernel = [], s_mock_would_need_reconf = False, s_end_time = 0, s_sched_addr = 0,
     s_dcplr_addr = 0, s_mlbx_wraddr = 0, s_mlbx_rdaddr = 0, s_ICAP_addr = 0, s_mem_base = 0,
     s_is_local = True, s_polling_interval = 0\<rparr>"

definition demo_ring :: "ptr list \<Rightarrow> algo_slicing" where
  "demo_ring ps = \<lparr>m_ndranges = \<lparr>ca_array = ps @ replicate (10 - length ps) 0, ca_start = 0,
       ca_size = of_nat (length ps), ca_capacity = 10\<rparr>,
     m_min_quant = 30, m_max_idle_threshold = 2\<rparr>"

text \<open>Two idle schedulers with ids 0 and 1, and a launch of five groups.\<close>

definition demo_slicing :: sched_state where
  "demo_slicing = \<lparr>ss_store = demo_launch demo_nd, ss_schedulers = [demo_sched 0, demo_sched 1],
     ss_free = demo_free, ss_now = 0\<rparr>"

lemma ca_list_empty: "ca_size c = 0 \<Longrightarrow> ca_list c = []"
  using ca_empty_iff [of c] by (simp add: ca_empty_def)

lemma demo_free_ids: "free_ids demo_free = [0, 1]"
  by (simp add: free_ids_def demo_free_def ca_list_def ring_view_def upt_rec)

lemma demo_slicing_inv: "sched_inv demo_slicing"
proof -
  have w: "ca_wf (s_in_queue (demo_sched i))" "ca_list (s_in_queue (demo_sched i)) = []"
    "ca_bound (s_in_queue (demo_sched i)) = 100" for i
    by (simp_all add: demo_sched_def ca_wf_def ca_list_empty max_new_def ca_bound_def)
  have f: "free_wf demo_free" "free_bound demo_free = 2"
    unfolding free_wf_def demo_free_ids by (simp_all add: demo_free_def ca_wf_def max_new_def ca_bound_def)
  have i: "idle (demo_sched i)" "sched_wf (demo_sched i)" "s_id (demo_sched i) = i" for i
    using w by (simp_all add: idle_def sched_wf_def) (simp_all add: demo_sched_def new_EvTimerBase_def)
  have "{s \<in> set [demo_sched 0, demo_sched 1]. idle s} = {demo_sched 0, demo_sched 1}" using i(1) by auto
  then show ?thesis
    using i f by (simp add: sched_inv_def demo_slicing_def demo_free_ids)
qed


lemma demo_slicing_launches: "launches_inv demo_slicing" and demo_slicing_pending: "pending demo_slicing p = 0"
proof -
  have q: "queues demo_slicing = [[], []]"
    by (simp add: queues_def demo_slicing_def demo_sched_def ca_list_empty)
  then have pend: "pending demo_slicing p = 0" for p by (simp add: pending_def)
  then show "pending demo_slicing p = 0" .
  have st: "ss_store demo_slicing = demo_launch demo_nd" by (simp add: demo_slicing_def)
  have "refs_ok (has_program (ns_objs (ss_store demo_slicing))) (o_kernels (ns_objs (ss_store demo_slicing))) (kernels_held (ss_store demo_slicing))"
    and "refs_ok (\<lambda>e. m_cb e \<noteq> None) (o_events (ns_objs (ss_store demo_slicing))) (events_held (ss_store demo_slicing))"
    by (auto simp: refs_ok_def kernels_held_def events_held_def st demo_launch_def demo_objs_def
        demo_nd_def new_cl_kernel_def new_cl_event_def has_program_def dom_def split: if_splits)
  then show "launches_inv demo_slicing"
    using pend by (auto simp: launches_inv_def q st demo_launch_def demo_nd_def split: if_splits)
qed

lemma demo_slicing_costs:
  "get_wg_cost_on_island demo_tracker 0 ''k.xml'' = Inr 10" "get_wg_cost_on_island demo_tracker 1 ''k.xml'' = Inr 20"
  "\<not> would_need_reconf (demo_sched i) kn"
  by (simp_all add: get_wg_cost_on_island_def vec_at_def would_need_reconf_def demo_sched_def)

lemma demo_slicing_choosable:
  assumes "sid \<in> {0, 1}"
  shows "choosable demo_tracker ''k.xml'' [demo_sched 0, demo_sched 1] 30 sid"
    and "slice_wgs demo_tracker ''k.xml'' [demo_sched 0, demo_sched 1] 30 sid = (if sid = 0 then 3 else 1)"
  using assms demo_slicing_costs
  by (auto simp: choosable_def cost_of_def reconf_of_def slice_wgs_def)

lemma demo_slicing_ready: "slice_ready demo_tracker (demo_ring [7]) demo_slicing 7 demo_nd ''k.xml''"
proof -
  have nd: "ns_ndranges (ss_store demo_slicing) 7 = Some demo_nd" "nd_wf demo_nd" "nd_rest demo_nd = 5"
    by (simp_all add: demo_slicing_def demo_launch_def demo_nd_def nd_wf_def nd_rest_def)
  have kn: "nd_get_kernel_name (ns_objs (ss_store demo_slicing)) demo_nd = Inr ''k.xml''"
    by (simp add: demo_slicing_def demo_launch_def demo_nd_def nd_get_kernel_name_def new_cl_kernel_def)
  have ids: "ids_are_indices demo_slicing"
    by (simp add: ids_are_indices_def demo_slicing_def demo_sched_def less_Suc_eq)
  have f: "free_ids (ss_free demo_slicing) = [0, 1]" "ss_schedulers demo_slicing = [demo_sched 0, demo_sched 1]"
    using demo_free_ids by (simp_all add: demo_slicing_def)
  have r: "ca_wf (m_ndranges (demo_ring [7]))" "unat (m_min_quant (demo_ring [7])) = 30"
    by (simp_all add: demo_ring_def ca_wf_def max_new_def)
  show ?thesis
    using nd kn ids r demo_slicing_pending demo_slicing_choosable
    by (simp add: slice_ready_def launch_open_def f)
qed

lemma demo_ring_list: "ca_list (m_ndranges (demo_ring [7])) = [7]"
  by (simp add: demo_ring_def ca_list_def ring_view_def)

section \<open>Properties\<close>

text \<open>C18: The choice of a scheduler: when every free scheduler can be priced for the quantum, the one
  chosen fits the most work groups of the launch into the quantum and, among those, costs the
  least, and comes with the number of groups and both costs; no scheduler is chosen exactly when
  none has time for a single group.\<close>
theorem select_best_scheduler_is_best:
  assumes "ca_wf free" and "length (ca_list free) < 2 ^ 31" and "unat q < 2 ^ 31"
    and "\<forall>sid\<in>set (ca_list free). choosable tr kn ss (unat q) sid" and "length ss < 2 ^ 31"
    and "ns_ndranges st p = Some nd" and "nd_get_kernel_name (ns_objs st) nd = Inr kn"
  shows "(\<forall>d\<in>set (ca_list free). slice_wgs tr kn ss (unat q) d = 0) \<and>
      select_best_scheduler tr ss st free p q t = Inr (-1, t) \<or>
    (\<exists>sid\<in>set (ca_list free). 0 < slice_wgs tr kn ss (unat q) sid \<and>
      select_best_scheduler tr ss st free p q t =
        Inr (int (unat sid), of_nat (slice_wgs tr kn ss (unat q) sid), of_nat (cost_of tr kn sid),
             of_nat (reconf_of tr kn ss sid)) \<and>
      (\<forall>d\<in>set (ca_list free).
         slice_wgs tr kn ss (unat q) d < slice_wgs tr kn ss (unat q) sid \<or>
         slice_wgs tr kn ss (unat q) d = slice_wgs tr kn ss (unat q) sid \<and>
         slice_total tr kn ss (unat q) sid \<le> slice_total tr kn ss (unat q) d))"
  by (rule select_best_ok [OF assms])

theorem select_best_scheduler_is_best_witness:
  "select_best_scheduler demo_tracker [demo_sched 0, demo_sched 1] (demo_launch demo_nd)
     (f_free_schedulers demo_free) 7 30 (0, 0, 0) = Inr (0, 3, 10, 0)"
proof -
  have f: "ca_wf (f_free_schedulers demo_free)" "ca_list (f_free_schedulers demo_free) = [0, 1]"
    using demo_free_ids by (simp_all add: free_ids_def) (simp add: demo_free_def ca_wf_def max_new_def)
  have l: "length (ca_list (f_free_schedulers demo_free)) < 2 ^ 31" by (simp add: f)
  have q: "unat (30 :: u32) < 2 ^ 31" by simp
  have ok: "\<forall>sid\<in>set (ca_list (f_free_schedulers demo_free)).
      choosable demo_tracker ''k.xml'' [demo_sched 0, demo_sched 1] (unat (30 :: u32)) sid"
    using demo_slicing_choosable(1) by (simp add: f)
  have ls: "length [demo_sched 0, demo_sched 1] < 2 ^ 31" by simp
  have nd: "ns_ndranges (demo_launch demo_nd) 7 = Some demo_nd"
    "nd_get_kernel_name (ns_objs (demo_launch demo_nd)) demo_nd = Inr ''k.xml''"
    by (simp_all add: demo_launch_def demo_nd_def nd_get_kernel_name_def new_cl_kernel_def)
  have c: "cost_of demo_tracker ''k.xml'' 0 = 10" "reconf_of demo_tracker ''k.xml'' [demo_sched 0, demo_sched 1] 0 = 0"
    using demo_slicing_costs by (simp_all add: cost_of_def reconf_of_def)
  show ?thesis
    using select_best_scheduler_is_best [OF f(1) l q ok ls nd, of "(0, 0, 0)"] demo_slicing_choosable(2) c
    by (simp add: f(2))
qed

text \<open>C26: The slicing algorithm completes launches that are not done: when the free schedulers' timer
  gives the only waiting launch a slice smaller than the launch, and that slice finishes before
  another is cut, the launch is reported complete and deleted with groups left, while the
  algorithm still holds the pointer: the next firing reads the deleted launch.\<close>
theorem slicing_completes_early:
  assumes "libev_ok lv" and "sched_inv w" and "launches_inv w" and "slice_ready tr al w p nd kn"
    and "pending w p = 0" and "ca_list (m_ndranges al) = [p]"
    and "\<forall>sid\<in>set (free_ids (ss_free w)). slice_wgs tr kn (ss_schedulers w) (unat (m_min_quant al)) sid < nd_rest nd"
  shows "\<exists>al1 w1 nd1 j w2 cb. on_free_schedulers lv tr al w = Inr (al1, w1) \<and>
    ns_ndranges (ss_store w1) p = Some nd1 \<and> has_more_wgs nd1 \<and>
    fire_scheduler lv j w1 = Inr (w2, [cb]) \<and> ns_ndranges (ss_store w2) p = None \<and>
    on_free_schedulers lv tr al1 w2 = Inl Use_after_free"
proof -
  obtain sid x al1 w1 nd1 where s: "on_free_schedulers lv tr al w = Inr (al1, w1)"
      "sid \<in> set (free_ids (ss_free w))" "unat sid < length (ss_schedulers w)"
      "queues w1 = (queues w)[unat sid := [x]]" "w_parent x = Some p" "ca_wf (m_ndranges al1)"
      "ca_list (m_ndranges al1) = [] @
        (if slice_wgs tr kn (ss_schedulers w) (unat (m_min_quant al)) sid < nd_rest nd then [p] else [])"
      "sched_inv w1" "launches_inv w1" "launch_open w1 p nd1" "pending w1 p = pending w p + 1"
      "nd_rest nd1 = nd_rest nd - slice_wgs tr kn (ss_schedulers w) (unat (m_min_quant al)) sid"
      "length (ss_schedulers w1) = length (ss_schedulers w)"
    using slice_ok [OF assms(1-4,6)] by (elim exE conjE) (rule that)
  have less: "slice_wgs tr kn (ss_schedulers w) (unat (m_min_quant al)) sid < nd_rest nd"
    using assms(7) s(2) by blast
  then have more: "has_more_wgs nd1" and nd1: "ns_ndranges (ss_store w1) p = Some nd1"
    and ring: "ca_list (m_ndranges al1) = [p]"
    using s(7,10,12) has_more_rest [of nd1] by (simp_all add: launch_open_def)
  have j: "unat sid < length (ss_schedulers w1)" using s(3,13) by simp
  have q: "queues w1 ! unat sid = x # []" using s(3,4) by (simp add: queues_def)
  obtain w2 cbs p' where w2: "fire_scheduler lv (unat sid) w1 = Inr (w2, cbs)" "w_parent x = Some p'"
      "sched_inv w2" "queues w2 = (queues w1)[unat sid := []]"
      "length cbs = (if pending w1 p' = 1 then 1 else 0)"
      "ns_ndranges (ss_store w2) p' = None \<longleftrightarrow> pending w1 p' = 1"
      "length (ss_schedulers w2) = length (ss_schedulers w1)"
    using fire_keeps_launches [OF assms(1) s(8,9) j q] by (elim exE conjE) (rule that)
  have pp: "p' = p" and one: "pending w1 p = 1" using w2(2) s(5,11) assms(5) by simp_all
  then have gone: "ns_ndranges (ss_store w2) p = None" and "length cbs = 1" using w2(5,6) by simp_all
  then obtain cb where cb: "cbs = [cb]" by (cases cbs) auto
  have "queues w2 ! unat sid = []" using w2(4) j by (simp add: queues_def)
  then have "idle (ss_schedulers w2 ! unat sid)" using j w2(7) by (simp add: idle_def queues_def)
  then have "free_ids (ss_free w2) \<noteq> []" using sched_inv_at(3) [OF w2(3)] j w2(7) by force
  then have ne: "\<not> (ca_empty (m_ndranges al1) \<or> ca_empty (f_free_schedulers (ss_free w2)))"
    using ring by (simp add: ca_empty_iff free_ids_def)
  obtain c where c: "ca_pop_front (m_ndranges al1) = Inr (p, c)"
    using ca_pop_front_ok [OF s(6)] ring by auto
  have "on_free_schedulers lv tr al1 w2 = Inl Use_after_free"
    unfolding on_free_schedulers_def Let_def if_not_P [OF ne] c
    using gone by (simp add: select_best_scheduler_def)
  then show ?thesis using s(1) nd1 more w2(1) cb gone by blast
qed

theorem slicing_completes_early_witness:
  "\<exists>al1 w1 nd1 j w2 cb. on_free_schedulers demo_libev demo_tracker (demo_ring [7]) demo_slicing = Inr (al1, w1) \<and>
    ns_ndranges (ss_store w1) 7 = Some nd1 \<and> has_more_wgs nd1 \<and>
    fire_scheduler demo_libev j w1 = Inr (w2, [cb]) \<and> ns_ndranges (ss_store w2) 7 = None \<and>
    on_free_schedulers demo_libev demo_tracker al1 w2 = Inl Use_after_free"
proof -
  have f: "free_ids (ss_free demo_slicing) = [0, 1]" "ss_schedulers demo_slicing = [demo_sched 0, demo_sched 1]"
    using demo_free_ids by (simp_all add: demo_slicing_def)
  have "\<forall>sid\<in>set (free_ids (ss_free demo_slicing)).
      slice_wgs demo_tracker ''k.xml'' (ss_schedulers demo_slicing) (unat (m_min_quant (demo_ring [7]))) sid < nd_rest demo_nd"
    unfolding f using demo_slicing_choosable(2) by (simp add: demo_ring_def nd_rest_def demo_nd_def)
  then show ?thesis
    by (rule slicing_completes_early [OF demo_libev_ok demo_slicing_inv demo_slicing_launches demo_slicing_ready
          demo_slicing_pending demo_ring_list])
qed

text \<open>C27: The identifiers of free schedulers are used as indices of the vector of schedulers: as soon
  as a free scheduler's id is not below the number of schedulers, as for region 3 of the default
  configuration with its two regions, offering a waiting launch to the free schedulers faults.\<close>
theorem slicing_needs_ids_as_indices:
  assumes "ca_wf (f_free_schedulers (ss_free w))" and "length (free_ids (ss_free w)) < 2 ^ 31"
    and "sid \<in> set (free_ids (ss_free w))" and "length (ss_schedulers w) \<le> unat sid"
    and "ca_list (m_ndranges al) \<noteq> []"
  shows "\<exists>e. on_free_schedulers lv tr al w = Inl e"
proof -
  let ?free = "f_free_schedulers (ss_free w)"
  have sid: "sid \<in> set (ca_list ?free)" using assms(3) by (simp add: free_ids_def)
  have bad: "\<exists>e. consider_scheduler tr (ss_schedulers w) rs kn q sid ch = Inl e" for rs kn q ch
    using assms(4) by (simp add: consider_scheduler_def vec_get_def)
  have loop: "\<exists>e. select_loop tr (ss_schedulers w) rs kn q ?free 0 ch = Inl e" for rs kn q ch
    using select_loop_ok [OF assms(1), of 0] assms(2)
      foldr_res_fault [where f = "consider_scheduler tr (ss_schedulers w) rs kn q", OF sid bad]
    by (simp add: free_ids_def)
  have sel: "\<exists>e. select_best_scheduler tr (ss_schedulers w) st ?free p q t = Inl e" for st p q t
  proof (cases "select_best_scheduler tr (ss_schedulers w) st ?free p q t")
    case (Inr r)
    then obtain rs kn ch0 ch where "select_loop tr (ss_schedulers w) rs kn q ?free 0 ch0 = Inr ch"
      unfolding select_best_scheduler_def bindr_Inr_iff by blast
    then show ?thesis using loop [of rs kn q ch0] by simp
  qed simp
  have nb: "\<not> (ca_empty (m_ndranges al) \<or> ca_empty ?free)"
    using sid assms(5) by (auto simp: ca_empty_iff)
  show ?thesis
  proof (cases "ca_pop_front (m_ndranges al)")
    case (Inl e)
    then show ?thesis by (simp add: on_free_schedulers_def Let_def nb)
  next
    case (Inr r)
    obtain p c where r: "r = (p, c)" by (cases r)
    obtain e where "select_best_scheduler tr (ss_schedulers w) (ss_store w) ?free p (m_min_quant al) (0, 0, 0) = Inl e"
      using sel by blast
    then show ?thesis using Inr r nb
      by (cases "on_free_schedulers lv tr al w") (auto simp: on_free_schedulers_def Let_def bindr_Inr_iff)
  qed
qed

theorem slicing_needs_ids_as_indices_witness:
  "scheduler_id 0 1 3 = 3 \<and>
    (\<exists>e. on_free_schedulers demo_libev demo_tracker (demo_ring [7]) (demo_slicing\<lparr>ss_schedulers := [demo_sched 1, demo_sched 3],
      ss_free := demo_free\<lparr>f_free_schedulers := (f_free_schedulers demo_free)\<lparr>ca_array := [1, 3]\<rparr>\<rparr>\<rparr>) = Inl e)"
proof
  let ?f = "demo_free\<lparr>f_free_schedulers := (f_free_schedulers demo_free)\<lparr>ca_array := [1, 3]\<rparr>\<rparr>"
  let ?w = "demo_slicing\<lparr>ss_schedulers := [demo_sched 1, demo_sched 3], ss_free := ?f\<rparr>"
  have i: "free_ids ?f = [1, 3]" by (simp add: free_ids_def demo_free_def ca_list_def ring_view_def upt_rec)
  have w: "ca_wf (f_free_schedulers ?f)" by (simp add: demo_free_def ca_wf_def max_new_def)
  show "\<exists>e. on_free_schedulers demo_libev demo_tracker (demo_ring [7]) (demo_slicing\<lparr>ss_schedulers := [demo_sched 1, demo_sched 3],
      ss_free := ?f\<rparr>) = Inl e"
  proof (rule slicing_needs_ids_as_indices)
    show "ca_wf (f_free_schedulers (ss_free ?w))" using w by simp
    have b: "free_ids (ss_free ?w) = [1, 3]" using i by simp
    show "length (free_ids (ss_free ?w)) < 2 ^ 31" "3 \<in> set (free_ids (ss_free ?w))" unfolding b by simp_all
    show "length (ss_schedulers ?w) \<le> unat (3 :: u32)" by simp
    show "ca_list (m_ndranges (demo_ring [7])) \<noteq> []" by (simp add: demo_ring_list)
  qed
  show "scheduler_id 0 1 3 = 3" by (simp add: scheduler_id_def)
qed

text \<open>
  When the reconfiguration takes longer than the quantum, the difference wraps, and the scheduler
  that has no time at all offers more groups than any other.
\<close>

lemma quant_wraps:
  "select_best_scheduler demo_tracker [(demo_sched 0)\<lparr>s_mock_would_need_reconf := True\<rparr>, demo_sched 1]
     (demo_launch demo_nd) (f_free_schedulers demo_free) 7 30 (0, 0, 0) = Inr (0, 429496632, 10, 1000)"
proof -
  have f: "ca_wf (f_free_schedulers demo_free)" "ca_list (f_free_schedulers demo_free) = [0, 1]"
    using demo_free_ids by (simp_all add: free_ids_def) (simp add: demo_free_def ca_wf_def max_new_def)
  have nd: "ns_ndranges (demo_launch demo_nd) 7 = Some demo_nd"
    "nd_get_kernel_name (ns_objs (demo_launch demo_nd)) demo_nd = Inr ''k.xml''"
    by (simp_all add: demo_launch_def demo_nd_def nd_get_kernel_name_def new_cl_kernel_def)
  show ?thesis
    using select_loop_ok [OF f(1), of 0] nd
    by (simp add: select_best_scheduler_def f(2) consider_scheduler_def vec_get_def
        check_resource_string_def demo_slicing_costs would_need_reconf_def demo_sched_def
        get_reconf_cost_on_island_def get_wg_cost_on_island_def vec_at_def Let_def)
qed

end
