(* ===== verification/Unimem.thy ===== *)
theory Unimem
  imports Ocl_Ds Wee_Config
begin

text \<open>
  Unified memory: the character device \<^verbatim>\<open>unimem/driver_buffer\<close> that allocates, fills, reads
  and frees kernel buffers by messages, the functions of \<^verbatim>\<open>cpp/unimem_utils.h\<close> that write those
  messages, and \<^verbatim>\<open>cpp/unimem_manager.cc\<close> on top of them. User and kernel memory are maps from
  addresses to bytes, undefined where nothing is mapped. The kernel's own services are the
  parameter \<open>lx\<close>.
\<close>

section \<open>Memory\<close>

type_synonym mem = "u64 \<rightharpoonup> byte"

definition mem_read :: "mem \<Rightarrow> u64 \<Rightarrow> nat \<Rightarrow> byte list option" where
  "mem_read m a n =
     (let l = map (\<lambda>i. m (a + of_nat i)) [0..<n] in if None \<in> set l then None else Some (map the l))"

definition mem_write :: "mem \<Rightarrow> u64 \<Rightarrow> byte list \<Rightarrow> mem" where
  "mem_write m a bs = (\<lambda>x. if unat (x - a) < length bs then Some (bs ! unat (x - a)) else m x)"

section \<open>The kernel's services\<close>

text \<open>
  \<open>lx_copy_from_user user kernel to from n\<close> and \<open>lx_copy_to_user kernel user to from n\<close> return
  the number of bytes not copied and the memory written to; \<open>lx_vmalloc kernel n\<close> returns an
  address (0 when it fails) and the memory with the new block mapped.
\<close>

record linux =
  lx_copy_from_user :: "mem \<Rightarrow> mem \<Rightarrow> u64 \<Rightarrow> u64 \<Rightarrow> u64 \<Rightarrow> u64 \<times> mem"
  lx_copy_to_user :: "mem \<Rightarrow> mem \<Rightarrow> u64 \<Rightarrow> u64 \<Rightarrow> u64 \<Rightarrow> u64 \<times> mem"
  lx_vmalloc :: "mem \<Rightarrow> u64 \<Rightarrow> u64 \<times> mem"
  lx_vfree :: "mem \<Rightarrow> u64 \<Rightarrow> mem"

text \<open>
  What the kernel documents of them: between mapped ranges everything is copied and nothing else
  is changed; a block handed out was free before, is mapped after, and nothing else changes.
\<close>

definition copy_from_user_ok :: "linux \<Rightarrow> bool" where
  "copy_from_user_ok lx \<longleftrightarrow>
     (\<forall>um km dst src n bs. mem_read um src (unat n) = Some bs \<longrightarrow> mem_read km dst (unat n) \<noteq> None \<longrightarrow>
        lx_copy_from_user lx um km dst src n = (0, mem_write km dst bs))"

definition copy_to_user_ok :: "linux \<Rightarrow> bool" where
  "copy_to_user_ok lx \<longleftrightarrow>
     (\<forall>um km dst src n bs. mem_read km src (unat n) = Some bs \<longrightarrow> mem_read um dst (unat n) \<noteq> None \<longrightarrow>
        lx_copy_to_user lx km um dst src n = (0, mem_write um dst bs))"

definition vmalloc_ok :: "linux \<Rightarrow> bool" where
  "vmalloc_ok lx \<longleftrightarrow>
     (\<forall>km n a km'. lx_vmalloc lx km n = (a, km') \<longrightarrow> a \<noteq> 0 \<longrightarrow>
        (\<forall>i<unat n. km (a + of_nat i) = None) \<and> mem_read km' a (unat n) \<noteq> None \<and>
        (\<forall>x. unat n \<le> unat (x - a) \<longrightarrow> km' x = km x))"

definition linux_ok :: "linux \<Rightarrow> bool" where
  "linux_ok lx \<longleftrightarrow> copy_from_user_ok lx \<and> copy_to_user_ok lx \<and> vmalloc_ok lx"

section \<open>The driver\<close>

(* src/unimem/driver_buffer/unimem_buffer_alloc.c:24-29 unimem_addr *)
record unimem_addr =
  m_kernel_virt_addr :: u64
  m_bus_addr :: u64
  ua_size :: u64

text \<open>The structure as it lies in memory.\<close>

definition addr_bytes :: "unimem_addr \<Rightarrow> byte list" where
  "addr_bytes a = le_bytes 8 (unat (m_kernel_virt_addr a)) @ le_bytes 8 (unat (m_bus_addr a)) @
     le_bytes 8 (unat (ua_size a))"

definition read_u64 :: "byte list \<Rightarrow> nat \<Rightarrow> u64" where
  "read_u64 bs off = of_nat (le_nat (take 8 (drop off bs)))"

definition addr_at :: "byte list \<Rightarrow> nat \<Rightarrow> unimem_addr" where
  "addr_at bs off = \<lparr>m_kernel_virt_addr = read_u64 bs off, m_bus_addr = read_u64 bs (off + 8),
     ua_size = read_u64 bs (off + 16)\<rparr>"

(* src/unimem/driver_buffer/unimem_buffer_alloc.c:34-45 unimem_return_msg *)
record driver =
  s_dev_opened :: int
  s_msg_type :: byte
  s_unidress :: unimem_addr
  d_kmem :: mem

(* src/unimem/driver_buffer/unimem_buffer_alloc.c:48-48 s_C_msg_len *)
definition C_msg_len :: nat where "C_msg_len = 9"

(* src/unimem/driver_buffer/unimem_buffer_alloc.c:49-49 s_D_msg_len *)
definition D_msg_len :: nat where "D_msg_len = 25"

(* src/unimem/driver_buffer/unimem_buffer_alloc.c:50-51 s_W_msg_len *)
definition W_msg_len :: nat where "W_msg_len = 41"

(* src/unimem/driver_buffer/unimem_buffer_alloc.c:52-53 s_R_msg_len *)
definition R_msg_len :: nat where "R_msg_len = 41"

(* src/unimem/driver_buffer/unimem_buffer_alloc.c:55-55 s_z_msg_len *)
definition z_msg_len :: nat where "z_msg_len = 25"

lemmas msg_lens = C_msg_len_def D_msg_len_def W_msg_len_def R_msg_len_def z_msg_len_def

text \<open>The message letters.\<close>

definition chr_C :: byte where "chr_C = 67"
definition chr_D :: byte where "chr_D = 68"
definition chr_R :: byte where "chr_R = 82"
definition chr_W :: byte where "chr_W = 87"
definition chr_z :: byte where "chr_z = 122"

lemmas letters = chr_C_def chr_D_def chr_R_def chr_W_def chr_z_def

(* src/unimem/driver_buffer/buffer_ops.h:3-44 handle_write_C *)
definition handle_write_C :: "linux \<Rightarrow> byte list \<Rightarrow> nat \<Rightarrow> driver \<Rightarrow> int \<times> driver" where
  "handle_write_C lx k_buf len d =
     (if len \<noteq> C_msg_len then (-1, d)
      else let alloc_len = read_u64 k_buf 1;
               (virt, km) = lx_vmalloc lx (d_kmem d) alloc_len;
               u1 = (s_unidress d)\<lparr>m_kernel_virt_addr := virt, m_bus_addr := 13\<rparr>
           in if virt = 0 then (-12, d\<lparr>s_unidress := u1, d_kmem := km\<rparr>)
              else (int len, d\<lparr>s_unidress := u1\<lparr>ua_size := alloc_len\<rparr>, s_msg_type := chr_z,
                              d_kmem := km\<rparr>))"

(* src/unimem/driver_buffer/buffer_ops.h:47-74 handle_write_D *)
definition handle_write_D :: "linux \<Rightarrow> byte list \<Rightarrow> nat \<Rightarrow> driver \<Rightarrow> int \<times> driver" where
  "handle_write_D lx k_buf len d =
     (if len \<noteq> D_msg_len then (-1, d)
      else (int len, d\<lparr>d_kmem := lx_vfree lx (d_kmem d) (m_kernel_virt_addr (addr_at k_buf 1))\<rparr>))"

text \<open>The count of uncopied bytes is kept in \<open>unsigned\<close>.\<close>

(* src/unimem/driver_buffer/buffer_ops.h:76-110 handle_write_W *)
definition handle_write_W :: "linux \<Rightarrow> mem \<Rightarrow> byte list \<Rightarrow> nat \<Rightarrow> driver \<Rightarrow> int \<times> driver" where
  "handle_write_W lx um k_buf len d =
     (if len \<noteq> W_msg_len then (-1, d)
      else let unidress = addr_at k_buf 1;
               user_buffer_ptr = read_u64 k_buf 25;
               user_buf_len = read_u64 k_buf 33;
               (rest, km) = lx_copy_from_user lx um (d_kmem d) (m_kernel_virt_addr unidress)
                              user_buffer_ptr user_buf_len
           in (if (ucast rest :: u32) \<noteq> 0 then -1 else int W_msg_len, d\<lparr>d_kmem := km\<rparr>))"

(* src/unimem/driver_buffer/buffer_ops.h:112-146 handle_write_R *)
definition handle_write_R :: "linux \<Rightarrow> mem \<Rightarrow> byte list \<Rightarrow> nat \<Rightarrow> driver \<Rightarrow> int \<times> mem" where
  "handle_write_R lx um k_buf len d =
     (if len \<noteq> R_msg_len then (-1, um)
      else let unidress = addr_at k_buf 1;
               user_buffer_ptr = read_u64 k_buf 25;
               user_buf_len = read_u64 k_buf 33;
               (rest, um') = lx_copy_to_user lx (d_kmem d) um user_buffer_ptr
                               (m_kernel_virt_addr unidress) user_buf_len
           in (if (ucast rest :: u32) \<noteq> 0 then -1 else int R_msg_len, um'))"

(* src/unimem/driver_buffer/unimem_buffer_alloc.c:61-74 dev_open *)
definition dev_open :: "driver \<Rightarrow> int \<times> driver" where
  "dev_open d = (if s_dev_opened d > 0 then (-1, d) else (0, d\<lparr>s_dev_opened := 1\<rparr>))"

(* src/unimem/driver_buffer/unimem_buffer_alloc.c:181-188 dev_release *)
definition dev_release :: "driver \<Rightarrow> int \<times> driver" where
  "dev_release d = (0, d\<lparr>s_dev_opened := 0\<rparr>)"

text \<open>The bytes written to the reader's buffer are returned.\<close>

(* src/unimem/driver_buffer/unimem_buffer_alloc.c:76-111 dev_read *)
definition dev_read :: "driver \<Rightarrow> nat \<Rightarrow> int \<times> byte list \<times> driver" where
  "dev_read d len =
     (if s_msg_type d = 0 then (-1, [], d)
      else if s_msg_type d \<noteq> chr_z then (-1, [], d)
      else if len < z_msg_len then (-1, [], d)
      else (int z_msg_len, chr_z # addr_bytes (s_unidress d), d\<lparr>s_msg_type := 0\<rparr>))"

text \<open>The message is copied into a zeroed buffer of the largest message's size.\<close>

(* src/unimem/driver_buffer/unimem_buffer_alloc.c:121-179 dev_write *)
definition dev_write :: "linux \<Rightarrow> byte list \<Rightarrow> driver \<Rightarrow> mem \<Rightarrow> int \<times> driver \<times> mem" where
  "dev_write lx msg d um =
     (let len = length msg
      in if len > W_msg_len then (-1, d, um)
         else let k_buf = msg @ replicate (W_msg_len - len) 0;
                  c = hd k_buf
              in if c = chr_C then (let (rc, d') = handle_write_C lx k_buf len d in (rc, d', um))
                 else if c = chr_D then (let (rc, d') = handle_write_D lx k_buf len d in (rc, d', um))
                 else if c = chr_W then (let (rc, d') = handle_write_W lx um k_buf len d in (rc, d', um))
                 else if c = chr_R then (let (rc, um') = handle_write_R lx um k_buf len d in (rc, d, um'))
                 else (-1, d, um))"

(* src/unimem/driver_buffer/unimem_buffer_alloc.c:238-242 init_func *)
definition driver_init :: "mem \<Rightarrow> driver" where
  "driver_init km = \<lparr>s_dev_opened = 0, s_msg_type = 0,
     s_unidress = \<lparr>m_kernel_virt_addr = 0, m_bus_addr = 0, ua_size = 0\<rparr>, d_kmem = km\<rparr>"

section \<open>Messages from user space\<close>

text \<open>
  The state the two sides share. A system call returns the driver's answer, or -1 for any
  negative one. Messages are assembled in a static buffer of a hundred bytes; more is an access
  out of bounds.
\<close>

record unimem_world =
  uw_driver :: driver
  uw_user :: mem

definition sys_write :: "linux \<Rightarrow> byte list \<Rightarrow> unimem_world \<Rightarrow> int \<times> unimem_world" where
  "sys_write lx msg w =
     (let (rc, d, um) = dev_write lx msg (uw_driver w) (uw_user w)
      in (max rc (-1), \<lparr>uw_driver = d, uw_user = um\<rparr>))"

definition sys_read :: "nat \<Rightarrow> unimem_world \<Rightarrow> int \<times> byte list \<times> unimem_world" where
  "sys_read len w =
     (let (rc, bs, d) = dev_read (uw_driver w) len in (max rc (-1), bs, w\<lparr>uw_driver := d\<rparr>))"

definition in_buffer :: "byte list \<Rightarrow> byte list res" where
  "in_buffer msg = (if length msg \<le> 100 then Inr msg else Inl Out_of_bounds)"

text \<open>The bytes a pointer and a length stand for.\<close>

definition ptr_bytes :: "unimem_ptr \<Rightarrow> byte list res" where
  "ptr_bytes p =
     (case up_ptr p of
        None \<Rightarrow> if up_ptr_size p = 0 then Inr [] else Inl Null_deref
      | Some bs \<Rightarrow> if unat (up_ptr_size p) \<le> length bs then Inr (take (unat (up_ptr_size p)) bs)
                   else Inl Out_of_bounds)"

(* src/cpp/unimem_utils.h:19-41 write_alloc_request *)
definition write_alloc_request :: "linux \<Rightarrow> u64 \<Rightarrow> unimem_world \<Rightarrow> int \<times> unimem_world" where
  "write_alloc_request lx alloc_request w =
     (let (rc, w') = sys_write lx (chr_C # le_bytes 8 (unat alloc_request)) w
      in if rc = 0 then (-1, w') else if rc < 0 then (-1, w') else (rc, w'))"

text \<open>The address bytes are returned with the length.\<close>

(* src/cpp/unimem_utils.h:43-83 read_alloc_response *)
definition read_alloc_response :: "nat \<Rightarrow> unimem_world \<Rightarrow> int \<times> byte list \<times> unimem_world" where
  "read_alloc_response unimem_addr_len w =
     (let (rc, bs, w') = sys_read 100 w
      in if rc = 0 then (-1, [], w')
         else if rc < 0 then (-1, [], w')
         else if hd bs \<noteq> chr_z then (-1, [], w')
         else if nat rc > unimem_addr_len then (-1, [], w')
         else (rc - 1, take (nat rc - 1) (tl bs), w'))"

(* src/cpp/unimem_utils.h:85-109 write_destroy_request *)
definition write_destroy_request :: "linux \<Rightarrow> unimem_ptr \<Rightarrow> unimem_world \<Rightarrow> unimem_world res" where
  "write_destroy_request lx p w =
     bindr (ptr_bytes p) (\<lambda>a. bindr (in_buffer (chr_D # a)) (\<lambda>msg.
       Inr (snd (sys_write lx msg w))))"

(* src/cpp/unimem_utils.h:111-144 copy_user_buffer_to_unimem *)
definition copy_user_buffer_to_unimem ::
  "linux \<Rightarrow> unimem_ptr \<Rightarrow> u64 \<Rightarrow> u64 \<Rightarrow> unimem_world \<Rightarrow> (int \<times> unimem_world) res" where
  "copy_user_buffer_to_unimem lx p user_buffer user_buffer_len w =
     bindr (ptr_bytes p) (\<lambda>a.
     bindr (in_buffer (chr_W # a @ le_bytes 8 (unat user_buffer) @ le_bytes 8 (unat user_buffer_len)))
       (\<lambda>msg. Inr (sys_write lx msg w)))"

(* src/cpp/unimem_utils.h:146-181 copy_unimem_buffer_to_user *)
definition copy_unimem_buffer_to_user ::
  "linux \<Rightarrow> u64 \<Rightarrow> u64 \<Rightarrow> unimem_ptr \<Rightarrow> unimem_world \<Rightarrow> (int \<times> unimem_world) res" where
  "copy_unimem_buffer_to_user lx user_buffer user_buffer_len p w =
     bindr (ptr_bytes p) (\<lambda>a.
     bindr (in_buffer (chr_R # a @ le_bytes 8 (unat user_buffer) @ le_bytes 8 (unat user_buffer_len)))
       (\<lambda>msg. Inr (sys_write lx msg w)))"

section \<open>The manager\<close>

(* src/cpp/unimem_manager.h:14-40 UnimemManager *)
record unimem_manager =
  m_fd :: int

text \<open>\<open>open_dev\<close> is the \<open>open\<close> system call.\<close>

(* src/cpp/unimem_manager.cc:13-30 UnimemManager::UnimemManager *)
definition new_UnimemManager :: "(string \<Rightarrow> int) \<Rightarrow> wee_config \<Rightarrow> unimem_manager res" where
  "new_UnimemManager open_dev config =
     (case get_value_for_key_str config ''UnimemDriverPath'' None of
        (False, _) \<Rightarrow> Inl (Runtime_error ''No unimem driver path specified.'')
      | (True, path) \<Rightarrow>
          (let fd = open_dev (case path of None \<Rightarrow> [] | Some p \<Rightarrow> p)
           in if fd < 1 then Inl (Runtime_error ''Could not open the unimem driver.'')
              else Inr \<lparr>m_fd = fd\<rparr>))"

text \<open>\<open>close\<close> of the last descriptor calls the driver's \<open>release\<close>.\<close>

(* src/cpp/unimem_manager.cc:32-39 UnimemManager::~UnimemManager *)
definition delete_UnimemManager :: "unimem_manager \<Rightarrow> unimem_world \<Rightarrow> unimem_world" where
  "delete_UnimemManager m w =
     (if m_fd m > 0 then w\<lparr>uw_driver := snd (dev_release (uw_driver w))\<rparr> else w)"

text \<open>\<open>malloc_ok\<close>: whether \<open>malloc\<close> of the address structure succeeds.\<close>

(* src/cpp/unimem_manager.cc:41-81 UnimemManager::allocate_unimem *)
definition allocate_unimem ::
  "linux \<Rightarrow> bool \<Rightarrow> unimem_manager \<Rightarrow> u64 \<Rightarrow> unimem_world \<Rightarrow> unimem_ptr \<times> unimem_world" where
  "allocate_unimem lx malloc_ok m sz w =
     (if m_fd m < 1 then (empty_unimem_ptr, w)
      else let (rc, w1) = write_alloc_request lx sz w
           in if rc < 0 then (empty_unimem_ptr, w1)
              else let (rc, addr, w2) = read_alloc_response 100 w1
                   in if rc < 0 then (empty_unimem_ptr, w2)
                      else if \<not> malloc_ok then (empty_unimem_ptr, w2)
                      else (\<lparr>up_ptr = Some addr, up_ptr_size = word_of_int rc\<rparr>, w2))"

(* src/cpp/unimem_manager.cc:83-87 UnimemManager::release_unimem *)
definition release_unimem :: "linux \<Rightarrow> unimem_ptr \<Rightarrow> unimem_world \<Rightarrow> unimem_world res" where
  "release_unimem lx p w = write_destroy_request lx p w"

(* src/cpp/unimem_manager.cc:89-107 UnimemManager::copy_to_unimem *)
definition copy_to_unimem ::
  "linux \<Rightarrow> unimem_ptr \<Rightarrow> u64 \<Rightarrow> u64 \<Rightarrow> unimem_world \<Rightarrow> (bool \<times> unimem_world) res" where
  "copy_to_unimem lx p buf_ptr buf_size w =
     bindr (copy_user_buffer_to_unimem lx p buf_ptr buf_size w) (\<lambda>(rc, w').
       Inr (\<not> rc < 0, w'))"

(* src/cpp/unimem_manager.cc:109-128 UnimemManager::copy_from_unimem *)
definition copy_from_unimem ::
  "linux \<Rightarrow> u64 \<Rightarrow> unimem_ptr \<Rightarrow> u64 \<Rightarrow> unimem_world \<Rightarrow> (bool \<times> unimem_world) res" where
  "copy_from_unimem lx buf_ptr p buf_size w =
     bindr (copy_unimem_buffer_to_user lx buf_ptr buf_size p w) (\<lambda>(rc, w').
       Inr (\<not> rc < 0, w'))"

section \<open>Facts about memory\<close>

lemma mem_read_Some_iff:
  "mem_read m a n = Some bs \<longleftrightarrow> length bs = n \<and> (\<forall>i<n. m (a + of_nat i) = Some (bs ! i))"
proof -
  have "map the (map (\<lambda>i. m (a + of_nat i)) [0..<n]) = bs \<and> None \<notin> set (map (\<lambda>i. m (a + of_nat i)) [0..<n])
    \<longleftrightarrow> length bs = n \<and> (\<forall>i<n. m (a + of_nat i) = Some (bs ! i))" (is "?l \<longleftrightarrow> ?r")
  proof
    assume l: ?l
    then have len: "length bs = n" by auto
    have "m (a + of_nat i) = Some (bs ! i)" if "i < n" for i
    proof -
      have "m (a + of_nat i) \<in> set (map (\<lambda>i. m (a + of_nat i)) [0..<n])" using that by simp
      then have "m (a + of_nat i) \<noteq> None" using l by metis
      moreover have "bs ! i = the (m (a + of_nat i))" using l that by auto
      ultimately show ?thesis by auto
    qed
    with len show ?r by blast
  next
    assume r: ?r
    then have "map (\<lambda>i. m (a + of_nat i)) [0..<n] = map Some bs"
      by (intro nth_equalityI) auto
    then show ?l by (auto simp: o_def)
  qed
  then show ?thesis unfolding mem_read_def Let_def by auto
qed

lemma mem_read_length: "mem_read m a n = Some bs \<Longrightarrow> length bs = n"
  by (simp add: mem_read_Some_iff)

lemma offset_back: "i < 2 ^ 64 \<Longrightarrow> unat ((a :: u64) + of_nat i - a) = i"
  by (simp add: unat_of_nat_small)

lemma mem_read_write_same:
  assumes "length bs \<le> 2 ^ 64"
  shows "mem_read (mem_write m a bs) a (length bs) = Some bs"
proof -
  have "unat (a + of_nat i - a) = i" if "i < length bs" for i
    using that assms by (intro offset_back) simp
  then show ?thesis by (simp add: mem_read_Some_iff mem_write_def)
qed

lemma mem_read_write_other:
  assumes "\<forall>i<n. length bs \<le> unat (b + of_nat i - a)"
  shows "mem_read (mem_write m a bs) b n = mem_read m b n"
proof -
  have "map (\<lambda>i. mem_write m a bs (b + of_nat i)) [0..<n] = map (\<lambda>i. m (b + of_nat i)) [0..<n]"
    using assms by (intro map_cong) (auto simp: mem_write_def not_less)
  then show ?thesis by (simp only: mem_read_def)
qed

lemma mem_read_bound: "unat (n :: u64) \<le> 2 ^ 64"
  using unat_bound64 [of n] by simp

section \<open>One user at a time\<close>

text \<open>An open device refuses a second user until the manager of the first is deleted.\<close>

lemma device_has_one_user:
  assumes "dev_open d = (0, d')" and "0 < m_fd m" and "uw_driver w = d'"
  shows "dev_open d' = (-1, d')" and "fst (dev_open (uw_driver (delete_UnimemManager m w))) = 0"
    and "d_kmem (uw_driver (delete_UnimemManager m w)) = d_kmem d"
proof -
  have d: "d' = d\<lparr>s_dev_opened := 1\<rparr>" using assms(1) by (auto simp: dev_open_def split: if_splits)
  show "dev_open d' = (-1, d')" and "fst (dev_open (uw_driver (delete_UnimemManager m w))) = 0"
    and "d_kmem (uw_driver (delete_UnimemManager m w)) = d_kmem d"
    using assms(2,3) by (simp_all add: d dev_open_def dev_release_def delete_UnimemManager_def)
qed

section \<open>Facts about messages\<close>

lemma take_le_bytes: "m \<le> n \<Longrightarrow> take m (le_bytes n w) = le_bytes m w"
proof (induction n arbitrary: m w)
  case 0
  then show ?case by simp
next
  case (Suc n)
  then show ?case by (cases m) simp_all
qed

lemma length_addr_bytes [simp]: "length (addr_bytes a) = 24"
  by (simp add: addr_bytes_def)

lemma of_nat_le_nat_le_bytes [simp]: "(of_nat (le_nat (le_bytes 8 (unat (x :: u64)))) :: u64) = x"
  by simp

lemma read_u64_simps:
  "read_u64 (c # le_bytes 8 (unat x) @ rest) 1 = x"
  "length pre = off \<Longrightarrow> read_u64 (pre @ le_bytes 8 (unat x) @ rest) off = x"
  by (simp_all add: read_u64_def)

lemma addr_at_addr_bytes: "addr_at (c # addr_bytes a @ rest) 1 = a"
proof -
  have "read_u64 (c # addr_bytes a @ rest) 1 = m_kernel_virt_addr a"
    unfolding addr_bytes_def append_assoc by (rule read_u64_simps(1))
  moreover have "read_u64 (c # addr_bytes a @ rest) (1 + 8) = m_bus_addr a"
    using read_u64_simps(2) [of "c # le_bytes 8 (unat (m_kernel_virt_addr a))" "1 + 8" "m_bus_addr a"
        "le_bytes 8 (unat (ua_size a)) @ rest"] by (simp add: addr_bytes_def)
  moreover have "read_u64 (c # addr_bytes a @ rest) (1 + 16) = ua_size a"
    using read_u64_simps(2) [of "c # le_bytes 8 (unat (m_kernel_virt_addr a)) @
        le_bytes 8 (unat (m_bus_addr a))" "1 + 16" "ua_size a" rest] by (simp add: addr_bytes_def)
  ultimately show ?thesis by (simp add: addr_at_def)
qed

lemma copy_msg_fields:
  defines "msg c a p n \<equiv> c # addr_bytes a @ le_bytes 8 (unat p) @ le_bytes 8 (unat n)"
  shows "length (msg c a p n) = 41" and "addr_at (msg c a p n) 1 = a"
    and "read_u64 (msg c a p n) 25 = p" and "read_u64 (msg c a p n) 33 = n"
proof -
  show "length (msg c a p n) = 41" by (simp add: msg_def)
  show "addr_at (msg c a p n) 1 = a" unfolding msg_def by (rule addr_at_addr_bytes)
  show "read_u64 (msg c a p n) 25 = p"
    using read_u64_simps(2) [of "c # addr_bytes a" 25 p "le_bytes 8 (unat n)"] by (simp add: msg_def)
  show "read_u64 (msg c a p n) 33 = n"
    using read_u64_simps(2) [of "c # addr_bytes a @ le_bytes 8 (unat p)" 33 n "[]"] by (simp add: msg_def)
qed

text \<open>The pointer \<open>allocate_unimem\<close> returns holds the driver's address structure.\<close>

definition ptr_of :: "unimem_addr \<Rightarrow> unimem_ptr" where
  "ptr_of a = \<lparr>up_ptr = Some (addr_bytes a), up_ptr_size = 24\<rparr>"

lemma ptr_bytes_ptr_of [simp]: "ptr_bytes (ptr_of a) = Inr (addr_bytes a)"
  by (simp add: ptr_bytes_def ptr_of_def)

lemma linux_copy_from_user:
  assumes "linux_ok lx" and "mem_read um src (unat n) = Some bs" and "mem_read km dst (unat n) \<noteq> None"
  shows "lx_copy_from_user lx um km dst src n = (0, mem_write km dst bs)"
  using assms by (simp add: linux_ok_def copy_from_user_ok_def)

lemma linux_copy_to_user:
  assumes "linux_ok lx" and "mem_read km src (unat n) = Some bs" and "mem_read um dst (unat n) \<noteq> None"
  shows "lx_copy_to_user lx km um dst src n = (0, mem_write um dst bs)"
  using assms by (simp add: linux_ok_def copy_to_user_ok_def)

lemma linux_vmalloc:
  assumes "linux_ok lx" and "lx_vmalloc lx km n = (a, km')" and "a \<noteq> 0"
  shows "\<forall>i<unat n. km (a + of_nat i) = None" and "mem_read km' a (unat n) \<noteq> None"
    and "\<forall>x. unat n \<le> unat (x - a) \<longrightarrow> km' x = km x"
proof -
  have "(\<forall>i<unat n. km (a + of_nat i) = None) \<and> mem_read km' a (unat n) \<noteq> None \<and>
        (\<forall>x. unat n \<le> unat (x - a) \<longrightarrow> km' x = km x)"
  proof -
    have "vmalloc_ok lx" using assms(1) by (simp add: linux_ok_def)
    from this [unfolded vmalloc_ok_def, rule_format, OF assms(2,3)] show ?thesis by blast
  qed
  then show "\<forall>i<unat n. km (a + of_nat i) = None" "mem_read km' a (unat n) \<noteq> None"
    "\<forall>x. unat n \<le> unat (x - a) \<longrightarrow> km' x = km x" by blast+
qed

lemma letters_distinct [simp]:
  "chr_C \<noteq> chr_D" "chr_C \<noteq> chr_W" "chr_C \<noteq> chr_R" "chr_D \<noteq> chr_W" "chr_D \<noteq> chr_R" "chr_W \<noteq> chr_R"
  "chr_D \<noteq> chr_C" "chr_W \<noteq> chr_C" "chr_R \<noteq> chr_C" "chr_W \<noteq> chr_D" "chr_R \<noteq> chr_D" "chr_R \<noteq> chr_W"
  "chr_z \<noteq> 0"
  by (simp_all add: letters)

text \<open>What each message does in the driver.\<close>

lemma write_W_ok:
  fixes n :: u64
  assumes "linux_ok lx" and "mem_read (uw_user w) p (unat n) = Some bs"
    and "mem_read (d_kmem (uw_driver w)) (m_kernel_virt_addr a) (unat n) \<noteq> None"
  shows "sys_write lx (chr_W # addr_bytes a @ le_bytes 8 (unat p) @ le_bytes 8 (unat n)) w =
    (41, w\<lparr>uw_driver := (uw_driver w)\<lparr>d_kmem :=
       mem_write (d_kmem (uw_driver w)) (m_kernel_virt_addr a) bs\<rparr>\<rparr>)"
proof -
  let ?msg = "chr_W # addr_bytes a @ le_bytes 8 (unat p) @ le_bytes 8 (unat n)"
  note f = copy_msg_fields [of chr_W a p n]
  have "handle_write_W lx (uw_user w) ?msg 41 (uw_driver w) =
    (41, (uw_driver w)\<lparr>d_kmem := mem_write (d_kmem (uw_driver w)) (m_kernel_virt_addr a) bs\<rparr>)"
    using linux_copy_from_user [OF assms] f by (simp add: handle_write_W_def W_msg_len_def del: One_nat_def)
  then show ?thesis using f(1)
    by (simp add: sys_write_def dev_write_def W_msg_len_def)
qed

lemma write_R_ok:
  fixes n :: u64
  assumes "linux_ok lx"
    and "mem_read (d_kmem (uw_driver w)) (m_kernel_virt_addr a) (unat n) = Some bs"
    and "mem_read (uw_user w) p (unat n) \<noteq> None"
  shows "sys_write lx (chr_R # addr_bytes a @ le_bytes 8 (unat p) @ le_bytes 8 (unat n)) w =
    (41, w\<lparr>uw_user := mem_write (uw_user w) p bs\<rparr>)"
proof -
  let ?msg = "chr_R # addr_bytes a @ le_bytes 8 (unat p) @ le_bytes 8 (unat n)"
  note f = copy_msg_fields [of chr_R a p n]
  have "handle_write_R lx (uw_user w) ?msg 41 (uw_driver w) = (41, mem_write (uw_user w) p bs)"
    using linux_copy_to_user [OF assms] f by (simp add: handle_write_R_def R_msg_len_def del: One_nat_def)
  then show ?thesis using f(1)
    by (simp add: sys_write_def dev_write_def W_msg_len_def)
qed

lemma copy_to_unimem_ok:
  fixes n :: u64
  assumes "linux_ok lx" and "mem_read (uw_user w) p (unat n) = Some bs"
    and "mem_read (d_kmem (uw_driver w)) (m_kernel_virt_addr a) (unat n) \<noteq> None"
  shows "copy_to_unimem lx (ptr_of a) p n w =
    Inr (True, w\<lparr>uw_driver := (uw_driver w)\<lparr>d_kmem :=
       mem_write (d_kmem (uw_driver w)) (m_kernel_virt_addr a) bs\<rparr>\<rparr>)"
  using write_W_ok [OF assms]
  by (simp add: copy_to_unimem_def copy_user_buffer_to_unimem_def in_buffer_def)

lemma copy_from_unimem_ok:
  fixes n :: u64
  assumes "linux_ok lx"
    and "mem_read (d_kmem (uw_driver w)) (m_kernel_virt_addr a) (unat n) = Some bs"
    and "mem_read (uw_user w) p (unat n) \<noteq> None"
  shows "copy_from_unimem lx p (ptr_of a) n w =
    Inr (True, w\<lparr>uw_user := mem_write (uw_user w) p bs\<rparr>)"
  using write_R_ok [OF assms]
  by (simp add: copy_from_unimem_def copy_unimem_buffer_to_user_def in_buffer_def)

lemma write_C_ok:
  assumes "lx_vmalloc lx (d_kmem (uw_driver w)) n = (a, km)"
  shows "sys_write lx (chr_C # le_bytes 8 (unat n)) w =
    (if a = 0 then (-1, w\<lparr>uw_driver := (uw_driver w)\<lparr>s_unidress := (s_unidress (uw_driver w))
        \<lparr>m_kernel_virt_addr := 0, m_bus_addr := 13\<rparr>, d_kmem := km\<rparr>\<rparr>)
     else (9, w\<lparr>uw_driver := (uw_driver w)\<lparr>s_unidress :=
        \<lparr>m_kernel_virt_addr = a, m_bus_addr = 13, ua_size = n\<rparr>, s_msg_type := chr_z, d_kmem := km\<rparr>\<rparr>))"
proof -
  have "read_u64 (chr_C # le_bytes 8 (unat n) @ r) 1 = n" for r by (rule read_u64_simps(1))
  then show ?thesis using assms
    by (simp add: sys_write_def dev_write_def handle_write_C_def msg_lens del: One_nat_def
        split: if_splits)
qed

lemma allocate_unimem_ok:
  assumes "0 < m_fd m" and "lx_vmalloc lx (d_kmem (uw_driver w)) n = (a, km)" and "a \<noteq> 0"
  shows "allocate_unimem lx mall m n w =
    ((if mall then ptr_of \<lparr>m_kernel_virt_addr = a, m_bus_addr = 13, ua_size = n\<rparr> else empty_unimem_ptr),
     w\<lparr>uw_driver := (uw_driver w)\<lparr>s_unidress := \<lparr>m_kernel_virt_addr = a, m_bus_addr = 13, ua_size = n\<rparr>,
        s_msg_type := 0, d_kmem := km\<rparr>\<rparr>)"
  using assms write_C_ok [OF assms(2)]
  by (simp add: allocate_unimem_def write_alloc_request_def read_alloc_response_def sys_read_def
      dev_read_def msg_lens ptr_of_def)

lemma allocate_unimem_fails:
  assumes "0 < m_fd m" and "lx_vmalloc lx (d_kmem (uw_driver w)) n = (0, km)"
  shows "fst (allocate_unimem lx mall m n w) = empty_unimem_ptr"
  using assms write_C_ok [OF assms(2)]
  by (simp add: allocate_unimem_def write_alloc_request_def)

section \<open>The contract of unified memory\<close>

text \<open>
  What the dispatcher relies on: bytes put behind a handle are what a later \<open>get\<close> gives back.
  \<open>content s h n\<close> are the first \<open>n\<close> bytes behind the handle, if there are as many.
\<close>

locale unified_memory =
  fixes ok :: "'s \<Rightarrow> bool"
    and content :: "'s \<Rightarrow> 'h \<Rightarrow> nat \<Rightarrow> byte list option"
    and user :: "'s \<Rightarrow> u64 \<Rightarrow> nat \<Rightarrow> byte list option"
    and put :: "'h \<Rightarrow> u64 \<Rightarrow> u64 \<Rightarrow> 's \<Rightarrow> (bool \<times> 's) res"
    and fetch :: "u64 \<Rightarrow> 'h \<Rightarrow> u64 \<Rightarrow> 's \<Rightarrow> (bool \<times> 's) res"
  assumes put_ok: "ok s \<Longrightarrow> user s p (unat n) = Some bs \<Longrightarrow> content s h (unat n) \<noteq> None \<Longrightarrow>
      \<exists>s'. put h p n s = Inr (True, s') \<and> ok s' \<and> content s' h (unat n) = Some bs \<and> user s' = user s"
    and fetch_ok: "ok s \<Longrightarrow> content s h (unat n) = Some bs \<Longrightarrow> user s q (unat n) \<noteq> None \<Longrightarrow>
      \<exists>s'. fetch q h n s = Inr (True, s') \<and> ok s' \<and> user s' q (unat n) = Some bs \<and>
        content s' = content s"
begin

lemma put_fetch:
  assumes "ok s" and "user s p (unat n) = Some bs" and "content s h (unat n) \<noteq> None"
    and "user s q (unat n) \<noteq> None"
  shows "\<exists>s1 s2. put h p n s = Inr (True, s1) \<and> fetch q h n s1 = Inr (True, s2) \<and> ok s2 \<and>
    user s2 q (unat n) = Some bs \<and> content s2 h (unat n) = Some bs"
proof -
  obtain s1 where s1: "put h p n s = Inr (True, s1)" "ok s1" "content s1 h (unat n) = Some bs"
      "user s1 = user s"
    using put_ok [OF assms(1-3)] by blast
  have "user s1 q (unat n) \<noteq> None" using s1(4) assms(4) by simp
  then show ?thesis using fetch_ok [OF s1(2,3)] s1 by fastforce
qed

end

text \<open>The manager over the driver provides it; the kernel's services are part of the state.\<close>

type_synonym lx_world = "linux \<times> unimem_world"

definition lxw_content :: "lx_world \<Rightarrow> unimem_addr \<Rightarrow> nat \<Rightarrow> byte list option" where
  "lxw_content s a n = mem_read (d_kmem (uw_driver (snd s))) (m_kernel_virt_addr a) n"

definition lxw_user :: "lx_world \<Rightarrow> u64 \<Rightarrow> nat \<Rightarrow> byte list option" where
  "lxw_user s p n = mem_read (uw_user (snd s)) p n"

definition lxw_put :: "unimem_addr \<Rightarrow> u64 \<Rightarrow> u64 \<Rightarrow> lx_world \<Rightarrow> (bool \<times> lx_world) res" where
  "lxw_put a p n s =
     bindr (copy_to_unimem (fst s) (ptr_of a) p n (snd s)) (\<lambda>(b, w). Inr (b, fst s, w))"

definition lxw_fetch :: "u64 \<Rightarrow> unimem_addr \<Rightarrow> u64 \<Rightarrow> lx_world \<Rightarrow> (bool \<times> lx_world) res" where
  "lxw_fetch q a n s =
     bindr (copy_from_unimem (fst s) q (ptr_of a) n (snd s)) (\<lambda>(b, w). Inr (b, fst s, w))"

interpretation lxw: unified_memory "\<lambda>s. linux_ok (fst s)" lxw_content lxw_user lxw_put lxw_fetch
proof unfold_locales
  fix s :: lx_world and p n :: u64 and bs and h :: unimem_addr
  assume ok: "linux_ok (fst s)" and u: "lxw_user s p (unat n) = Some bs"
    and c: "lxw_content s h (unat n) \<noteq> None"
  have "length bs = unat n" using u by (simp add: lxw_user_def mem_read_length)
  then have "mem_read (mem_write (d_kmem (uw_driver (snd s))) (m_kernel_virt_addr h) bs)
      (m_kernel_virt_addr h) (unat n) = Some bs"
    using mem_read_write_same [of bs] mem_read_bound [of n] by metis
  then show "\<exists>s'. lxw_put h p n s = Inr (True, s') \<and> linux_ok (fst s') \<and>
      lxw_content s' h (unat n) = Some bs \<and> lxw_user s' = lxw_user s"
    using copy_to_unimem_ok [OF ok, of "snd s" p n bs h] u c ok
    by (simp add: lxw_put_def lxw_user_def lxw_content_def fun_eq_iff)
next
  fix s :: lx_world and q n :: u64 and bs and h :: unimem_addr
  assume ok: "linux_ok (fst s)" and c: "lxw_content s h (unat n) = Some bs"
    and u: "lxw_user s q (unat n) \<noteq> None"
  have "length bs = unat n" using c by (simp add: lxw_content_def mem_read_length)
  then have "mem_read (mem_write (uw_user (snd s)) q bs) q (unat n) = Some bs"
    using mem_read_write_same [of bs] mem_read_bound [of n] by metis
  then show "\<exists>s'. lxw_fetch q h n s = Inr (True, s') \<and> linux_ok (fst s') \<and>
      lxw_user s' q (unat n) = Some bs \<and> lxw_content s' = lxw_content s"
    using copy_from_unimem_ok [OF ok, of "snd s" h n bs q] u c ok
    by (simp add: lxw_fetch_def lxw_user_def lxw_content_def fun_eq_iff)
qed

text \<open>The messages the driver understands.\<close>

definition well_formed_msg :: "byte list \<Rightarrow> bool" where
  "well_formed_msg msg \<longleftrightarrow> msg \<noteq> [] \<and>
     (hd msg = chr_C \<and> length msg = C_msg_len \<or> hd msg = chr_D \<and> length msg = D_msg_len \<or>
      hd msg = chr_W \<and> length msg = W_msg_len \<or> hd msg = chr_R \<and> length msg = R_msg_len)"

section \<open>A kernel for the examples\<close>

definition demo_linux :: linux where
  "demo_linux =
     \<lparr>lx_copy_from_user = (\<lambda>um km dst src n.
        case mem_read um src (unat n) of
          None \<Rightarrow> (n, km)
        | Some bs \<Rightarrow> if mem_read km dst (unat n) = None then (n, km) else (0, mem_write km dst bs)),
      lx_copy_to_user = (\<lambda>km um dst src n.
        case mem_read km src (unat n) of
          None \<Rightarrow> (n, um)
        | Some bs \<Rightarrow> if mem_read um dst (unat n) = None then (n, um) else (0, mem_write um dst bs)),
      lx_vmalloc = (\<lambda>km n.
        if list_all (\<lambda>i. km (4096 + of_nat i) = None) [0..<unat n]
        then (4096, mem_write km 4096 (replicate (unat n) 0)) else (0, km)),
      lx_vfree = (\<lambda>km a. km)\<rparr>"

lemma demo_linux_ok: "linux_ok demo_linux"
proof -
  have "vmalloc_ok demo_linux"
  proof (unfold vmalloc_ok_def, intro allI impI)
    fix km n a km'
    assume r: "lx_vmalloc demo_linux km n = (a, km')" and a: "a \<noteq> 0"
    then have free: "\<forall>i<unat n. km (4096 + of_nat i) = None" and a': "a = 4096"
      and km': "km' = mem_write km 4096 (replicate (unat n) 0)"
      by (auto simp: demo_linux_def list_all_iff split: if_splits)
    have "mem_read km' a (length (replicate (unat n) (0 :: byte))) = Some (replicate (unat n) 0)"
      unfolding km' a' by (rule mem_read_write_same) (use mem_read_bound [of n] in simp)
    then show "(\<forall>i<unat n. km (a + of_nat i) = None) \<and> mem_read km' a (unat n) \<noteq> None \<and>
      (\<forall>x. unat n \<le> unat (x - a) \<longrightarrow> km' x = km x)"
      using free by (auto simp: a' km' mem_write_def)
  qed
  then show ?thesis
    by (simp add: linux_ok_def copy_from_user_ok_def copy_to_user_ok_def demo_linux_def)
qed

definition demo_user :: mem where
  "demo_user = mem_write (mem_write Map.empty 100 [1, 2, 3]) 200 [0, 0, 0]"

definition demo_uw :: unimem_world where
  "demo_uw = \<lparr>uw_driver = driver_init Map.empty, uw_user = demo_user\<rparr>"

lemma demo_user_reads:
  "mem_read demo_user 100 3 = Some [1, 2, 3]" "mem_read demo_user 200 3 = Some [0, 0, 0]"
  by (simp_all add: demo_user_def mem_read_def mem_write_def upt_rec)

lemma demo_vmalloc:
  "lx_vmalloc demo_linux Map.empty n = (4096, mem_write Map.empty 4096 (replicate (unat n) 0))"
  by (simp add: demo_linux_def list_all_iff)

section \<open>Properties\<close>

text \<open>C21: What a user writes to freshly allocated unified memory is what comes back: after
  \<open>allocate_unimem\<close>, \<open>copy_to_unimem\<close> of a user buffer and \<open>copy_from_unimem\<close> into another, all
  three succeed and the second buffer holds the first one's bytes, whatever was there before.\<close>
theorem unimem_roundtrip:
  assumes "linux_ok lx" and "0 < m_fd m"
    and "lx_vmalloc lx (d_kmem (uw_driver w)) n = (a, km)" and "a \<noteq> 0"
    and "mem_read (uw_user w) p (unat n) = Some bs" and "mem_read (uw_user w) q (unat n) \<noteq> None"
  shows "\<exists>h w1 w2 w3. allocate_unimem lx True m n w = (h, w1) \<and>
    copy_to_unimem lx h p n w1 = Inr (True, w2) \<and> copy_from_unimem lx q h n w2 = Inr (True, w3) \<and>
    mem_read (uw_user w3) q (unat n) = Some bs"
proof -
  let ?a = "\<lparr>m_kernel_virt_addr = a, m_bus_addr = 13, ua_size = n\<rparr>"
  let ?w1 = "w\<lparr>uw_driver := (uw_driver w)\<lparr>s_unidress := ?a, s_msg_type := 0, d_kmem := km\<rparr>\<rparr>"
  have al: "allocate_unimem lx True m n w = (ptr_of ?a, ?w1)"
    using allocate_unimem_ok [OF assms(2-4), of True] by simp
  have c: "lxw_content (lx, ?w1) ?a (unat n) \<noteq> None"
    using linux_vmalloc(2) [OF assms(1,3,4)] by (simp add: lxw_content_def)
  have "\<exists>s1 s2. lxw_put ?a p n (lx, ?w1) = Inr (True, s1) \<and> lxw_fetch q ?a n s1 = Inr (True, s2) \<and>
      linux_ok (fst s2) \<and> lxw_user s2 q (unat n) = Some bs \<and> lxw_content s2 ?a (unat n) = Some bs"
    by (rule lxw.put_fetch) (use assms c in \<open>simp_all add: lxw_user_def\<close>)
  then obtain w2 w3 where "copy_to_unimem lx (ptr_of ?a) p n ?w1 = Inr (True, w2)"
      "copy_from_unimem lx q (ptr_of ?a) n w2 = Inr (True, w3)" "mem_read (uw_user w3) q (unat n) = Some bs"
    by (auto simp: lxw_put_def lxw_fetch_def lxw_user_def bindr_Inr_iff)
  then show ?thesis using al by blast
qed

theorem unimem_roundtrip_witness:
  "\<exists>h w1 w2 w3. allocate_unimem demo_linux True \<lparr>m_fd = 3\<rparr> 3 demo_uw = (h, w1) \<and>
    copy_to_unimem demo_linux h 100 3 w1 = Inr (True, w2) \<and>
    copy_from_unimem demo_linux 200 h 3 w2 = Inr (True, w3) \<and>
    mem_read (uw_user w3) 200 3 = Some [1, 2, 3]"
  using unimem_roundtrip [OF demo_linux_ok, of "\<lparr>m_fd = 3\<rparr>" demo_uw 3 4096 _ 100 "[1, 2, 3]" 200]
  by (simp add: demo_uw_def driver_init_def demo_vmalloc demo_user_reads)

text \<open>C39: The driver does not compare the length of a write with the size of the block: a write
  longer than the block succeeds and replaces the bytes of whatever is mapped behind it.\<close>
theorem unimem_write_overruns_block:
  assumes "linux_ok lx" and "unat (ua_size a) < unat n"
    and "mem_read (uw_user w) p (unat n) = Some bs"
    and "mem_read (d_kmem (uw_driver w)) (m_kernel_virt_addr a) (unat n) \<noteq> None"
  shows "\<exists>w'. copy_to_unimem lx (ptr_of a) p n w = Inr (True, w') \<and>
    d_kmem (uw_driver w') (m_kernel_virt_addr a + ua_size a) = Some (bs ! unat (ua_size a))"
proof -
  have l: "length bs = unat n" using assms(3) by (rule mem_read_length)
  have "unat (m_kernel_virt_addr a + ua_size a - m_kernel_virt_addr a) = unat (ua_size a)" by simp
  then show ?thesis
    using copy_to_unimem_ok [OF assms(1,3,4)] assms(2) l by (simp add: mem_write_def)
qed

theorem unimem_write_overruns_block_witness:
  "\<exists>w'. copy_to_unimem demo_linux (ptr_of \<lparr>m_kernel_virt_addr = 4096, m_bus_addr = 13, ua_size = 2\<rparr>) 100 3
      (demo_uw\<lparr>uw_driver := driver_init (mem_write Map.empty 4096 [7, 7, 9])\<rparr>) = Inr (True, w') \<and>
    d_kmem (uw_driver w') 4098 = Some 3"
proof -
  let ?a = "\<lparr>m_kernel_virt_addr = 4096, m_bus_addr = 13, ua_size = 2\<rparr>"
  let ?w = "demo_uw\<lparr>uw_driver := driver_init (mem_write Map.empty 4096 [7, 7, 9])\<rparr>"
  have k: "mem_read (d_kmem (uw_driver ?w)) (m_kernel_virt_addr ?a) (unat (3 :: u64)) \<noteq> None"
    by (simp add: driver_init_def mem_read_def mem_write_def upt_rec)
  have u: "mem_read (uw_user ?w) 100 (unat (3 :: u64)) = Some [1, 2, 3]"
    by (simp add: demo_uw_def demo_user_reads)
  have s: "unat (ua_size ?a) < unat (3 :: u64)" by simp
  show ?thesis using unimem_write_overruns_block [OF demo_linux_ok s u k] by simp
qed

text \<open>C40: The driver acts on well-formed messages only: in every state, a message that is too long, has an
  unknown letter, or a length other than the one its letter calls for is answered by -1 and changes
  neither the driver nor the user's memory. A read gives the 25 bytes of the answer if one is
  pending and the reader has room for them, and then no read gives it again; otherwise it
  returns -1 and changes nothing.\<close>
theorem driver_refuses_malformed:
  shows "(\<not> well_formed_msg msg \<longrightarrow> dev_write lx msg d um = (-1, d, um)) \<and>
    (if s_msg_type d = chr_z \<and> 25 \<le> len
     then \<exists>bs d'. dev_read d len = (25, bs, d') \<and> length bs = 25 \<and> dev_read d' len' = (-1, [], d')
     else dev_read d len = (-1, [], d))"
proof (intro conjI impI)
  show "if s_msg_type d = chr_z \<and> 25 \<le> len
     then \<exists>bs d'. dev_read d len = (25, bs, d') \<and> length bs = 25 \<and> dev_read d' len' = (-1, [], d')
     else dev_read d len = (-1, [], d)"
    by (auto simp: dev_read_def msg_lens letters addr_bytes_def)
  assume wf: "\<not> well_formed_msg msg"
  show "dev_write lx msg d um = (-1, d, um)"
  proof (cases "length msg > W_msg_len")
    case True
    then show ?thesis by (simp add: dev_write_def)
  next
    case False
    show ?thesis
    proof (cases "msg = []")
      case True
      then show ?thesis by (simp add: dev_write_def msg_lens letters)
    next
      case ne: False
      define k where "k = msg @ replicate (W_msg_len - length msg) 0"
      have h: "hd k = hd msg" using ne by (simp add: k_def)
      have d: "dev_write lx msg d um =
        (if hd k = chr_C then (let (rc, d') = handle_write_C lx k (length msg) d in (rc, d', um))
         else if hd k = chr_D then (let (rc, d') = handle_write_D lx k (length msg) d in (rc, d', um))
         else if hd k = chr_W then (let (rc, d') = handle_write_W lx um k (length msg) d in (rc, d', um))
         else if hd k = chr_R then (let (rc, um') = handle_write_R lx um k (length msg) d in (rc, d, um'))
         else (-1, d, um))"
        using False by (simp add: dev_write_def Let_def k_def)
      consider "hd msg = chr_C" "length msg \<noteq> C_msg_len" | "hd msg = chr_D" "length msg \<noteq> D_msg_len"
        | "hd msg = chr_W" "length msg \<noteq> W_msg_len" | "hd msg = chr_R" "length msg \<noteq> R_msg_len"
        | "hd msg \<notin> {chr_C, chr_D, chr_W, chr_R}"
        using wf ne by (auto simp: well_formed_msg_def)
      then show ?thesis
        unfolding d h
        by cases (simp_all add: handle_write_C_def handle_write_D_def handle_write_W_def handle_write_R_def)
    qed
  qed
qed

theorem driver_refuses_malformed_witness:
  "\<exists>d d' bs. s_msg_type d = chr_z \<and> dev_write demo_linux (chr_W # le_bytes 8 5) d demo_user = (-1, d, demo_user) \<and>
    dev_read d 24 = (-1, [], d) \<and> dev_read d 100 = (25, bs, d') \<and> length bs = 25 \<and> dev_read d' 100 = (-1, [], d')"
proof -
  have m: "\<not> well_formed_msg (chr_W # le_bytes 8 5)"
    by (simp add: well_formed_msg_def msg_lens)
  let ?d = "(driver_init Map.empty)\<lparr>s_msg_type := chr_z\<rparr>"
  have z: "s_msg_type ?d = chr_z" by simp
  have w: "dev_write demo_linux (chr_W # le_bytes 8 5) ?d demo_user = (-1, ?d, demo_user)"
    using driver_refuses_malformed [of "chr_W # le_bytes 8 5" demo_linux ?d demo_user 100 100] m by blast
  have r: "dev_read ?d 24 = (-1, [], ?d)"
    using driver_refuses_malformed [of "chr_W # le_bytes 8 5" demo_linux ?d demo_user 24 100] by simp
  have "\<exists>bs d'. dev_read ?d 100 = (25, bs, d') \<and> length bs = 25 \<and> dev_read d' 100 = (-1, [], d')"
    using driver_refuses_malformed [of "chr_W # le_bytes 8 5" demo_linux ?d demo_user 100 100] z by simp
  then show ?thesis using z w r by blast
qed

text \<open>The device has one user at a time: from a closed device, of any sequence of opens without a
  release only the first succeeds, and a release lets the next open succeed.\<close>
theorem driver_single_user:
  assumes "s_dev_opened d = 0"
  shows "\<exists>d1. dev_open d = (0, d1) \<and> dev_open d1 = (-1, d1) \<and>
    (\<exists>d2 d3. dev_release d1 = (0, d2) \<and> dev_open d2 = (0, d3))"
  using assms by (simp add: dev_open_def dev_release_def)

theorem driver_single_user_witness:
  "\<exists>d1. dev_open (driver_init Map.empty) = (0, d1) \<and> dev_open d1 = (-1, d1)"
  using driver_single_user [of "driver_init Map.empty"] by (auto simp: driver_init_def)

text \<open>The bus address a memory object reports is the low half of the one in the driver's answer,
  which the object's pointer carries byte by byte; an object without a pointer reports 0.\<close>
theorem bus_address_of_allocation:
  "get_unimem_bus_address (set_unimem_ptr c (ptr_of a) sz) = Inr (ucast (m_bus_addr a)) \<and>
   get_unimem_bus_address new_cl_mem = Inr 0"
proof -
  have t: "take 4 (le_bytes 8 (unat b)) = le_bytes 4 (unat b)" for b :: u64
    by (rule take_le_bytes) simp
  have l: "le_nat (le_bytes 4 (unat b)) = unat b mod 2 ^ 32" for b :: u64
    using le_nat_le_bytes [of 4 "unat b"] by simp
  have "unat (of_nat (unat b mod 2 ^ 32) :: u32) = unat (ucast b :: u32)" for b :: u64
  proof -
    have "unat (of_nat (unat b mod 2 ^ 32) :: u32) = unat b mod 2 ^ 32"
      by (rule unat_of_nat_small) simp
    also have "\<dots> = unat (ucast b :: u32)"
      by (simp only: unsigned_ucast_eq take_bit_eq_mod) simp
    finally show ?thesis .
  qed
  then have u: "(of_nat (le_nat (take 4 (le_bytes 8 (unat b)))) :: u32) = ucast b" for b :: u64
    unfolding t l by (simp only: word_unat_eq_iff)
  have d: "take 4 (drop 8 (addr_bytes a)) = take 4 (le_bytes 8 (unat (m_bus_addr a)))"
    by (simp add: addr_bytes_def)
  show ?thesis
    by (simp add: get_unimem_bus_address_def set_unimem_ptr_def ptr_of_def d u
        new_cl_mem_def empty_unimem_ptr_def del: take_append drop_append)
qed

end
