(* ===== verification/Dispatcher.thy ===== *)
theory Dispatcher
  imports Algo_Slicing Unimem
begin

text \<open>
  The dispatcher (\<^verbatim>\<open>cpp/dispatcher.cc\<close>) carries out the commands a queue hands it: it writes and
  reads memory objects through the unified memory and turns a kernel launch into an index space
  that the simple algorithm routes. The state is everything those handlers touch.
\<close>

section \<open>State\<close>

text \<open>
  What stays fixed after start-up: the event library, the kernel's services, the tables read from
  the bitstream descriptions, the driver handle, and whether \<open>malloc\<close> of an address structure
  succeeds.
\<close>

record ml_env =
  e_libev :: libev
  e_linux :: linux
  e_tracker :: tracker
  e_bits :: bitstream_manager
  e_unimem :: unimem_manager
  e_malloc_ok :: bool

text \<open>The dispatcher's own state and the objects, schedulers and memory it works on.\<close>

record ml_state =
  ml_sched :: sched_state
  ml_simple :: algo_simple
  ml_slicing :: algo_slicing
  ml_uni :: unimem_world

abbreviation ml_objs :: "ml_state \<Rightarrow> objs" where
  "ml_objs w \<equiv> ns_objs (ss_store (ml_sched w))"

definition put_objs :: "objs \<Rightarrow> ml_state \<Rightarrow> ml_state" where
  "put_objs s w = w\<lparr>ml_sched := (ml_sched w)\<lparr>ss_store := (ss_store (ml_sched w))\<lparr>ns_objs := s\<rparr>\<rparr>\<rparr>"

lemma put_objs_simps [simp]:
  "ml_objs (put_objs s w) = s" "put_objs s (put_objs t w) = put_objs s w" "put_objs (ml_objs w) w = w"
  "ml_uni (put_objs s w) = ml_uni w" "ml_simple (put_objs s w) = ml_simple w"
  "ml_slicing (put_objs s w) = ml_slicing w"
  "ns_ndranges (ss_store (ml_sched (put_objs s w))) = ns_ndranges (ss_store (ml_sched w))"
  "ss_schedulers (ml_sched (put_objs s w)) = ss_schedulers (ml_sched w)"
  by (simp_all add: put_objs_def)

section \<open>Writing and reading memory objects\<close>

(* src/cpp/dispatcher.cc:37-57 check_read_write_params *)
definition check_read_write_params :: "ptr option \<Rightarrow> u64 \<Rightarrow> int" where
  "check_read_write_params mem sz =
     (if mem = None then CL_INVALID_MEM_OBJECT else if sz < 1 then CL_INVALID_VALUE else CL_SUCCESS)"

text \<open>
  The condition \<open>cl_int rc = f () != CL_SUCCESS\<close> stores the result of the comparison.
\<close>

(* src/cpp/dispatcher.cc:64-71 Dispatcher::handle_read_command (condition) *)
definition checked_rc :: "ptr option \<Rightarrow> u64 \<Rightarrow> int" where
  "checked_rc mem sz = (if check_read_write_params mem sz \<noteq> CL_SUCCESS then 1 else 0)"

(* src/cpp/dispatcher.cc:60-106 Dispatcher::handle_read_command *)
definition handle_read_command ::
  "ml_env \<Rightarrow> ptr option \<Rightarrow> u64 \<Rightarrow> u64 option \<Rightarrow> ml_state \<Rightarrow> (int \<times> ml_state) res" where
  "handle_read_command env m_mem m_sz m_ptr w =
     (if checked_rc m_mem m_sz \<noteq> 0 then Inr (checked_rc m_mem m_sz, w)
      else bindr (nonnull m_mem) (\<lambda>p. bindr (deref (o_mems (ml_objs w)) p) (\<lambda>mem.
        if up_ptr (m_unimem_ptr mem) = None then Inr (CL_INVALID_MEM_OBJECT, w)
        else case m_ptr of
               None \<Rightarrow> Inr (CL_INVALID_VALUE, w)
             | Some host \<Rightarrow>
                 (if m_sz \<noteq> m_size mem then Inr (CL_INVALID_VALUE, w)
                  else bindr (copy_from_unimem (e_linux env) host (m_unimem_ptr mem) (m_size mem) (ml_uni w))
                         (\<lambda>(ok, u). Inr (if \<not> ok then CL_MEM_OBJECT_ALLOCATION_FAILURE else CL_SUCCESS,
                                       w\<lparr>ml_uni := u\<rparr>))))))"

(* src/cpp/dispatcher.cc:108-167 Dispatcher::handle_write_command *)
definition handle_write_command ::
  "ml_env \<Rightarrow> ptr option \<Rightarrow> u64 \<Rightarrow> u64 option \<Rightarrow> ml_state \<Rightarrow> (int \<times> ml_state) res" where
  "handle_write_command env m_mem m_sz m_ptr w =
     (if checked_rc m_mem m_sz \<noteq> 0 then Inr (checked_rc m_mem m_sz, w)
      else bindr (nonnull m_mem) (\<lambda>p.
           let (u_ptr, u1) = allocate_unimem (e_linux env) (e_malloc_ok env) (e_unimem env) m_sz (ml_uni w)
           in if up_ptr u_ptr = None then Inr (CL_MEM_OBJECT_ALLOCATION_FAILURE, w\<lparr>ml_uni := u1\<rparr>)
              else bindr (case m_ptr of
                            None \<Rightarrow> Inr (True, u1)
                          | Some host \<Rightarrow> copy_to_unimem (e_linux env) u_ptr host m_sz u1) (\<lambda>(ok, u2).
                   if \<not> ok
                   then bindr (release_unimem (e_linux env) u_ptr u2) (\<lambda>u3.
                          Inr (CL_MEM_OBJECT_ALLOCATION_FAILURE, w\<lparr>ml_uni := u3\<rparr>))
                   else bindr (deref (o_mems (ml_objs w)) p) (\<lambda>mem.
                          Inr (CL_SUCCESS,
                               put_objs ((ml_objs w)\<lparr>o_mems := (o_mems (ml_objs w))(p \<mapsto> set_unimem_ptr mem u_ptr m_sz)\<rparr>)
                                 (w\<lparr>ml_uni := u2\<rparr>))))))"

section \<open>Launching kernels\<close>

text \<open>
  \<open>new NDRange\<close> takes a fresh address; the exception its constructor can throw leaves the
  handler. The number of work groups is a \<open>size_t\<close> quotient kept in \<open>unsigned\<close>. The return code
  of the routing is not looked at.
\<close>

(* src/cpp/dispatcher.cc:169-204 Dispatcher::handle_ndrange_command *)
definition handle_ndrange_command ::
  "ml_env \<Rightarrow> ptr option \<Rightarrow> u64 list \<Rightarrow> u64 list \<Rightarrow> ptr option \<Rightarrow> ml_state \<Rightarrow> ml_state res" where
  "handle_ndrange_command env m_kernel gsize lsize event w =
     (case m_kernel of
        None \<Rightarrow> Inr w
      | Some kp \<Rightarrow>
          bindr (deref (o_kernels (ml_objs w)) kp) (\<lambda>k.
          case k_program k of
            None \<Rightarrow> Inr w
          | Some pp \<Rightarrow>
              bindr (deref (o_programs (ml_objs w)) pp) (\<lambda>prog.
              let (rc, rs) = get_resource_string (e_bits env) (m_xml_name prog) []
              in if lsize ! 0 = 0 then Inl Div_by_zero
                 else let num_wgs = ucast (gsize ! 0 div lsize ! 0) :: u32;
                          (nd_p, s1) = fresh (ml_objs w)
                      in bindr (nonnull event) (\<lambda>e.
                         bindr (new_NDRange kp e rs num_wgs 1 1 s1) (\<lambda>(r, s2).
                         bindr r (\<lambda>nd.
                           let st = (ss_store (ml_sched w))\<lparr>ns_objs := s2,
                                      ns_ndranges := (ns_ndranges (ss_store (ml_sched w)))(nd_p \<mapsto> nd)\<rparr>
                           in bindr (simple_route_ndrange (e_libev env) (e_tracker env) (Some nd_p) (ml_simple w)
                                       ((ml_sched w)\<lparr>ss_store := st\<rparr>)) (\<lambda>(rc, a, sw).
                                Inr (w\<lparr>ml_simple := a, ml_sched := sw\<rparr>))))))))"

section \<open>The commands\<close>

text \<open>The end of a write or read: the error code is set before the event completes.\<close>

(* src/cpp/dispatcher.cc:213-214 Dispatcher::handle_a_cmd (completion) *)
definition finish_command :: "ptr option \<Rightarrow> int \<Rightarrow> ml_state \<Rightarrow> (ml_state \<times> event_cb list) res" where
  "finish_command event err_code w =
     bindr (nonnull event) (\<lambda>e.
     bindr (update_event (ml_objs w) e (\<lambda>ev. set_error ev err_code)) (\<lambda>s1.
     bindr (complete_event s1 e) (\<lambda>(s2, cb). Inr (put_objs s2 w, [cb]))))"

text \<open>
  The callbacks of completed events are returned. The command classes are told apart by their
  type; a body of another class behind the type would be a wrong downcast.
\<close>

(* src/cpp/dispatcher.cc:206-260 Dispatcher::handle_a_cmd *)
definition handle_a_cmd ::
  "ml_env \<Rightarrow> mlcl_command \<Rightarrow> ml_state \<Rightarrow> (ml_state \<times> event_cb list) res" where
  "handle_a_cmd env cmd w =
     (case m_command_type cmd of
        WRITE_BUFFER \<Rightarrow>
          (case m_body cmd of
             WB mem off sz p \<Rightarrow>
               bindr (handle_write_command env mem sz p w) (\<lambda>(err_code, w1).
                 finish_command (m_event cmd) err_code w1)
           | _ \<Rightarrow> Inl Null_deref)
      | READ_BUFFER \<Rightarrow>
          (case m_body cmd of
             RB mem off sz p \<Rightarrow>
               bindr (handle_read_command env mem sz p w) (\<lambda>(err_code, w1).
                 finish_command (m_event cmd) err_code w1)
           | _ \<Rightarrow> Inl Null_deref)
      | NDRANGE \<Rightarrow>
          (case m_body cmd of
             NDR k wdim goff gsize lsize \<Rightarrow>
               bindr (handle_ndrange_command env k gsize lsize (m_event cmd) w) (\<lambda>w1. Inr (w1, []))
           | _ \<Rightarrow> Inl Null_deref)
      | EMPTY \<Rightarrow> Inr (w, []))"

section \<open>Construction\<close>

text \<open>
  The routes the dispatcher has for its two algorithms, and its constructor, which registers the
  slicing algorithm with the manager of the free schedulers and selects the simple one.
\<close>

(* src/cpp/dispatcher.h:16-20 SchedAlgoType *)
datatype sched_algo_type = ALGO_SLICING | ALGO_SIMPLE

(* src/cpp/dispatcher.cc:10-23 Dispatcher::Dispatcher *)
definition new_Dispatcher ::
  "(nat \<Rightarrow> ptr) \<Rightarrow> nat \<Rightarrow> free_sched_mgr \<Rightarrow> (sched_algo_type \<times> algo_slicing \<times> algo_simple \<times> free_sched_mgr) res" where
  "new_Dispatcher junk num_sched m =
     bindr (new_AlgoSlicing junk 30 2) (\<lambda>sl.
       Inr (ALGO_SIMPLE, sl, new_AlgoSimple num_sched, register_on_free_schedulers_cb m))"

(* src/cpp/dispatcher.cc:25-29 Dispatcher::try_invoke_algo_slicing *)
definition try_invoke_algo_slicing :: "ptr \<Rightarrow> ml_state \<Rightarrow> (RC \<times> ml_state) res" where
  "try_invoke_algo_slicing p w =
     bindr (slicing_route_ndrange p (ml_slicing w)) (\<lambda>(rc, al). Inr (rc, w\<lparr>ml_slicing := al\<rparr>))"

(* src/cpp/dispatcher.cc:31-35 Dispatcher::try_invoke_algo_simple *)
definition try_invoke_algo_simple :: "ml_env \<Rightarrow> ptr \<Rightarrow> ml_state \<Rightarrow> (RC \<times> ml_state) res" where
  "try_invoke_algo_simple env p w =
     bindr (simple_route_ndrange (e_libev env) (e_tracker env) (Some p) (ml_simple w) (ml_sched w))
       (\<lambda>(rc, a, sw). Inr (rc, w\<lparr>ml_simple := a, ml_sched := sw\<rparr>))"

section \<open>Facts about writing and reading\<close>

lemma checked_rc_ok [simp]: "checked_rc (Some p) sz = (if sz < 1 then 1 else 0)" "checked_rc None sz = 1"
  by (simp_all add: checked_rc_def check_read_write_params_def cl_codes)

lemma up_ptr_of [simp]: "up_ptr (ptr_of A) = Some (addr_bytes A)"
  by (simp add: ptr_of_def)

text \<open>The state after a buffer was allocated at \<open>a\<close>, filled with \<open>bs\<close> and given to \<open>mem\<close>.\<close>

definition written :: "ml_state \<Rightarrow> mem \<Rightarrow> ptr \<Rightarrow> cl_mem \<Rightarrow> u64 \<Rightarrow> u64 \<Rightarrow> byte list option \<Rightarrow> ml_state" where
  "written w km p mem a sz bs =
     put_objs ((ml_objs w)\<lparr>o_mems := (o_mems (ml_objs w))
        (p \<mapsto> set_unimem_ptr mem (ptr_of \<lparr>m_kernel_virt_addr = a, m_bus_addr = 13, ua_size = sz\<rparr>) sz)\<rparr>)
       (w\<lparr>ml_uni := (ml_uni w)\<lparr>uw_driver := (uw_driver (ml_uni w))
          \<lparr>s_unidress := \<lparr>m_kernel_virt_addr = a, m_bus_addr = 13, ua_size = sz\<rparr>, s_msg_type := 0,
           d_kmem := (case bs of None \<Rightarrow> km | Some b \<Rightarrow> mem_write km a b)\<rparr>\<rparr>\<rparr>)"

lemma handle_write_ok:
  fixes sz :: u64
  assumes lx: "linux_ok (e_linux env)" and fd: "0 < m_fd (e_unimem env)" and mo: "e_malloc_ok env"
    and vm: "lx_vmalloc (e_linux env) (d_kmem (uw_driver (ml_uni w))) sz = (a, km)" "a \<noteq> 0"
    and sz: "1 \<le> sz" and mem: "o_mems (ml_objs w) p = Some mem"
    and host: "case host of None \<Rightarrow> bs = None
      | Some h \<Rightarrow> mem_read (uw_user (ml_uni w)) h (unat sz) = bs \<and> bs \<noteq> None"
  shows "handle_write_command env (Some p) sz host w = Inr (CL_SUCCESS, written w km p mem a sz bs)"
proof -
  let ?A = "\<lparr>m_kernel_virt_addr = a, m_bus_addr = 13, ua_size = sz\<rparr>"
  have al: "allocate_unimem (e_linux env) (e_malloc_ok env) (e_unimem env) sz (ml_uni w) =
      (ptr_of ?A, (ml_uni w)\<lparr>uw_driver := (uw_driver (ml_uni w))\<lparr>s_unidress := ?A, s_msg_type := 0, d_kmem := km\<rparr>\<rparr>)"
    using allocate_unimem_ok [where mall = True, OF fd vm] mo by simp
  have ns: "\<not> sz < 1" using sz by (simp only: not_less)
  show ?thesis
  proof (cases host)
    case None
    then show ?thesis using al mem host ns
      by (simp add: handle_write_command_def written_def)
  next
    case (Some h)
    then obtain b where b: "bs = Some b" "mem_read (uw_user (ml_uni w)) h (unat sz) = Some b"
      using host by auto
    let ?u1 = "(ml_uni w)\<lparr>uw_driver := (uw_driver (ml_uni w))\<lparr>s_unidress := ?A, s_msg_type := 0, d_kmem := km\<rparr>\<rparr>"
    have "mem_read km a (unat sz) \<noteq> None" by (rule linux_vmalloc(2) [OF lx vm])
    then have cp: "copy_to_unimem (e_linux env) (ptr_of ?A) h sz ?u1 = Inr (True, ?u1\<lparr>uw_driver := (uw_driver ?u1)
        \<lparr>d_kmem := mem_write km a b\<rparr>\<rparr>)"
      using copy_to_unimem_ok [OF lx, of ?u1 h sz b ?A] b by simp
    show ?thesis using al mem ns Some b cp
      by (simp add: handle_write_command_def written_def)
  qed
qed

lemma handle_read_ok:
  fixes sz :: u64
  assumes lx: "linux_ok (e_linux env)" and mem: "o_mems (ml_objs w) p = Some mem"
    and ptr: "m_unimem_ptr mem = ptr_of A" "m_size mem = sz" and sz: "1 \<le> sz"
    and km: "mem_read (d_kmem (uw_driver (ml_uni w))) (m_kernel_virt_addr A) (unat sz) = Some bs"
    and dst: "mem_read (uw_user (ml_uni w)) dst (unat sz) \<noteq> None"
  shows "handle_read_command env (Some p) sz (Some dst) w =
    Inr (CL_SUCCESS, w\<lparr>ml_uni := (ml_uni w)\<lparr>uw_user := mem_write (uw_user (ml_uni w)) dst bs\<rparr>\<rparr>)"
proof -
  have ns: "\<not> sz < 1" using sz by (simp only: not_less)
  show ?thesis using mem ptr ns copy_from_unimem_ok [OF lx km dst]
    by (simp add: handle_read_command_def)
qed

section \<open>Facts about launches\<close>

lemma refs_ok_acquire:
  assumes ok: "refs_ok P h f" and p: "f p = None" and r: "h x = Some r" "P r"
    and c: "m_counter r \<noteq> -1" and P: "\<And>r c. P r \<Longrightarrow> P (r\<lparr>m_counter := c\<rparr>)"
  shows "refs_ok P (h(x \<mapsto> ref_cnt_up r)) (f(p \<mapsto> x))"
proof -
  have le: "card {q. f q = Some x} \<le> unat (m_counter r)"
  proof (cases "{q. f q = Some x} = {}")
    case False
    then obtain q where "f q = Some x" by blast
    then show ?thesis using ok r(1) by (fastforce simp: refs_ok_def)
  qed simp
  have fin: "finite {q. f q = Some y}" for y
    by (rule finite_subset [of _ "dom f"]) (use ok in \<open>auto simp: refs_ok_def\<close>)
  have H: "{q. (f(p \<mapsto> x)) q = Some y} = (if y = x then insert p {q. f q = Some y} else {q. f q = Some y})" for y
    using p by auto
  have up: "unat (m_counter r + 1) = unat (m_counter r) + 1" by (rule unat_index_inc [OF c])
  have "\<exists>r2. (h(x \<mapsto> ref_cnt_up r)) y = Some r2 \<and> P r2 \<and>
      card {q. (f(p \<mapsto> x)) q = Some y} \<le> unat (m_counter r2)"
    if "(f(p \<mapsto> x)) q = Some y" for q y
  proof (cases "y = x")
    case True
    have "card (insert p {q. f q = Some x}) \<le> unat (m_counter r + 1)"
      using le fin [of x] p up by (simp add: card_insert_if)
    then show ?thesis using True r(2) P unfolding H by (simp add: ref_cnt_up_def)
  next
    case False
    then have "f q = Some y" using that by (auto split: if_splits)
    then show ?thesis using ok False unfolding H by (auto simp: refs_ok_def)
  qed
  moreover have "finite (dom (f(p \<mapsto> x)))" using ok by (simp add: refs_ok_def)
  ultimately show ?thesis unfolding refs_ok_def by blast
qed

text \<open>A kernel command that can be routed.\<close>

definition command_ready ::
  "ml_env \<Rightarrow> ptr \<Rightarrow> u64 list \<Rightarrow> u64 list \<Rightarrow> ptr \<Rightarrow> string \<Rightarrow> ml_state \<Rightarrow> bool" where
  "command_ready env kp gsize lsize e name w \<longleftrightarrow>
     (\<exists>k pp prog. o_kernels (ml_objs w) kp = Some k \<and> m_counter k \<noteq> -1 \<and> k_program k = Some pp \<and>
        o_programs (ml_objs w) pp = Some prog \<and> m_xml_name prog = name) \<and>
     (\<exists>ev. o_events (ml_objs w) e = Some ev \<and> m_counter ev \<noteq> -1 \<and> m_cb ev \<noteq> None) \<and>
     lsize ! 0 \<noteq> 0 \<and> ns_ndranges (ss_store (ml_sched w)) (o_next (ml_objs w)) = None \<and>
     (let n = unat (ucast (gsize ! 0 div lsize ! 0) :: u32) in
        0 < n \<and> int n < int_max \<and> prices_ok (e_tracker env) name (ml_sched w) (int n)) \<and>
     algo_wf (ml_simple w) (length (ss_schedulers (ml_sched w))) \<and>
     0 < length (ss_schedulers (ml_sched w)) \<and> length (ss_schedulers (ml_sched w)) \<le> 89 \<and>
     (\<forall>i<length (ss_schedulers (ml_sched w)). length (queues (ml_sched w) ! i) < 100)"

lemma pending_unallocated:
  assumes "launches_inv w" and "ns_ndranges (ss_store w) p = None"
  shows "pending w p = 0"
proof (rule ccontr)
  assume "pending w p \<noteq> 0"
  then have "filter (\<lambda>x. w_parent x = Some p) (concat (queues w)) \<noteq> []" by (auto simp: pending_def)
  then obtain x where x: "x \<in> set (concat (queues w))" "w_parent x = Some p" by (auto simp: filter_empty_conv)
  have "\<forall>x\<in>set (concat (queues w)). \<exists>p. w_parent x = Some p \<and> ns_ndranges (ss_store w) p \<noteq> None"
    using assms(1) unfolding launches_inv_def by blast
  then show False using x assms(2) by fastforce
qed

lemma prices_ok_store: "prices_ok tr name (w\<lparr>ss_store := st\<rparr>) K \<longleftrightarrow> prices_ok tr name w K"
  by (simp add: prices_ok_def price_remaining_def price_reconf_def)

lemma pending_store: "pending (w\<lparr>ss_store := st\<rparr>) p = pending w p"
  by (simp add: pending_def)

text \<open>Routing leaves the objects alone and keeps the event of the launch.\<close>

lemma submit_wgr_store: "submit_wgr lv i x w = Inr w' \<Longrightarrow> ss_store w' = ss_store w"
  by (auto simp: submit_wgr_def bindr_Inr_iff set_sched_def Let_def)

definition same_launches :: "nd_store \<Rightarrow> nd_store \<Rightarrow> bool" where
  "same_launches st st' \<longleftrightarrow> ns_objs st' = ns_objs st \<and>
     (\<forall>r. map_option n_event (ns_ndranges st' r) = map_option n_event (ns_ndranges st r) \<and>
        map_option n_kernel (ns_ndranges st' r) = map_option n_kernel (ns_ndranges st r))"

lemma same_launches_refl [simp]: "same_launches st st"
  and same_launches_trans: "same_launches st st' \<Longrightarrow> same_launches st' st'' \<Longrightarrow> same_launches st st''"
  by (simp_all add: same_launches_def)

lemma same_launchesD:
  assumes "same_launches st st'" and "ns_ndranges st' r = Some nd"
  shows "\<exists>nd0. ns_ndranges st r = Some nd0 \<and> n_event nd = n_event nd0"
proof -
  have "map_option n_event (ns_ndranges st r) = Some (n_event nd)"
    using assms unfolding same_launches_def by (metis option.simps(9))
  then show ?thesis by auto
qed

lemma carve_at_store: "carve_at st p n = Inr (x, st') \<Longrightarrow> same_launches st st'"
  by (auto simp: same_launches_def carve_at_def carve_wgs_def Let_def bindr_Inr_iff deref_Inr_iff)

lemma carve_island_store:
  "carve_island lv p a i w = Inr w' \<Longrightarrow> same_launches (ss_store w) (ss_store w')"
  by (auto simp: carve_island_def bindr_Inr_iff dest!: submit_wgr_store carve_at_store split: if_splits)

lemma carve_islands_store:
  "foldr_res (carve_island lv p a) is w = Inr w' \<Longrightarrow> same_launches (ss_store w) (ss_store w')"
proof (induction "is" arbitrary: w)
  case (Cons i "is")
  then obtain w1 where "carve_island lv p a i w = Inr w1" "foldr_res (carve_island lv p a) is w1 = Inr w'"
    by (auto simp: bindr_Inr_iff)
  then show ?case using carve_island_store Cons.IH same_launches_trans by blast
qed simp

lemma simple_route_store:
  "simple_route_ndrange lv tr (Some p) a w = Inr (rc, a', w') \<Longrightarrow> same_launches (ss_store w) (ss_store w')"
  unfolding simple_route_ndrange_def option.case bindr_Inr_iff
  by (auto simp: bindr_Inr_iff dest!: carve_islands_store split: if_splits)

lemma handle_ndrange_ok:
  assumes lv: "libev_ok (e_libev env)" and inv: "sched_inv (ml_sched w)" and linv: "launches_inv (ml_sched w)"
    and ready: "command_ready env kp gsize lsize e name w"
  shows "\<exists>w' nd. handle_ndrange_command env (Some kp) gsize lsize (Some e) w = Inr w' \<and>
    sched_inv (ml_sched w') \<and> launches_inv (ml_sched w') \<and>
    ns_ndranges (ss_store (ml_sched w')) (o_next (ml_objs w)) = Some nd \<and> n_event nd = e \<and>
    o_events (ml_objs w') = (o_events (ml_objs w))(e := map_option ref_cnt_up (o_events (ml_objs w) e)) \<and>
    o_kernels (ml_objs w') = (o_kernels (ml_objs w))(kp := map_option ref_cnt_up (o_kernels (ml_objs w) kp)) \<and>
    o_programs (ml_objs w') = o_programs (ml_objs w) \<and>
    (\<forall>r. r \<noteq> o_next (ml_objs w) \<longrightarrow> map_option n_event (ns_ndranges (ss_store (ml_sched w')) r) =
       map_option n_event (ns_ndranges (ss_store (ml_sched w)) r) \<and>
       map_option n_kernel (ns_ndranges (ss_store (ml_sched w')) r) =
       map_option n_kernel (ns_ndranges (ss_store (ml_sched w)) r)) \<and>
    n_kernel nd = kp \<and> 0 < pending (ml_sched w') (o_next (ml_objs w)) \<and>
    length (ss_schedulers (ml_sched w')) = length (ss_schedulers (ml_sched w))"
proof -
  let ?sw = "ml_sched w" and ?p = "o_next (ml_objs w)"
  define n :: u32 where "n = ucast (gsize ! 0 div lsize ! 0)"
  obtain k pp prog where k: "o_kernels (ml_objs w) kp = Some k" "m_counter k \<noteq> -1" "k_program k = Some pp"
      "o_programs (ml_objs w) pp = Some prog" "m_xml_name prog = name"
    using ready unfolding command_ready_def by blast
  obtain ev where ev: "o_events (ml_objs w) e = Some ev" "m_counter ev \<noteq> -1" "m_cb ev \<noteq> None"
    using ready unfolding command_ready_def by blast
  have ls: "lsize ! 0 \<noteq> 0" and free: "ns_ndranges (ss_store ?sw) ?p = None"
    and n: "0 < unat n" "int (unat n) < int_max" "prices_ok (e_tracker env) name ?sw (int (unat n))"
    and aw: "algo_wf (ml_simple w) (length (ss_schedulers ?sw))"
    and l: "0 < length (ss_schedulers ?sw)" "length (ss_schedulers ?sw) \<le> 89"
    and room: "\<forall>i<length (ss_schedulers ?sw). length (queues ?sw ! i) < 100"
    using ready unfolding command_ready_def n_def Let_def by blast+
  define s1 where "s1 = snd (fresh (ml_objs w))"
  define s2 where "s2 = s1\<lparr>o_kernels := (o_kernels (ml_objs w))(kp \<mapsto> ref_cnt_up k),
      o_events := (o_events (ml_objs w))(e \<mapsto> ref_cnt_up ev)\<rparr>"
  define rs where "rs = snd (get_resource_string (e_bits env) (m_xml_name prog) [])"
  have s1: "o_kernels s1 = o_kernels (ml_objs w)" "o_events s1 = o_events (ml_objs w)"
    "o_programs s1 = o_programs (ml_objs w)" by (simp_all add: s1_def fresh_def)
  define nd where "nd = \<lparr>n_kernel = kp, n_event = e, n_resource_string = rs, n_size_x = n, n_size_y = 1,
      n_size_z = 1, n_next_wgr = 0, n_total_size = n, n_wgrs_in_the_wild = 0,
      n_dimensions = (if n > 1 then 1 else 0)\<rparr>"
  have new: "new_NDRange kp e rs n 1 1 s1 = Inr (Inr nd, s2)"
    using k(1) ev(1) by (simp add: new_NDRange_def kernel_up_def event_up_def heap_up_def s1 nd_def s2_def Let_def)
  let ?st = "(ss_store ?sw)\<lparr>ns_objs := s2, ns_ndranges := (ns_ndranges (ss_store ?sw))(?p \<mapsto> nd)\<rparr>"
  let ?sw1 = "?sw\<lparr>ss_store := ?st\<rparr>"
  have inv1: "sched_inv ?sw1" using inv by simp
  have kh: "kernels_held ?st = (kernels_held (ss_store ?sw))(?p \<mapsto> kp)"
    and eh: "events_held ?st = (events_held (ss_store ?sw))(?p \<mapsto> e)"
    by (auto simp: kernels_held_def events_held_def nd_def)
  have kn: "kernels_held (ss_store ?sw) ?p = None" and en: "events_held (ss_store ?sw) ?p = None"
    using free by (simp_all add: kernels_held_def events_held_def)
  have hp: "has_program s2 = has_program (ml_objs w)" by (simp add: has_program_def s2_def s1 fun_eq_iff)
  have kp: "has_program (ml_objs w) k" using k(3,4) by (simp add: has_program_def)
  have rk: "refs_ok (has_program (ns_objs ?st)) (o_kernels (ns_objs ?st)) (kernels_held ?st)"
    unfolding kh using refs_ok_acquire [where P = "has_program (ml_objs w)" and f = "kernels_held (ss_store ?sw)" and
      p = ?p and h = "o_kernels (ml_objs w)" and x = kp, OF _ kn k(1) kp k(2)] linv
    by (simp add: launches_inv_def hp) (simp add: s2_def)
  have re: "refs_ok (\<lambda>e. m_cb e \<noteq> None) (o_events (ns_objs ?st)) (events_held ?st)"
    unfolding eh using refs_ok_acquire [where P = "\<lambda>e. m_cb e \<noteq> None" and f = "events_held (ss_store ?sw)" and
      p = ?p and h = "o_events (ml_objs w)" and x = e, OF _ en ev(1) ev(3) ev(2)] linv
    by (simp add: launches_inv_def s2_def)
  have p0: "pending ?sw ?p = 0" by (rule pending_unallocated [OF linv free])
  have linv1: "launches_inv ?sw1"
    unfolding launches_inv_def
  proof (intro conjI ballI allI impI)
    fix x assume "x \<in> set (concat (queues ?sw1))"
    then obtain r where "w_parent x = Some r" "ns_ndranges (ss_store ?sw) r \<noteq> None"
      using linv unfolding launches_inv_def queues_store by blast
    then show "\<exists>r. w_parent x = Some r \<and> ns_ndranges (ss_store ?sw1) r \<noteq> None" by auto
  next
    fix r nd' assume h: "ns_ndranges (ss_store ?sw1) r = Some nd'"
    have "n_wgrs_in_the_wild nd' = of_nat (pending ?sw r) \<and> pending ?sw r < 2 ^ 32"
    proof (cases "r = ?p")
      case True
      then show ?thesis using h p0 by (auto simp: nd_def)
    next
      case False
      then have "ns_ndranges (ss_store ?sw) r = Some nd'" using h by simp
      then show ?thesis using linv unfolding launches_inv_def by blast
    qed
    then show "n_wgrs_in_the_wild nd' = of_nat (pending ?sw1 r)" "pending ?sw1 r < 2 ^ 32"
      unfolding pending_store by blast+
  next
    show "refs_ok (has_program (ns_objs (ss_store ?sw1))) (o_kernels (ns_objs (ss_store ?sw1))) (kernels_held (ss_store ?sw1))"
      using rk by simp
    show "refs_ok (\<lambda>e. m_cb e \<noteq> None) (o_events (ns_objs (ss_store ?sw1))) (events_held (ss_store ?sw1))"
      using re by simp
  qed
  have name: "nd_get_kernel_name s2 nd = Inr name"
    using k by (simp add: nd_get_kernel_name_def nd_def s2_def ref_cnt_up_def s1)
  have lr: "launch_ready (e_tracker env) (ml_simple w) ?sw1 ?p nd name"
    unfolding launch_ready_def using name n aw l room p0
    by (simp add: prices_ok_store pending_store) (simp add: nd_def)
  obtain a' sw' where r: "simple_route_ndrange (e_libev env) (e_tracker env) (Some ?p) (ml_simple w) ?sw1 =
      Inr (ML_SUCCESS, a', sw')" "sched_inv sw'" "launches_inv sw'" "0 < pending sw' ?p"
      "length (ss_schedulers sw') = length (ss_schedulers ?sw1)"
    using routed_ok [OF lv inv1 linv1 lr] by (elim exE conjE) (rule that)
  have h: "handle_ndrange_command env (Some kp) gsize lsize (Some e) w = Inr (w\<lparr>ml_simple := a', ml_sched := sw'\<rparr>)"
    using k ls new r(1)
    by (simp add: handle_ndrange_command_def fresh_def Let_def split_beta s1_def rs_def n_def)
  have sl: "same_launches (ss_store ?sw1) (ss_store sw')" by (rule simple_route_store [OF r(1)])
  have "map_option n_event (ns_ndranges (ss_store sw') ?p) = Some (n_event nd)"
    using sl by (simp add: same_launches_def)
  then obtain nd' where nd': "ns_ndranges (ss_store sw') ?p = Some nd'" "n_event nd' = n_event nd"
    by auto
  have "map_option n_kernel (ns_ndranges (ss_store sw') ?p) = Some (n_kernel nd)"
    using sl by (simp add: same_launches_def)
  then have nk: "n_kernel nd' = kp" using nd'(1) by (simp add: nd_def)
  have others: "map_option n_event (ns_ndranges (ss_store sw') r) = map_option n_event (ns_ndranges (ss_store ?sw) r) \<and>
      map_option n_kernel (ns_ndranges (ss_store sw') r) = map_option n_kernel (ns_ndranges (ss_store ?sw) r)"
    if "r \<noteq> ?p" for r
    using sl that by (simp add: same_launches_def)
  have os: "ns_objs (ss_store sw') = ns_objs (ss_store ?sw1)" using sl by (simp add: same_launches_def)
  have "n_event nd' = e" using nd'(2) by (simp add: nd_def)
  moreover have "o_events (ns_objs (ss_store sw')) = (o_events (ml_objs w))(e := map_option ref_cnt_up (o_events (ml_objs w) e))"
    "o_kernels (ns_objs (ss_store sw')) = (o_kernels (ml_objs w))(kp := map_option ref_cnt_up (o_kernels (ml_objs w) kp))"
    "o_programs (ns_objs (ss_store sw')) = o_programs (ml_objs w)"
    using os ev(1) k(1) s1(3) by (simp_all add: s2_def)
  ultimately show ?thesis using h r(2-5) nd'(1) nk others by simp
qed


section \<open>Facts about the events of launches\<close>

text \<open>An event that is complete, or was and has been deleted since.\<close>

definition event_done :: "nd_store \<Rightarrow> ptr \<Rightarrow> bool" where
  "event_done st e \<longleftrightarrow>
     (case o_events (ns_objs st) e of None \<Rightarrow> True | Some ev \<Rightarrow> m_event_state ev = CL_COMPLETE)"

lemma ref_cnt_down_state:
  "ref_cnt_down e = Some e' \<Longrightarrow> m_event_state e' = m_event_state (e :: cl_event)"
  by (auto simp: ref_cnt_down_def Let_def split: if_splits)

lemma delete_NDRange_done:
  assumes "delete_NDRange nd s = Inr s'" and "o_events s e = Some ev" and "m_event_state ev = CL_COMPLETE"
  shows "case o_events s' e of None \<Rightarrow> True | Some ev \<Rightarrow> m_event_state ev = CL_COMPLETE"
  using assms
  by (auto simp: delete_NDRange_def kernel_down_def event_down_def heap_down_def bindr_Inr_iff deref_Inr_iff
      dest!: ref_cnt_down_state split: option.splits if_splits)

lemma decrement_done:
  assumes d: "decrement_wgrs_counter st p = Inr (st', cbs)" and nd: "ns_ndranges st p = Some nd"
  shows "event_done st e \<Longrightarrow> event_done st' e"
    and "ns_ndranges st' p = None \<longleftrightarrow> n_wgrs_in_the_wild nd = 1"
    and "ns_ndranges st' p = None \<Longrightarrow> event_done st' (n_event nd)"
    and "ns_ndranges st' p = Some nd' \<Longrightarrow> n_event nd' = n_event nd"
    and "r \<noteq> p \<Longrightarrow> ns_ndranges st' r = ns_ndranges st r"
proof -
  show "ns_ndranges st' p = None \<longleftrightarrow> n_wgrs_in_the_wild nd = 1"
    and "ns_ndranges st' p = Some nd' \<Longrightarrow> n_event nd' = n_event nd"
    and "r \<noteq> p \<Longrightarrow> ns_ndranges st' r = ns_ndranges st r"
    using d nd by (auto simp: decrement_wgrs_counter_def bindr_Inr_iff Let_def split: if_splits)
  have "event_done st' e" if h: "event_done st e \<or> n_wgrs_in_the_wild nd = 1 \<and> e = n_event nd" for e
  proof (cases "n_wgrs_in_the_wild nd = 1")
    case False
    then show ?thesis using d nd h
      by (auto simp: decrement_wgrs_counter_def bindr_Inr_iff Let_def event_done_def split: if_splits)
  next
    case True
    then obtain s1 cb s2 where s: "complete_event (ns_objs st) (n_event nd) = Inr (s1, cb)"
        "delete_NDRange (nd\<lparr>n_wgrs_in_the_wild := 0\<rparr>) s1 = Inr s2" "ns_objs st' = s2"
      using d nd by (auto simp: decrement_wgrs_counter_def bindr_Inr_iff Let_def)
    show ?thesis
    proof (cases "o_events s1 e")
      case None
      then have "o_events s2 e = None"
        using s(2) by (auto simp: delete_NDRange_def kernel_down_def event_down_def heap_down_def
            bindr_Inr_iff deref_Inr_iff split: if_splits)
      then show ?thesis using s(3) by (simp add: event_done_def)
    next
      case (Some ev)
      have "m_event_state ev = CL_COMPLETE"
        using s(1) h Some
        by (auto simp: complete_event_def bindr_Inr_iff deref_Inr_iff set_as_complete_def event_done_def
            split: option.splits if_splits)
      then show ?thesis using delete_NDRange_done [OF s(2) Some] s(3) by (simp add: event_done_def)
    qed
  qed
  then show "event_done st e \<Longrightarrow> event_done st' e"
    and "ns_ndranges st' p = None \<Longrightarrow> event_done st' (n_event nd)"
    using \<open>ns_ndranges st' p = None \<longleftrightarrow> n_wgrs_in_the_wild nd = 1\<close> by blast+
qed

lemma fire_marks_store:
  assumes "fire_scheduler lv i w = Inr (w', cbs)"
  shows "\<exists>x. mark_as_finished (ss_store w) x = Inr (ss_store w', cbs)"
  using assms
  by (auto simp: fire_scheduler_def on_timer_def bindr_Inr_iff set_sched_def Let_def split: if_splits)

lemma fire_decrements:
  assumes "fire_scheduler lv i w = Inr (w', cbs)"
  shows "\<exists>p nd. decrement_wgrs_counter (ss_store w) p = Inr (ss_store w', cbs) \<and>
    ns_ndranges (ss_store w) p = Some nd"
proof -
  obtain x where x: "mark_as_finished (ss_store w) x = Inr (ss_store w', cbs)"
    using fire_marks_store [OF assms] by blast
  then obtain p where "decrement_wgrs_counter (ss_store w) p = Inr (ss_store w', cbs)"
    by (auto simp: mark_as_finished_def split: option.splits)
  moreover from this obtain nd where "ns_ndranges (ss_store w) p = Some nd"
    unfolding decrement_wgrs_counter_def bindr_Inr_iff deref_Inr_iff by blast
  ultimately show ?thesis by blast
qed

lemma fire_done:
  assumes "fire_scheduler lv i w = Inr (w', cbs)"
  shows "event_done (ss_store w) e \<Longrightarrow> event_done (ss_store w') e"
    and "ns_ndranges (ss_store w) r = Some nd \<Longrightarrow> n_event nd = e \<Longrightarrow>
      event_done (ss_store w') e \<or> (\<exists>nd'. ns_ndranges (ss_store w') r = Some nd' \<and> n_event nd' = e)"
proof -
  obtain p ndp where p: "decrement_wgrs_counter (ss_store w) p = Inr (ss_store w', cbs)"
      "ns_ndranges (ss_store w) p = Some ndp" using fire_decrements [OF assms] by blast
  note d = decrement_done [OF p]
  show "event_done (ss_store w) e \<Longrightarrow> event_done (ss_store w') e" by (rule d(1))
  show "event_done (ss_store w') e \<or> (\<exists>nd'. ns_ndranges (ss_store w') r = Some nd' \<and> n_event nd' = e)"
    if "ns_ndranges (ss_store w) r = Some nd" "n_event nd = e"
  proof (cases "r = p")
    case True
    then have nd: "nd = ndp" using that(1) p(2) by simp
    show ?thesis
    proof (cases "ns_ndranges (ss_store w') p")
      case None
      then show ?thesis using d(3) nd that(2) by blast
    next
      case (Some nd')
      then show ?thesis using d(4) nd that(2) True by blast
    qed
  next
    case False
    then show ?thesis using d(5) that by simp
  qed
qed

lemma run_fires_done:
  assumes "run_fires lv is w = Some (w', cbs)"
    and "event_done (ss_store w) e \<or> (\<exists>nd. ns_ndranges (ss_store w) r = Some nd \<and> n_event nd = e)"
  shows "event_done (ss_store w') e \<or> (\<exists>nd. ns_ndranges (ss_store w') r = Some nd \<and> n_event nd = e)"
  using assms
proof (induction "is" arbitrary: w cbs)
  case (Cons i "is")
  then obtain w1 c1 c2 where r: "fire_scheduler lv i w = Inr (w1, c1)" "run_fires lv is w1 = Some (w', c2)"
    by (auto simp: run_fires_Cons)
  have "event_done (ss_store w1) e \<or> (\<exists>nd. ns_ndranges (ss_store w1) r = Some nd \<and> n_event nd = e)"
    using Cons.prems(2) fire_done [OF r(1)] by blast
  then show ?case by (rule Cons.IH [OF r(2)])
qed simp

text \<open>An event that somebody holds besides the launches: it outlives them.\<close>

definition kept :: "nd_store \<Rightarrow> ptr \<Rightarrow> bool" where
  "kept st e \<longleftrightarrow> finite (dom (events_held st)) \<and>
     (\<exists>ev. o_events (ns_objs st) e = Some ev \<and> card {p. events_held st p = Some e} < unat (m_counter ev))"

lemma kept_done: "kept st e \<Longrightarrow> event_done st e \<Longrightarrow> \<exists>ev. o_events (ns_objs st) e = Some ev \<and> m_event_state ev = CL_COMPLETE"
  by (auto simp: kept_def event_done_def)

lemma decrement_kept:
  assumes d: "decrement_wgrs_counter st p = Inr (st', cbs)" and k: "kept st e"
  shows "kept st' e"
proof -
  obtain nd where nd: "ns_ndranges st p = Some nd"
    using d by (auto simp: decrement_wgrs_counter_def bindr_Inr_iff deref_Inr_iff)
  obtain ev where ev: "o_events (ns_objs st) e = Some ev" "card {p. events_held st p = Some e} < unat (m_counter ev)"
    and fin: "finite (dom (events_held st))" using k by (auto simp: kept_def)
  have finE: "finite {q. events_held st q = Some e}" by (rule finite_subset [OF _ fin]) auto
  show ?thesis
  proof (cases "n_wgrs_in_the_wild nd = 1")
    case False
    then have s: "ns_objs st' = ns_objs st" "events_held st' = events_held st"
      using d nd by (auto simp: decrement_wgrs_counter_def Let_def events_held_def fun_eq_iff)
    show ?thesis using k unfolding kept_def s .
  next
    case True
    then obtain s1 cb s2 where s: "complete_event (ns_objs st) (n_event nd) = Inr (s1, cb)"
        "delete_NDRange (nd\<lparr>n_wgrs_in_the_wild := 0\<rparr>) s1 = Inr s2" "ns_objs st' = s2"
        "ns_ndranges st' = (ns_ndranges st)(p := None)"
      using d nd by (auto simp: decrement_wgrs_counter_def bindr_Inr_iff Let_def)
    have E: "events_held st' = (events_held st)(p := None)" using s(4) by (auto simp: events_held_def fun_eq_iff)
    have f': "finite (dom (events_held st'))" unfolding E using fin by simp
    have H: "{q. events_held st' q = Some e} = {q. events_held st q = Some e} - {p}" unfolding E by auto
    obtain ev1 where ev1: "o_events s1 e = Some ev1" "m_counter ev1 = m_counter ev"
      using s(1) ev(1) by (cases "e = n_event nd")
        (auto simp: complete_event_def bindr_Inr_iff deref_Inr_iff set_as_complete_def split: option.splits if_splits)
    obtain h where h: "event_down (s1\<lparr>o_kernels := h\<rparr>) (n_event nd) = Inr s2"
      using s(2) by (auto simp: delete_NDRange_def bindr_Inr_iff kernel_down_def)
    show ?thesis
    proof (cases "e = n_event nd")
      case False
      then have "o_events s2 e = Some ev1"
        using h ev1(1) by (auto simp: event_down_def heap_down_def bindr_Inr_iff deref_Inr_iff)
      moreover have "card {q. events_held st' q = Some e} \<le> card {q. events_held st q = Some e}"
        unfolding H by (rule card_mono [OF finE]) auto
      ultimately show ?thesis unfolding kept_def s(3) using f' ev1(2) ev(2) by auto
    next
      case True
      have mem: "p \<in> {q. events_held st q = Some e}" using nd True by (simp add: events_held_def)
      then have c: "card {q. events_held st' q = Some e} = card {q. events_held st q = Some e} - 1"
        "0 < card {q. events_held st q = Some e}"
        unfolding H using finE by (auto simp: card_gt_0_iff)
      have u: "1 < unat (m_counter ev1)" using c(2) ev(2) ev1(2) by simp
      then have n: "m_counter ev1 \<noteq> 0" "m_counter ev1 \<noteq> 1" by auto
      have "o_events s2 e = Some (ev1\<lparr>m_counter := m_counter ev1 - 1\<rparr>)"
        using h ev1(1) True ref_cnt_down_more [OF n]
        by (auto simp: event_down_def heap_down_def bindr_Inr_iff deref_Inr_iff)
      moreover have "unat (m_counter ev1 - 1) = unat (m_counter ev1) - 1" using n(1) by (simp add: unat_dec)
      ultimately show ?thesis unfolding kept_def s(3) using f' c ev(2) ev1(2) by auto
    qed
  qed
qed

lemma run_fires_kept:
  "run_fires lv is w = Some (w', cbs) \<Longrightarrow> kept (ss_store w) e \<Longrightarrow> kept (ss_store w') e"
proof (induction "is" arbitrary: w cbs)
  case (Cons i "is")
  obtain w1 c1 c2 where r: "fire_scheduler lv i w = Inr (w1, c1)" "run_fires lv is w1 = Some (w', c2)"
    using Cons.prems(1) by (auto simp: run_fires_Cons)
  then show ?case using fire_decrements [OF r(1)] decrement_kept Cons.IH [OF r(2)] Cons.prems(2) by blast
qed simp

section \<open>Examples\<close>

definition demo_ml_env :: ml_env where
  "demo_ml_env = \<lparr>e_libev = demo_libev, e_linux = demo_linux, e_tracker = demo_tracker,
     e_bits = \<lparr>m_kernel_bitstream_struct_map = [], m_kernel_mmap_ptr_map = [], m_working_dir_path = [],
       m_enabled_mmap = False, m_xml_files_list = []\<rparr>,
     e_unimem = \<lparr>m_fd = 3\<rparr>, e_malloc_ok = True\<rparr>"

definition demo_ml :: "sched_state \<Rightarrow> ml_state" where
  "demo_ml sw = \<lparr>ml_sched = sw, ml_simple = new_AlgoSimple 2, ml_slicing = demo_ring [], ml_uni = demo_uw\<rparr>"

lemma demo_ml_env_simps [simp]:
  "e_libev demo_ml_env = demo_libev" "e_linux demo_ml_env = demo_linux" "e_tracker demo_ml_env = demo_tracker"
  "e_malloc_ok demo_ml_env" "m_fd (e_unimem demo_ml_env) = 3"
  by (simp_all add: demo_ml_env_def)

lemma demo_ml_simps [simp]:
  "ml_sched (demo_ml sw) = sw" "ml_simple (demo_ml sw) = new_AlgoSimple 2"
  "ml_slicing (demo_ml sw) = demo_ring []" "ml_uni (demo_ml sw) = demo_uw"
  by (simp_all add: demo_ml_def)

lemma demo_uw_simps [simp]: "d_kmem (uw_driver demo_uw) = Map.empty" "uw_user demo_uw = demo_user"
  by (simp_all add: demo_uw_def driver_init_def)

definition demo_mem_ml :: ml_state where
  "demo_mem_ml = put_objs ((ml_objs (demo_ml demo_slicing))\<lparr>o_mems := [5 \<mapsto> new_cl_mem]\<rparr>) (demo_ml demo_slicing)"

lemma demo_command_ready:
  "\<exists>w. sched_inv (ml_sched w) \<and> launches_inv (ml_sched w) \<and>
    command_ready demo_ml_env 0 [10, 1, 1] [2, 0, 0] 1 ''k.xml'' w \<and> o_next (ml_objs w) = 2 \<and>
    length (ss_schedulers (ml_sched w)) = 2"
proof -
  have f: "n_wgrs_in_the_wild demo_nd = 0" "n_kernel demo_nd = 0" "n_event demo_nd = 1"
    by (simp_all add: demo_nd_def)
  have K: "(0::int) \<le> 5" "(5::int) \<le> 5" by simp_all
  obtain sw where w: "sched_inv sw" "launches_inv sw" "ss_store sw = demo_launch demo_nd" "queues sw = [[], []]"
      "length (ss_schedulers sw) = 2" "pending sw 7 = 0" "prices_ok demo_tracker ''k.xml'' sw 5"
    using demo_launch_start [OF f K] by (elim exE conjE) (rule that)
  have "command_ready demo_ml_env 0 [10, 1, 1] [2, 0, 0] 1 ''k.xml'' (demo_ml sw)"
    using w(7) new_AlgoSimple_wf [of 2]
    by (simp add: command_ready_def w(3-5) demo_launch_def demo_objs_def
        new_cl_kernel_def new_cl_event_def less_2_cases_iff Let_def)
  then show ?thesis using w
    by (intro exI [of _ "demo_ml sw"]) (simp add: demo_launch_def demo_objs_def)
qed

section \<open>Properties\<close>

text \<open>What a write command puts into a memory object is what a read command of the same size
  delivers: both commands succeed and the reader's buffer ends up with the bytes of the writer's.\<close>
theorem write_then_read_command:
  fixes sz :: u64
  assumes "linux_ok (e_linux env)" and "0 < m_fd (e_unimem env)" and "e_malloc_ok env"
    and "lx_vmalloc (e_linux env) (d_kmem (uw_driver (ml_uni w))) sz = (a, km)" and "a \<noteq> 0"
    and "1 \<le> sz" and "o_mems (ml_objs w) p = Some mem"
    and "mem_read (uw_user (ml_uni w)) src (unat sz) = Some bs"
    and "mem_read (uw_user (ml_uni w)) dst (unat sz) \<noteq> None"
  shows "\<exists>w1 w2. handle_write_command env (Some p) sz (Some src) w = Inr (CL_SUCCESS, w1) \<and>
    handle_read_command env (Some p) sz (Some dst) w1 = Inr (CL_SUCCESS, w2) \<and>
    mem_read (uw_user (ml_uni w2)) dst (unat sz) = Some bs"
proof -
  let ?A = "\<lparr>m_kernel_virt_addr = a, m_bus_addr = 13, ua_size = sz\<rparr>"
  let ?w1 = "written w km p mem a sz (Some bs)"
  have w1: "handle_write_command env (Some p) sz (Some src) w = Inr (CL_SUCCESS, ?w1)"
    using handle_write_ok [OF assms(1-7), where host = "Some src" and bs = "Some bs"] assms(8) by simp
  have l: "length bs = unat sz" by (rule mem_read_length [OF assms(8)])
  have "mem_read (mem_write km a bs) a (unat sz) = Some bs"
    using mem_read_write_same [of bs km a] mem_read_bound [of sz] l by simp
  then have km: "mem_read (d_kmem (uw_driver (ml_uni ?w1))) (m_kernel_virt_addr ?A) (unat sz) = Some bs"
    by (simp add: written_def)
  have mem: "o_mems (ml_objs ?w1) p = Some (set_unimem_ptr mem (ptr_of ?A) sz)"
    by (simp add: written_def)
  have dst: "mem_read (uw_user (ml_uni ?w1)) dst (unat sz) \<noteq> None"
    using assms(9) by (simp add: written_def)
  have "handle_read_command env (Some p) sz (Some dst) ?w1 =
      Inr (CL_SUCCESS, ?w1\<lparr>ml_uni := (ml_uni ?w1)\<lparr>uw_user := mem_write (uw_user (ml_uni ?w1)) dst bs\<rparr>\<rparr>)"
    by (rule handle_read_ok [OF assms(1) mem _ _ assms(6) km dst]) (simp_all add: set_unimem_ptr_def)
  moreover have "mem_read (mem_write (uw_user (ml_uni ?w1)) dst bs) dst (unat sz) = Some bs"
    using mem_read_write_same [of bs] mem_read_bound [of sz] l by simp
  ultimately show ?thesis using w1 by fastforce
qed

theorem write_then_read_command_witness:
  "\<exists>w1 w2. handle_write_command demo_ml_env (Some 5) 3 (Some 100) demo_mem_ml = Inr (CL_SUCCESS, w1) \<and>
    handle_read_command demo_ml_env (Some 5) 3 (Some 200) w1 = Inr (CL_SUCCESS, w2) \<and>
    mem_read (uw_user (ml_uni w2)) 200 3 = Some [1, 2, 3]"
  using write_then_read_command [of demo_ml_env demo_mem_ml 3 4096 "mem_write Map.empty 4096 (replicate 3 0)"
      5 new_cl_mem 100 "[1, 2, 3]" 200]
  by (simp add: demo_mem_ml_def demo_linux_ok demo_vmalloc demo_user_reads)

text \<open>C28: Commands the dispatcher must refuse leave the state alone and report an error: a null memory
  object or a zero size gives the code 1, because the comparison with \<open>CL_SUCCESS\<close> is what is stored
  and not the OpenCL code of the check; an object nothing was written to, a null host pointer and a
  size other than the one written give the OpenCL codes.\<close>
theorem commands_refused:
  "(mem = None \<or> sz = 0 \<longrightarrow> handle_write_command env mem sz host w = Inr (1, w) \<and>
     handle_read_command env mem sz host w = Inr (1, w) \<and>
     check_read_write_params mem sz \<in> {CL_INVALID_MEM_OBJECT, CL_INVALID_VALUE} - {1}) \<and>
   (1 \<le> sz \<and> mem = Some p \<and> o_mems (ml_objs w) p = Some m \<and>
     (up_ptr (m_unimem_ptr m) = None \<or> host = None \<or> sz \<noteq> m_size m) \<longrightarrow>
     handle_read_command env mem sz host w =
       Inr (if up_ptr (m_unimem_ptr m) = None then CL_INVALID_MEM_OBJECT else CL_INVALID_VALUE, w))"
proof (rule conjI)
  show "mem = None \<or> sz = 0 \<longrightarrow> handle_write_command env mem sz host w = Inr (1, w) \<and>
     handle_read_command env mem sz host w = Inr (1, w) \<and>
     check_read_write_params mem sz \<in> {CL_INVALID_MEM_OBJECT, CL_INVALID_VALUE} - {1}"
    by (auto simp: handle_write_command_def handle_read_command_def checked_rc_def check_read_write_params_def cl_codes)
  show "1 \<le> sz \<and> mem = Some p \<and> o_mems (ml_objs w) p = Some m \<and>
     (up_ptr (m_unimem_ptr m) = None \<or> host = None \<or> sz \<noteq> m_size m) \<longrightarrow>
     handle_read_command env mem sz host w =
       Inr (if up_ptr (m_unimem_ptr m) = None then CL_INVALID_MEM_OBJECT else CL_INVALID_VALUE, w)"
  proof (intro impI, elim conjE)
    assume h: "1 \<le> sz" "mem = Some p" "o_mems (ml_objs w) p = Some m"
      "up_ptr (m_unimem_ptr m) = None \<or> host = None \<or> sz \<noteq> m_size m"
    have "\<not> sz < 1" using h(1) by (simp only: not_less)
    then show "handle_read_command env mem sz host w =
       Inr (if up_ptr (m_unimem_ptr m) = None then CL_INVALID_MEM_OBJECT else CL_INVALID_VALUE, w)"
      using h(2-4) by (auto simp: handle_read_command_def split: option.splits)
  qed
qed

theorem commands_refused_witness:
  "handle_write_command demo_ml_env None 3 (Some 100) demo_mem_ml = Inr (1, demo_mem_ml) \<and>
   handle_read_command demo_ml_env (Some 5) 3 (Some 200) demo_mem_ml = Inr (CL_INVALID_MEM_OBJECT, demo_mem_ml)"
  using commands_refused [of None 3 demo_ml_env "Some 100" demo_mem_ml]
    commands_refused [of "Some 5" 3 demo_ml_env "Some 200" demo_mem_ml 5 new_cl_mem]
  by (simp add: demo_mem_ml_def new_cl_mem_def empty_unimem_ptr_def)

text \<open>A kernel command that is ready to be routed completes its event: the handler succeeds with the
  launch queued, and when every scheduler has fired once for each range in its queue, in whatever
  order, nothing is queued, the launch's index space is deleted, and the event is complete or has
  been deleted by its last holder.\<close>
theorem kernel_command_completes:
  assumes "libev_ok (e_libev env)" and "sched_inv (ml_sched w)" and "launches_inv (ml_sched w)"
    and "command_ready env kp gsize lsize e name w"
  shows "\<exists>w'. handle_ndrange_command env (Some kp) gsize lsize (Some e) w = Inr w' \<and>
    ns_ndranges (ss_store (ml_sched w')) (o_next (ml_objs w)) \<noteq> None \<and>
    (\<forall>is. set is \<subseteq> {..<length (ss_schedulers (ml_sched w))} \<and>
       (\<forall>i<length (ss_schedulers (ml_sched w)). count_list is i = length (queues (ml_sched w') ! i)) \<longrightarrow>
       (\<exists>s cbs. run_fires (e_libev env) is (ml_sched w') = Some (s, cbs) \<and> concat (queues s) = [] \<and>
          ns_ndranges (ss_store s) (o_next (ml_objs w)) = None \<and> event_done (ss_store s) e))"
proof -
  let ?p = "o_next (ml_objs w)"
  obtain w' nd where r: "handle_ndrange_command env (Some kp) gsize lsize (Some e) w = Inr w'"
      "sched_inv (ml_sched w')" "launches_inv (ml_sched w')"
      "ns_ndranges (ss_store (ml_sched w')) ?p = Some nd" "n_event nd = e" "0 < pending (ml_sched w') ?p"
      "length (ss_schedulers (ml_sched w')) = length (ss_schedulers (ml_sched w))"
    using handle_ndrange_ok [OF assms] by (elim exE conjE) (rule that)
  have "\<exists>s cbs. run_fires (e_libev env) is (ml_sched w') = Some (s, cbs) \<and> concat (queues s) = [] \<and>
      ns_ndranges (ss_store s) ?p = None \<and> event_done (ss_store s) e"
    if h: "set is \<subseteq> {..<length (ss_schedulers (ml_sched w))}"
      "\<forall>i<length (ss_schedulers (ml_sched w)). count_list is i = length (queues (ml_sched w') ! i)" for "is"
  proof -
    have p: "?p \<in> waiting (ml_sched w')" using r(6) by (simp add: waiting_def)
    obtain s cbs where s: "run_fires (e_libev env) is (ml_sched w') = Some (s, cbs)" "concat (queues s) = []"
        "\<forall>p. p \<in> waiting (ml_sched w') \<or> ns_ndranges (ss_store (ml_sched w')) p = None \<longrightarrow>
           ns_ndranges (ss_store s) p = None"
      using run_fires_drains [OF assms(1) r(2,3)] h r(7) by (metis (no_types, lifting))
    have n: "ns_ndranges (ss_store s) ?p = None" using s(3) p by blast
    have "event_done (ss_store s) e" using run_fires_done [OF s(1), of e ?p] r(4,5) n by auto
    then show ?thesis using s(1,2) n by blast
  qed
  then show ?thesis using r(1,4) by blast
qed

theorem kernel_command_completes_witness:
  "\<exists>w w'. handle_ndrange_command demo_ml_env (Some 0) [10, 1, 1] [2, 0, 0] (Some 1) w = Inr w' \<and>
    (\<forall>is. set is \<subseteq> {..<2} \<and> (\<forall>i<2. count_list is i = length (queues (ml_sched w') ! i)) \<longrightarrow>
       (\<exists>s cbs. run_fires demo_libev is (ml_sched w') = Some (s, cbs) \<and> event_done (ss_store s) 1))"
proof -
  obtain w where w: "sched_inv (ml_sched w)" "launches_inv (ml_sched w)"
    "command_ready demo_ml_env 0 [10, 1, 1] [2, 0, 0] 1 ''k.xml'' w" "length (ss_schedulers (ml_sched w)) = 2"
    using demo_command_ready by blast
  have l: "libev_ok (e_libev demo_ml_env)" by (simp add: demo_libev_ok)
  show ?thesis using kernel_command_completes [OF l w(1-3)] w(4)
    by (metis (no_types, lifting) demo_ml_env_simps(1))
qed

end
