(* ===== verification/Cmd_Queue.thy ===== *)
theory Cmd_Queue
  imports Dispatcher
begin

text \<open>
  Command queues (\<^verbatim>\<open>cpp/cmd_q.cc\<close>) and the facade the OpenCL layer calls (\<^verbatim>\<open>cpp/fpgaml.cc\<close>). A
  user's thread pushes commands; the event loop's thread hands them to the dispatcher one after
  the other. The two meet in the watcher of the queue, which \<open>ev_async_send\<close> and
  \<open>ev_feed_event\<close> mark and the loop serves. The mutex guards each operation on the ring by itself, so these are atomic
  and the model has no lock. The callback of the watcher uses several of them; it is one function
  here, and \<open>Queue_Threads\<close> has it in steps and shows what a push or a release between two of
  them does.
\<close>

section \<open>State\<close>

text \<open>
  The ring holds the commands themselves instead of pointers to them, because a command has one
  owner: the user's thread until it is pushed, the queue, and the callback that pops it.
\<close>

(* src/cpp/cmd_q.h:47-57 _cl_command_queue *)
record cmd_queue =
  q_ring_buffer :: "mlcl_command circ_array"
  q_ref_counter :: int
  q_last_event :: "ptr option"

text \<open>
  The watcher of a queue has its queue's address: the watchers marked by \<open>ev_async_send\<close>, and
  those with an event pending. \<open>cq_command_id\<close> is \<open>s_unique_command_id\<close>.
\<close>

record cq_state =
  cq_ml :: ml_state
  cq_queues :: "cmd_queue heap"
  cq_sent :: "ptr set"
  cq_fed :: "ptr set"
  cq_command_id :: u32

abbreviation cq_objs :: "cq_state \<Rightarrow> objs" where
  "cq_objs st \<equiv> ml_objs (cq_ml st)"

definition with_objs :: "objs \<Rightarrow> cq_state \<Rightarrow> cq_state" where
  "with_objs s st = st\<lparr>cq_ml := put_objs s (cq_ml st)\<rparr>"

definition set_queue :: "ptr \<Rightarrow> cmd_queue \<Rightarrow> cq_state \<Rightarrow> cq_state" where
  "set_queue q cq st = st\<lparr>cq_queues := (cq_queues st)(q \<mapsto> cq)\<rparr>"

lemma cq_simps [simp]:
  "cq_objs (with_objs s st) = s" "cq_objs (set_queue q cq st) = cq_objs st"
  "cq_queues (with_objs s st) = cq_queues st" "cq_queues (set_queue q cq st) = (cq_queues st)(q \<mapsto> cq)"
  "cq_fed (with_objs s st) = cq_fed st" "cq_fed (set_queue q cq st) = cq_fed st"
  "cq_sent (with_objs s st) = cq_sent st" "cq_sent (set_queue q cq st) = cq_sent st"
  "cq_ml (with_objs s st) = put_objs s (cq_ml st)" "cq_ml (set_queue q cq st) = cq_ml st"
  by (simp_all add: with_objs_def set_queue_def)

section \<open>The operations of a queue\<close>

(* src/cpp/cmd_q.cc:66-78 _cl_command_queue::_cl_command_queue *)
definition new_cmd_queue :: "(nat \<Rightarrow> mlcl_command) \<Rightarrow> cmd_queue res" where
  "new_cmd_queue junk =
     bindr (ca_new junk 100) (\<lambda>c. Inr \<lparr>q_ring_buffer = c, q_ref_counter = 1, q_last_event = None\<rparr>)"

(* src/cpp/cmd_q.cc:85-88 _cl_command_queue::create_new *)
definition create_new :: "(nat \<Rightarrow> mlcl_command) \<Rightarrow> cq_state \<Rightarrow> (ptr \<times> cq_state) res" where
  "create_new junk st =
     bindr (new_cmd_queue junk) (\<lambda>cq.
       let (q, s) = fresh (cq_objs st) in Inr (q, set_queue q cq (with_objs s st)))"

text \<open>
  The result of the ring's push is dropped, and on the path that pushes, the function has no
  return statement: \<open>garbage\<close> is what its caller then reads.
\<close>

(* src/cpp/cmd_q.cc:90-104 _cl_command_queue::push_back *)
definition cq_push_back :: "RC \<Rightarrow> ptr \<Rightarrow> mlcl_command \<Rightarrow> cq_state \<Rightarrow> (RC \<times> cq_state) res" where
  "cq_push_back garbage q cmd st =
     bindr (deref (cq_queues st) q) (\<lambda>cq.
       if q_ref_counter cq < 1 then Inr (ML_ERROR_CMDQ_RELEASED, st)
       else bindr (ca_push_back (q_ring_buffer cq) cmd False) (\<lambda>(_, c).
              let st1 = set_queue q (cq\<lparr>q_ring_buffer := c\<rparr>) st
              in Inr (garbage, st1\<lparr>cq_sent := insert q (cq_sent st1)\<rparr>)))"

(* src/cpp/cmd_q.cc:106-118 _cl_command_queue::pop_front *)
definition cq_pop_front :: "cmd_queue \<Rightarrow> (mlcl_command option \<times> cmd_queue) res" where
  "cq_pop_front cq =
     (if ca_occupancy (q_ring_buffer cq) \<noteq> 0
      then bindr (ca_pop_front (q_ring_buffer cq)) (\<lambda>(c, r). Inr (Some c, cq\<lparr>q_ring_buffer := r\<rparr>))
      else Inr (None, cq))"

(* src/cpp/cmd_q.cc:120-132 _cl_command_queue::peek_front *)
definition cq_peek_front :: "cmd_queue \<Rightarrow> mlcl_command option res" where
  "cq_peek_front cq =
     (if ca_occupancy (q_ring_buffer cq) \<noteq> 0
      then bindr (ca_get (q_ring_buffer cq) 0) (\<lambda>c. Inr (Some c))
      else Inr None)"

(* src/cpp/cmd_q.cc:134-139 _cl_command_queue::is_full *)
definition cq_is_full :: "cmd_queue \<Rightarrow> bool" where
  "cq_is_full cq = ca_is_full (q_ring_buffer cq)"

(* src/cpp/cmd_q.cc:141-146 _cl_command_queue::is_empty *)
definition cq_is_empty :: "cmd_queue \<Rightarrow> bool" where
  "cq_is_empty cq = ca_empty (q_ring_buffer cq)"

(* src/cpp/cmd_q.cc:148-159 _cl_command_queue::ref_cnt_down *)
definition cq_ref_cnt_down :: "cmd_queue \<Rightarrow> cmd_queue" where
  "cq_ref_cnt_down cq =
     (if q_ref_counter cq > 0 then cq\<lparr>q_ref_counter := q_ref_counter cq - 1\<rparr> else cq)"

text \<open>The destructor stops the watcher, which also clears its marks.\<close>

(* src/cpp/cmd_q.cc:80-83 _cl_command_queue::~_cl_command_queue *)
definition delete_queue :: "ptr \<Rightarrow> cq_state \<Rightarrow> cq_state" where
  "delete_queue q st =
     st\<lparr>cq_queues := (cq_queues st)(q := None), cq_sent := cq_sent st - {q}, cq_fed := cq_fed st - {q}\<rparr>"

text \<open>
  The guard unlocks a mutex that \<open>delete this\<close> destroyed, which C++ leaves undefined; the model
  lets that pass, so that it can say what happens next.
\<close>

(* src/cpp/cmd_q.cc:161-169 _cl_command_queue::check_self_destroy *)
definition check_self_destroy :: "ptr \<Rightarrow> cq_state \<Rightarrow> cq_state res" where
  "check_self_destroy q st =
     bindr (deref (cq_queues st) q) (\<lambda>cq.
       Inr (if q_ref_counter cq < 1 then delete_queue q st else st))"

text \<open>The watcher is a member of its queue.\<close>

(* src/cpp/cmd_q.cc:173-178 on_event_complete *)
fun on_event_complete :: "event_cb \<Rightarrow> cq_state \<Rightarrow> cq_state res" where
  "on_event_complete (On_event_complete q) st =
     bindr (deref (cq_queues st) q) (\<lambda>_. Inr (st\<lparr>cq_fed := insert q (cq_fed st)\<rparr>))"

(* src/cpp/cmd_q.cc:180-198 _cl_command_queue::set_last_event *)
definition set_last_event :: "ptr \<Rightarrow> ptr option \<Rightarrow> cq_state \<Rightarrow> cq_state res" where
  "set_last_event q event st =
     bindr (deref (cq_queues st) q) (\<lambda>cq.
     bindr (case q_last_event cq of None \<Rightarrow> Inr (cq_objs st) | Some l \<Rightarrow> event_down (cq_objs st) l) (\<lambda>s1.
     bindr (nonnull event) (\<lambda>e.
     bindr (event_up s1 e) (\<lambda>s2.
     bindr (update_event s2 e (\<lambda>ev. register_on_complete_cb_func ev (On_event_complete q))) (\<lambda>s3.
       Inr (set_queue q (cq\<lparr>q_last_event := event\<rparr>) (with_objs s3 st)))))))"

section \<open>Serving a queue\<close>

definition event_state :: "objs \<Rightarrow> ptr \<Rightarrow> int res" where
  "event_state s e = bindr (deref (o_events s) e) (\<lambda>ev. Inr (m_event_state ev))"

text \<open>The end of the callback: go on at once, or see whether the queue is to be deleted.\<close>

(* src/cpp/cmd_q.cc:51-59 on_new_cmd_cb (5) *)
definition go_on :: "ptr \<Rightarrow> cq_state \<Rightarrow> cq_state res" where
  "go_on q st =
     bindr (deref (cq_queues st) q) (\<lambda>cq.
     bindr (if cq_is_empty cq then Inr False
            else bindr (nonnull (q_last_event cq)) (\<lambda>l.
                   bindr (event_state (cq_objs st) l) (\<lambda>s. Inr (s = CL_COMPLETE)))) (\<lambda>more.
       if more then Inr (st\<lparr>cq_fed := insert q (cq_fed st)\<rparr>) else check_self_destroy q st))"

text \<open>
  A popped command: it becomes the last event, is handed to the dispatcher, and is deleted. The
  callbacks of events run inside \<open>handle_a_cmd\<close>; they only mark watchers.
\<close>

(* src/cpp/cmd_q.cc:45-61 on_new_cmd_cb (3 to 5) *)
definition serve_command :: "ml_env \<Rightarrow> ptr \<Rightarrow> mlcl_command \<Rightarrow> cq_state \<Rightarrow> cq_state res" where
  "serve_command env q cmd st =
     bindr (set_last_event q (m_event cmd) st) (\<lambda>st1.
     bindr (handle_a_cmd env cmd (cq_ml st1)) (\<lambda>(w2, cbs).
     bindr (foldr_res on_event_complete cbs (st1\<lparr>cq_ml := w2\<rparr>)) (\<lambda>st3.
     bindr (go_on q st3) (\<lambda>st4.
     bindr (delete_command cmd (cq_objs st4)) (\<lambda>s. Inr (with_objs s st4))))))"

(* src/cpp/cmd_q.cc:7-45 on_new_cmd_cb *)
definition on_new_cmd_cb :: "ml_env \<Rightarrow> ptr \<Rightarrow> cq_state \<Rightarrow> cq_state res" where
  "on_new_cmd_cb env q st =
     bindr (deref (cq_queues st) q) (\<lambda>cq.
     if cq_is_empty cq then check_self_destroy q st
     else bindr (case q_last_event cq of
                   None \<Rightarrow> Inr CL_COMPLETE
                 | Some l \<Rightarrow> event_state (cq_objs st) l) (\<lambda>last.
          if last \<noteq> CL_COMPLETE then Inr st
          else bindr (cq_pop_front cq) (\<lambda>(c, cq1).
               case c of
                 None \<Rightarrow> Inl Null_deref
               | Some cmd \<Rightarrow> serve_command env q cmd (set_queue q cq1 st))))"

section \<open>The facade\<close>

(* src/cpp/fpgaml.h:19-29 FPML_RC *)
datatype FPML_RC =
    FPML_SUCCESS | FPML_ERR_BUFFER_FULL | FPML_ERR_WRONG_DIMS | FPML_ERR_WRONG_PARAMS
  | FPML_ERR_INVALID_CMDQ | FPML_NO_BITSTREAM | FPML_BUFFER_ALLOC_ERROR | FPML_WRONG_WG_SIZE

(* src/cpp/fpgaml.cc:59-63 ml_create_cmd_q *)
definition ml_create_cmd_q :: "(nat \<Rightarrow> mlcl_command) \<Rightarrow> cq_state \<Rightarrow> (ptr \<times> cq_state) res" where
  "ml_create_cmd_q junk st = create_new junk st"

(* src/cpp/fpgaml.cc:65-73 ml_cmd_q_ref_cnt_down *)
definition ml_cmd_q_ref_cnt_down :: "ptr option \<Rightarrow> cq_state \<Rightarrow> cq_state res" where
  "ml_cmd_q_ref_cnt_down cmdq st =
     (case cmdq of
        None \<Rightarrow> Inr st
      | Some q \<Rightarrow> bindr (deref (cq_queues st) q) (\<lambda>cq. Inr (set_queue q (cq_ref_cnt_down cq) st)))"

text \<open>\<open>command_id\<close> is an out-parameter; the identifier is kept as an \<open>int\<close>.\<close>

(* src/cpp/fpgaml.cc:75-96 ml_submit_cmd *)
definition ml_submit_cmd ::
  "RC \<Rightarrow> ptr option \<Rightarrow> mlcl_command option \<Rightarrow> u32 \<Rightarrow> cq_state \<Rightarrow> (FPML_RC \<times> u32 \<times> cq_state) res" where
  "ml_submit_cmd garbage cmdq cmd command_id st =
     (case (cmdq, cmd) of
        (Some q, Some c) \<Rightarrow>
          (let new_id = cq_command_id st + 1
           in bindr (cq_push_back garbage q (set_command_id c (sint new_id)) (st\<lparr>cq_command_id := new_id\<rparr>))
                (\<lambda>(rc, st1). Inr (if rc = ML_ERROR_CMDQ_RELEASED then FPML_ERR_INVALID_CMDQ else FPML_SUCCESS,
                              new_id, st1)))
      | _ \<Rightarrow> Inr (FPML_ERR_WRONG_PARAMS, command_id, st))"

(* src/cpp/fpgaml.cc:98-112 ml_check_bitstream_exists *)
definition ml_check_bitstream_exists :: "ml_env \<Rightarrow> cl_program \<Rightarrow> FPML_RC" where
  "ml_check_bitstream_exists env prog =
     (if check_bitstream_exists (new_BitstreamCheck (m_xml_files_list (e_bits env))) (m_xml_name prog)
      then FPML_SUCCESS else FPML_NO_BITSTREAM)"

(* src/cpp/fpgaml.cc:115-131 ml_check_wg_size *)
definition ml_check_wg_size :: "ml_env \<Rightarrow> string \<Rightarrow> u64 \<Rightarrow> FPML_RC" where
  "ml_check_wg_size env xml_name wg_size =
     (if check_wg_size (new_WorkGroupSizeCheck (m_kernel_bitstream_struct_map (e_bits env))) xml_name wg_size
      then FPML_SUCCESS else FPML_WRONG_WG_SIZE)"

section \<open>The event loop\<close>

text \<open>
  What the loop's thread can do: turn the mark of a watcher into a pending event, serve a pending
  event of a queue, and let a running timer of a scheduler or of the free schedulers expire. A
  step exists only where the code returns.
\<close>

definition serve_watcher :: "ml_env \<Rightarrow> ptr \<Rightarrow> cq_state \<Rightarrow> cq_state res" where
  "serve_watcher env q st = on_new_cmd_cb env q (st\<lparr>cq_fed := cq_fed st - {q}\<rparr>)"

definition expire_scheduler :: "ml_env \<Rightarrow> nat \<Rightarrow> cq_state \<Rightarrow> cq_state res" where
  "expire_scheduler env i st =
     bindr (fire_scheduler (e_libev env) i (ml_sched (cq_ml st))) (\<lambda>(s, cbs).
       foldr_res on_event_complete cbs (st\<lparr>cq_ml := (cq_ml st)\<lparr>ml_sched := s\<rparr>\<rparr>))"

text \<open>The timer of the free schedulers may repeat; what it is when its callback runs is up to libev.\<close>

definition expire_free :: "ml_env \<Rightarrow> cq_state \<Rightarrow> cq_state res" where
  "expire_free env st =
     (let w = ml_sched (cq_ml st);
          w1 = w\<lparr>ss_free := (ss_free w)\<lparr>f_free_sched_timer := lv_expire (e_libev env) (ss_now w) (f_free_sched_timer (ss_free w))\<rparr>\<rparr>
      in bindr (free_on_timer (e_libev env) (e_tracker env) (ml_slicing (cq_ml st)) w1)
           (\<lambda>(al, s). Inr (st\<lparr>cq_ml := (cq_ml st)\<lparr>ml_slicing := al, ml_sched := s\<rparr>\<rparr>)))"

inductive loop_step :: "ml_env \<Rightarrow> cq_state \<Rightarrow> cq_state \<Rightarrow> bool" for env where
  collect: "q \<in> cq_sent st \<Longrightarrow>
     loop_step env st (st\<lparr>cq_sent := cq_sent st - {q}, cq_fed := insert q (cq_fed st)\<rparr>)"
| serve: "q \<in> cq_fed st \<Longrightarrow> serve_watcher env q st = Inr st' \<Longrightarrow> loop_step env st st'"
| expire: "i < length (ss_schedulers (ml_sched (cq_ml st))) \<Longrightarrow>
     t_active (s_timer (ss_schedulers (ml_sched (cq_ml st)) ! i)) \<Longrightarrow>
     expire_scheduler env i st = Inr st' \<Longrightarrow> loop_step env st st'"
| free: "t_active (f_free_sched_timer (ss_free (ml_sched (cq_ml st)))) \<Longrightarrow>
     expire_free env st = Inr st' \<Longrightarrow> loop_step env st st'"

inductive_cases loop_stepE: "loop_step env st st'"

section \<open>Facts about queues\<close>

lemma cq_pop_front_ok:
  assumes "ca_wf (q_ring_buffer cq)" and "\<not> cq_is_empty cq"
  shows "\<exists>r. cq_pop_front cq = Inr (Some (hd (ca_list (q_ring_buffer cq))), cq\<lparr>q_ring_buffer := r\<rparr>) \<and> ca_wf r \<and>
    ca_list r = tl (ca_list (q_ring_buffer cq)) \<and> ca_bound r = ca_bound (q_ring_buffer cq)"
proof -
  have ne: "ca_list (q_ring_buffer cq) \<noteq> []" using assms(2) by (simp add: cq_is_empty_def ca_empty_iff)
  then have "unat (ca_occupancy (q_ring_buffer cq)) \<noteq> 0" by (simp add: ca_occupancy_length)
  then have "ca_occupancy (q_ring_buffer cq) \<noteq> 0" by auto
  then show ?thesis using ca_fifo.deq_some [OF assms(1) ne] by (auto simp: cq_pop_front_def)
qed

text \<open>What a command's event is when the queue has taken the command.\<close>

definition taken :: "ptr \<Rightarrow> cl_event \<Rightarrow> cl_event" where
  "taken q ev = ev\<lparr>m_counter := m_counter ev + 1, m_cb := Some (On_event_complete q)\<rparr>"

lemma set_last_event_ok:
  assumes cq: "cq_queues st q = Some cq" and ev: "o_events (cq_objs st) e = Some ev"
    and l: "\<And>l. q_last_event cq = Some l \<Longrightarrow> l \<noteq> e \<and> o_events (cq_objs st) l \<noteq> None"
  shows "\<exists>E. set_last_event q (Some e) st = Inr (set_queue q (cq\<lparr>q_last_event := Some e\<rparr>)
      (with_objs ((cq_objs st)\<lparr>o_events := E(e \<mapsto> taken q ev)\<rparr>) st)) \<and>
    (\<forall>x. q_last_event cq \<noteq> Some x \<longrightarrow> E x = o_events (cq_objs st) x) \<and>
    (\<forall>x ev'. E x = Some ev' \<longrightarrow> (\<exists>ev0. o_events (cq_objs st) x = Some ev0 \<and> m_event_state ev' = m_event_state ev0))"
proof (cases "q_last_event cq")
  case None
  then show ?thesis using cq ev
    by (intro exI [of _ "o_events (cq_objs st)"])
      (simp add: set_last_event_def event_up_def heap_up_def update_event_def taken_def ref_cnt_up_def
        register_on_complete_cb_func_def)
next
  case (Some p)
  obtain evl where evl: "o_events (cq_objs st) p = Some evl" and ne: "p \<noteq> e" using l [OF Some] by auto
  let ?E = "(o_events (cq_objs st))(p := ref_cnt_down evl)"
  have "set_last_event q (Some e) st = Inr (set_queue q (cq\<lparr>q_last_event := Some e\<rparr>)
      (with_objs ((cq_objs st)\<lparr>o_events := ?E(e \<mapsto> taken q ev)\<rparr>) st))"
    using cq ev Some evl ne
    by (simp add: set_last_event_def event_up_def heap_up_def update_event_def taken_def ref_cnt_up_def
        register_on_complete_cb_func_def event_down_def heap_down_def)
  moreover have "\<exists>ev0. o_events (cq_objs st) x = Some ev0 \<and> m_event_state ev' = m_event_state ev0"
    if "?E x = Some ev'" for x ev'
    using that evl ref_cnt_down_state by (cases "x = p") auto
  ultimately show ?thesis using Some by (intro exI [of _ ?E]) auto
qed

text \<open>The callback of a queue that is ready to go on takes the oldest command.\<close>

lemma on_new_cmd_pops:
  assumes "cq_queues st q = Some cq" and "ca_wf (q_ring_buffer cq)" and "ca_list (q_ring_buffer cq) = c # cs"
    and "\<And>l. q_last_event cq = Some l \<Longrightarrow> event_state (cq_objs st) l = Inr CL_COMPLETE"
  shows "\<exists>r. ca_wf r \<and> ca_list r = cs \<and> ca_bound r = ca_bound (q_ring_buffer cq) \<and>
    on_new_cmd_cb env q st = serve_command env q c (set_queue q (cq\<lparr>q_ring_buffer := r\<rparr>) st)"
proof -
  have ne: "\<not> cq_is_empty cq" using assms(3) by (simp add: cq_is_empty_def ca_empty_iff)
  obtain r where r: "cq_pop_front cq = Inr (Some c, cq\<lparr>q_ring_buffer := r\<rparr>)" "ca_wf r" "ca_list r = cs"
      "ca_bound r = ca_bound (q_ring_buffer cq)"
    using cq_pop_front_ok [OF assms(2) ne] assms(3) by auto
  have "(case q_last_event cq of None \<Rightarrow> Inr CL_COMPLETE | Some l \<Rightarrow> event_state (cq_objs st) l) = Inr CL_COMPLETE"
    using assms(4) by (cases "q_last_event cq") simp_all
  then show ?thesis using assms(1) ne r by (intro exI [of _ r]) (simp add: on_new_cmd_cb_def)
qed

end
