(* ===== verification/Ocl_Api.thy ===== *)
theory Ocl_Api
  imports Cmd_Queue
begin

text \<open>
  The OpenCL functions the program offers (\<^verbatim>\<open>il/ocl_api.cc\<close>). A call either returns, or blocks its
  thread on an event and goes on when the event loop has completed it.

  Parameters the code ignores are left out. A pointer to an out-parameter is modelled by whether it
  is null; what is written to it is part of the result, \<open>None\<close> where nothing is written.
  \<open>garbage\<close> arguments stand for the result of a function that ends without a return statement.
\<close>

unbundle bit_operations_syntax

section \<open>Calls\<close>

text \<open>\<open>Blocked e st k\<close>: the thread waits for event \<open>e\<close>; \<open>k\<close> is the rest of the call.\<close>

datatype 'a call = Done 'a cq_state | Blocked ptr cq_state "cq_state \<Rightarrow> fault + 'a call"

primrec bind_call :: "'a call \<Rightarrow> ('a \<Rightarrow> cq_state \<Rightarrow> 'b call res) \<Rightarrow> 'b call res" where
  "bind_call (Done x st) f = f x st"
| "bind_call (Blocked e st k) f =
     Inr (Blocked e st (\<lambda>st1. bindr (map_sum id (\<lambda>c. bind_call c f) (k st1)) id))"

definition new_mem_obj :: "cq_state \<Rightarrow> ptr \<times> cq_state" where
  "new_mem_obj st =
     (let (p, s) = fresh (cq_objs st)
      in (p, with_objs (s\<lparr>o_mems := (o_mems s)(p \<mapsto> new_cl_mem)\<rparr>) st))"

text \<open>Memory of the user: a write outside of it is an access out of bounds.\<close>

definition user_write :: "u64 \<Rightarrow> byte list \<Rightarrow> cq_state \<Rightarrow> cq_state res" where
  "user_write p bs st =
     (let w = cq_ml st; u = ml_uni w
      in if mem_read (uw_user u) p (length bs) = None then Inl Out_of_bounds
         else Inr (st\<lparr>cq_ml := w\<lparr>ml_uni := u\<lparr>uw_user := mem_write (uw_user u) p bs\<rparr>\<rparr>\<rparr>))"

abbreviation user_mem :: "cq_state \<Rightarrow> mem" where
  "user_mem st \<equiv> uw_user (ml_uni (cq_ml st))"

definition c_strlen :: "string \<Rightarrow> u64 res" where
  "c_strlen s =
     (if CHR 0x00 \<in> set s then Inr (of_nat (length (takeWhile (\<lambda>c. c \<noteq> CHR 0x00) s))) else Inl Out_of_bounds)"

definition c_bytes :: "string \<Rightarrow> byte list" where
  "c_bytes = map of_char"

section \<open>Platforms, devices and contexts\<close>

text \<open>
  The array the user passes, \<open>None\<close> for null; the platform and the device are static dummies.
\<close>

(* src/il/ocl_api.cc:40-62 clGetPlatformIDs (body) *)
definition first_entry :: "ptr \<Rightarrow> u32 \<Rightarrow> ptr list option \<Rightarrow> bool \<Rightarrow> (int \<times> ptr list option \<times> u32 option) res" where
  "first_entry dummy num_entries entries has_num =
     (if num_entries = 0 \<and> entries = None \<and> has_num then Inr (CL_SUCCESS, entries, Some 1)
      else if num_entries < 1 \<and> entries = None then Inr (CL_INVALID_VALUE, entries, None)
      else case entries of
             None \<Rightarrow> Inl Null_deref
           | Some [] \<Rightarrow> Inl Out_of_bounds
           | Some (x # xs) \<Rightarrow> Inr (CL_SUCCESS, Some (dummy # xs), if has_num then Some 1 else None))"

(* src/il/ocl_api.cc:33-63 clGetPlatformIDs *)
definition clGetPlatformIDs ::
  "ptr \<Rightarrow> u32 \<Rightarrow> ptr list option \<Rightarrow> bool \<Rightarrow> (int \<times> ptr list option \<times> u32 option) res" where
  "clGetPlatformIDs s_platform_id num_entries platforms num_platforms =
     first_entry s_platform_id num_entries platforms num_platforms"

(* src/il/ocl_api.cc:65-98 clGetDeviceIDs *)
definition clGetDeviceIDs ::
  "ptr \<Rightarrow> u32 \<Rightarrow> ptr list option \<Rightarrow> bool \<Rightarrow> (int \<times> ptr list option \<times> u32 option) res" where
  "clGetDeviceIDs s_device_id num_entries devices num_devices =
     first_entry s_device_id num_entries devices num_devices"

(* src/il/ocl_api.cc:100-117 clCreateContext *)
definition clCreateContext :: "bool \<Rightarrow> cq_state \<Rightarrow> ptr \<times> int option \<times> cq_state" where
  "clCreateContext errcode_ret st =
     (let (p, s) = fresh (cq_objs st)
      in (p, if errcode_ret then Some CL_SUCCESS else None,
          with_objs (s\<lparr>o_contexts := (o_contexts s)(p \<mapsto> \<lparr>m_counter = 1, m_allocated_mems = {}\<rparr>)\<rparr>) st))"

section \<open>Programs\<close>

text \<open>
  The loop that copies the name: it reads the character before it compares the index with the
  length. \<open>src\<close> is the memory from the pointer on.
\<close>

(* src/il/ocl_api.cc:150-160 clCreateProgramWithSource (loop) *)
function copy_name :: "string \<Rightarrow> u64 \<Rightarrow> nat \<Rightarrow> string \<Rightarrow> string res" where
  "copy_name src first_line_len i xml_file_name =
     (if i \<ge> length src then Inl Out_of_bounds
      else if src ! i = CHR 0x0A \<or> \<not> i < 63 \<or> \<not> i < unat first_line_len then Inr xml_file_name
      else let cp = src ! i
           in copy_name src first_line_len (Suc i)
                (if cp \<noteq> CHR 0x0A \<and> cp \<noteq> CHR ''/'' \<and> cp \<noteq> CHR '' '' then xml_file_name @ [cp]
                 else xml_file_name))"
  by pat_completeness auto
termination by (relation "measure (\<lambda>(src, len, i, acc). 63 - i)") auto

declare copy_name.simps [simp del]

text \<open>
  \<open>strings\<close> is the first element of the array, \<open>None\<close> for a null array, and \<open>lengths\<close> likewise.
  The name is read back as a C string.
\<close>

(* src/il/ocl_api.cc:119-177 clCreateProgramWithSource *)
definition clCreateProgramWithSource ::
  "ptr option \<Rightarrow> u32 \<Rightarrow> string option option \<Rightarrow> u64 option \<Rightarrow> bool \<Rightarrow> cq_state \<Rightarrow>
     (ptr option \<times> int option \<times> cq_state) res" where
  "clCreateProgramWithSource ctx count strings lengths errcode_ret st =
     (let fail = (\<lambda>code. if errcode_ret then Inr (None, Some code, st) else Inl Null_deref)
      in case strings of
           Some (Some src) \<Rightarrow>
             (if count = 0 then fail CL_INVALID_VALUE
              else if ctx = None then fail CL_INVALID_CONTEXT
              else bindr (if lengths = None \<or> lengths = Some 0 then c_strlen src else Inr (the lengths)) (\<lambda>first_line_len.
                   bindr (copy_name src first_line_len 0 []) (\<lambda>name.
                     let (p, s) = fresh (cq_objs st);
                         prog = \<lparr>m_counter = 1, m_xml_name = takeWhile (\<lambda>c. c \<noteq> CHR 0x00) name,
                                 m_build_log = [], m_context = ctx\<rparr>
                     in Inr (Some p, None, with_objs (s\<lparr>o_programs := (o_programs s)(p \<mapsto> prog)\<rparr>) st))))
         | _ \<Rightarrow> fail CL_INVALID_VALUE)"

(* src/il/ocl_api.cc:179-202 clBuildProgram *)
definition clBuildProgram :: "ml_env \<Rightarrow> ptr option \<Rightarrow> cq_state \<Rightarrow> (int \<times> cq_state) res" where
  "clBuildProgram env program st =
     bindr (nonnull program) (\<lambda>p. bindr (deref (o_programs (cq_objs st)) p) (\<lambda>prog.
       let found = ml_check_bitstream_exists env prog = FPML_SUCCESS;
           build_log = (if \<not> found then ''ERROR No bitstream file '' @ m_xml_name prog @ '' exists''
                  else ''Bitstream '' @ m_xml_name prog @ '' is present in bitstream manager'')
       in Inr (if found then CL_SUCCESS else CL_BUILD_PROGRAM_FAILURE,
               with_objs ((cq_objs st)\<lparr>o_programs := (o_programs (cq_objs st))(p \<mapsto> prog\<lparr>m_build_log := build_log\<rparr>)\<rparr>) st)))"

(* src/il/CL/cl.h:531-531 CL_PROGRAM_BUILD_STATUS *)
definition CL_PROGRAM_BUILD_STATUS :: u32 where "CL_PROGRAM_BUILD_STATUS = 0x1181"
(* src/il/CL/cl.h:532-532 CL_PROGRAM_BUILD_OPTIONS *)
definition CL_PROGRAM_BUILD_OPTIONS :: u32 where "CL_PROGRAM_BUILD_OPTIONS = 0x1182"
(* src/il/CL/cl.h:533-533 CL_PROGRAM_BUILD_LOG *)
definition CL_PROGRAM_BUILD_LOG :: u32 where "CL_PROGRAM_BUILD_LOG = 0x1183"
(* src/il/CL/cl.h:534-534 CL_PROGRAM_BINARY_TYPE *)
definition CL_PROGRAM_BINARY_TYPE :: u32 where "CL_PROGRAM_BINARY_TYPE = 0x1184"

text \<open>The size left for the text is computed in \<open>size_t\<close>. The log has no null characters.\<close>

(* src/il/ocl_api.cc:228-235 clGetProgramBuildInfo (copy) *)
definition copy_log :: "string \<Rightarrow> u64 \<Rightarrow> u64 \<Rightarrow> cq_state \<Rightarrow> cq_state res" where
  "copy_log build_log param_value_size p st =
     (let log_size = of_nat (length build_log) :: u64;
          copy_size = (if log_size > param_value_size - 1 then param_value_size - 1 else log_size)
      in bindr (user_write p (replicate (unat param_value_size) 0) st)
           (user_write p (take (unat copy_size) (c_bytes build_log))))"

(* src/il/ocl_api.cc:204-252 clGetProgramBuildInfo *)
definition clGetProgramBuildInfo ::
  "int \<Rightarrow> ptr option \<Rightarrow> u32 \<Rightarrow> u64 \<Rightarrow> u64 option \<Rightarrow> bool \<Rightarrow> cq_state \<Rightarrow> (int \<times> u64 option \<times> cq_state) res" where
  "clGetProgramBuildInfo garbage program param_name param_value_size param_value has_size_ret st =
     (case program of
        None \<Rightarrow> Inr (CL_INVALID_PROGRAM, None, st)
      | Some pp \<Rightarrow>
          (if param_name = CL_PROGRAM_BUILD_LOG
           then bindr (deref (o_programs (cq_objs st)) pp) (\<lambda>prog.
                  if param_value_size < 1 \<and> has_size_ret
                  then Inr (CL_SUCCESS, Some (of_nat (length (m_build_log prog))), st)
                  else case param_value of
                         Some p \<Rightarrow> bindr (copy_log (m_build_log prog) param_value_size p st) (\<lambda>st1.
                                     Inr (garbage, None, st1))
                       | None \<Rightarrow> Inr (CL_INVALID_VALUE, None, st))
           else if param_name = CL_PROGRAM_BUILD_STATUS \<or> param_name = CL_PROGRAM_BUILD_OPTIONS \<or>
                   param_name = CL_PROGRAM_BINARY_TYPE
           then Inr (garbage, None, st)
           else Inr (CL_INVALID_VALUE, None, st)))"

section \<open>Kernels\<close>

(* src/il/ocl_api.cc:323-338 clCreateKernel *)
definition clCreateKernel :: "ptr option \<Rightarrow> bool \<Rightarrow> cq_state \<Rightarrow> ptr option \<times> int option \<times> cq_state" where
  "clCreateKernel program errcode_ret st =
     (if program = None then (None, if errcode_ret then Some CL_INVALID_PROGRAM else None, st)
      else let (p, s) = fresh (cq_objs st)
           in (Some p, None, with_objs (s\<lparr>o_kernels := (o_kernels s)(p \<mapsto> new_cl_kernel program)\<rparr>) st))"

(* src/il/ocl_api.cc:340-356 clSetKernelArg *)
definition clSetKernelArg ::
  "ptr option \<Rightarrow> u32 \<Rightarrow> u64 \<Rightarrow> byte list option \<Rightarrow> cq_state \<Rightarrow> (int \<times> cq_state) res" where
  "clSetKernelArg krn arg_index arg_size arg_value st =
     (case krn of
        None \<Rightarrow> Inr (CL_INVALID_KERNEL, st)
      | Some kp \<Rightarrow>
          bindr (deref (o_kernels (cq_objs st)) kp) (\<lambda>k.
          bindr (set_args k arg_index arg_size arg_value) (\<lambda>k'.
            Inr (CL_SUCCESS, with_objs ((cq_objs st)\<lparr>o_kernels := (o_kernels (cq_objs st))(kp \<mapsto> k')\<rparr>) st))))"


section \<open>Command queues and commands\<close>

(* src/il/ocl_api.cc:254-264 clCreateCommandQueue *)
definition clCreateCommandQueue :: "(nat \<Rightarrow> mlcl_command) \<Rightarrow> cq_state \<Rightarrow> (ptr \<times> cq_state) res" where
  "clCreateCommandQueue junk st = ml_create_cmd_q junk st"

text \<open>
  The size arrays are given by their first elements. The command is deleted by nobody when the
  queue refuses it. \<open>event\<close> is not looked at.
\<close>

(* src/il/ocl_api.cc:358-416 clEnqueueNDRangeKernel *)
definition clEnqueueNDRangeKernel ::
  "ml_env \<Rightarrow> RC \<Rightarrow> ptr option \<Rightarrow> ptr option \<Rightarrow> u32 \<Rightarrow> u64 option \<Rightarrow> u64 option \<Rightarrow> u64 option \<Rightarrow> cq_state \<Rightarrow>
     (int \<times> cq_state) res" where
  "clEnqueueNDRangeKernel env garbage command_queue krn work_dim goff gsize lsize st =
     (if command_queue = None then Inr (CL_INVALID_COMMAND_QUEUE, st)
      else case krn of
        None \<Rightarrow> Inr (CL_INVALID_KERNEL, st)
      | Some kp \<Rightarrow>
          (if work_dim > 1 then Inr (CL_INVALID_WORK_DIMENSION, st)
           else case lsize of
             None \<Rightarrow> Inr (CL_INVALID_WORK_GROUP_SIZE, st)
           | Some l \<Rightarrow>
               (if l < 1 then Inr (CL_INVALID_WORK_GROUP_SIZE, st)
                else bindr (deref (o_kernels (cq_objs st)) kp) (\<lambda>k.
                     bindr (nonnull (k_program k)) (\<lambda>pp.
                     bindr (deref (o_programs (cq_objs st)) pp) (\<lambda>prog.
                     if ml_check_wg_size env (m_xml_name prog) l \<noteq> FPML_SUCCESS
                     then Inr (CL_INVALID_WORK_GROUP_SIZE, st)
                     else case gsize of
                       None \<Rightarrow> Inl Null_deref
                     | Some g \<Rightarrow>
                         (if g mod l \<noteq> 0 then Inr (CL_INVALID_GLOBAL_WORK_SIZE, st)
                          else bindr (new_MLCLCommandNDR krn work_dim goff gsize lsize (cq_objs st)) (\<lambda>(cmd, s).
                               bindr (ml_submit_cmd garbage command_queue (Some cmd) 0 (with_objs s st)) (\<lambda>(rc, _, st1).
                                 Inr (if rc = FPML_ERR_INVALID_CMDQ then CL_INVALID_COMMAND_QUEUE else CL_SUCCESS,
                                      st1))))))))))"

text \<open>The code returned, and what is written through \<open>user_event\<close>.\<close>

(* src/il/ocl_api.cc:418-450 handle_blocking_non_blocking *)
definition handle_blocking_non_blocking ::
  "bool \<Rightarrow> ptr \<Rightarrow> bool \<Rightarrow> cq_state \<Rightarrow> (int \<times> ptr option) call res" where
  "handle_blocking_non_blocking blocking_cmd cmd_event user_event st =
     (if blocking_cmd
      then Inr (Blocked cmd_event st (\<lambda>st1.
             bindr (deref (o_events (cq_objs st1)) cmd_event) (\<lambda>ev.
               if \<not> user_event
               then bindr (event_down (cq_objs st1) cmd_event) (\<lambda>s.
                      Inr (Done (m_error_code ev, None) (with_objs s st1)))
               else Inr (Done (m_error_code ev, Some cmd_event) st1))))
      else if user_event then Inr (Done (CL_SUCCESS, Some cmd_event) st)
      else bindr (event_down (cq_objs st) cmd_event) (\<lambda>s. Inr (Done (CL_SUCCESS, None) (with_objs s st))))"

text \<open>What the enqueueing functions do once they have a command: keep its event, submit it, wait.\<close>

(* src/il/ocl_api.cc:476-492 clEnqueueWriteBuffer (2) *)
definition submit_and_wait ::
  "RC \<Rightarrow> ptr option \<Rightarrow> mlcl_command \<Rightarrow> bool \<Rightarrow> bool \<Rightarrow> cq_state \<Rightarrow> (int \<times> ptr option) call res" where
  "submit_and_wait garbage command_queue cmd blocking user_event st =
     bindr (nonnull (m_event cmd)) (\<lambda>e.
     bindr (event_up (cq_objs st) e) (\<lambda>s.
     bindr (ml_submit_cmd garbage command_queue (Some cmd) 0 (with_objs s st)) (\<lambda>(rc, _, st1).
       if rc = FPML_ERR_INVALID_CMDQ
       then bindr (event_down (cq_objs st1) e) (\<lambda>s1.
              Inr (Done (CL_INVALID_COMMAND_QUEUE, None) (with_objs s1 st1)))
       else handle_blocking_non_blocking blocking e user_event st1)))"

(* src/il/ocl_api.cc:452-493 clEnqueueWriteBuffer *)
definition clEnqueueWriteBuffer ::
  "RC \<Rightarrow> ptr option \<Rightarrow> ptr option \<Rightarrow> bool \<Rightarrow> u64 \<Rightarrow> u64 \<Rightarrow> u64 option \<Rightarrow> bool \<Rightarrow> cq_state \<Rightarrow>
     (int \<times> ptr option) call res" where
  "clEnqueueWriteBuffer garbage command_queue buffer blocking_write offset sz p event st =
     (if command_queue = None then Inr (Done (CL_INVALID_COMMAND_QUEUE, None) st)
      else if buffer = None then Inr (Done (CL_INVALID_MEM_OBJECT, None) st)
      else bindr (new_MLCLCommandWB buffer offset sz p (cq_objs st)) (\<lambda>(cmd, s).
             submit_and_wait garbage command_queue cmd blocking_write event (with_objs s st)))"

(* src/il/ocl_api.cc:521-558 clEnqueueReadBuffer *)
definition clEnqueueReadBuffer ::
  "RC \<Rightarrow> ptr option \<Rightarrow> ptr option \<Rightarrow> bool \<Rightarrow> u64 \<Rightarrow> u64 \<Rightarrow> u64 option \<Rightarrow> bool \<Rightarrow> cq_state \<Rightarrow>
     (int \<times> ptr option) call res" where
  "clEnqueueReadBuffer garbage command_queue buffer blocking_read offset sz p event st =
     (if command_queue = None then Inr (Done (CL_INVALID_COMMAND_QUEUE, None) st)
      else if buffer = None then Inr (Done (CL_INVALID_MEM_OBJECT, None) st)
      else bindr (new_MLCLCommandRB buffer offset sz p (cq_objs st)) (\<lambda>(cmd, s).
             submit_and_wait garbage command_queue cmd blocking_read event (with_objs s st)))"

(* src/il/ocl_api.cc:495-519 clFinish *)
definition clFinish :: "RC \<Rightarrow> ptr option \<Rightarrow> cq_state \<Rightarrow> (int \<times> ptr option) call res" where
  "clFinish garbage command_queue st =
     (if command_queue = None then Inr (Done (CL_INVALID_COMMAND_QUEUE, None) st)
      else let (cmd, s) = new_mlcl_command EMPTY NoBody (cq_objs st)
           in submit_and_wait garbage command_queue cmd True False (with_objs s st))"

section \<open>Releasing objects\<close>

(* src/il/ocl_api.cc:560-571 clReleaseKernel *)
definition clReleaseKernel :: "int \<Rightarrow> ptr option \<Rightarrow> cq_state \<Rightarrow> (int \<times> cq_state) res" where
  "clReleaseKernel garbage krn st =
     (case krn of
        None \<Rightarrow> Inr (CL_INVALID_KERNEL, st)
      | Some p \<Rightarrow> bindr (kernel_down (cq_objs st) p) (\<lambda>s. Inr (garbage, with_objs s st)))"

(* src/il/ocl_api.cc:573-584 clReleaseMemObject *)
definition clReleaseMemObject :: "int \<Rightarrow> ptr option \<Rightarrow> cq_state \<Rightarrow> (int \<times> cq_state) res" where
  "clReleaseMemObject garbage memobj st =
     (case memobj of
        None \<Rightarrow> Inr (CL_INVALID_MEM_OBJECT, st)
      | Some p \<Rightarrow> bindr (mem_down (cq_objs st) p) (\<lambda>s. Inr (garbage, with_objs s st)))"

(* src/il/ocl_api.cc:586-597 clReleaseCommandQueue *)
definition clReleaseCommandQueue :: "int \<Rightarrow> ptr option \<Rightarrow> cq_state \<Rightarrow> (int \<times> cq_state) res" where
  "clReleaseCommandQueue garbage command_queue st =
     (if command_queue = None then Inr (CL_INVALID_COMMAND_QUEUE, st)
      else bindr (ml_cmd_q_ref_cnt_down command_queue st) (\<lambda>st1. Inr (garbage, st1)))"

(* src/il/ocl_api.cc:599-610 clReleaseProgram *)
definition clReleaseProgram :: "int \<Rightarrow> ptr option \<Rightarrow> cq_state \<Rightarrow> (int \<times> cq_state) res" where
  "clReleaseProgram garbage program st =
     (case program of
        None \<Rightarrow> Inr (CL_INVALID_PROGRAM, st)
      | Some p \<Rightarrow> bindr (heap_down (o_programs (cq_objs st)) p) (\<lambda>h.
                    Inr (garbage, with_objs ((cq_objs st)\<lparr>o_programs := h\<rparr>) st)))"

(* src/il/ocl_api.cc:612-623 clReleaseContext *)
definition clReleaseContext :: "int \<Rightarrow> ptr option \<Rightarrow> cq_state \<Rightarrow> (int \<times> cq_state) res" where
  "clReleaseContext garbage ctx st =
     (case ctx of
        None \<Rightarrow> Inr (CL_INVALID_CONTEXT, st)
      | Some p \<Rightarrow> bindr (heap_down (o_contexts (cq_objs st)) p) (\<lambda>h.
                    Inr (garbage, with_objs ((cq_objs st)\<lparr>o_contexts := h\<rparr>) st)))"

section \<open>Buffers\<close>

(* src/il/CL/cl.h:397-397 CL_MEM_USE_HOST_PTR *)
definition CL_MEM_USE_HOST_PTR :: u64 where "CL_MEM_USE_HOST_PTR = 8"
(* src/il/CL/cl.h:398-398 CL_MEM_ALLOC_HOST_PTR *)
definition CL_MEM_ALLOC_HOST_PTR :: u64 where "CL_MEM_ALLOC_HOST_PTR = 16"

text \<open>
  The two flags exclude each other, so at most one of the two writes is made, through a queue of
  its own. The object is registered in the context before the flags are checked.
\<close>

(* src/il/ocl_api.cc:292-301 clCreateBuffer (write) *)
definition write_through ::
  "(nat \<Rightarrow> mlcl_command) \<Rightarrow> RC \<Rightarrow> ptr \<Rightarrow> u64 \<Rightarrow> u64 option \<Rightarrow> bool \<Rightarrow> cq_state \<Rightarrow>
     (ptr option \<times> int option) call res" where
  "write_through junk garbage mem sz host errcode_ret st =
     bindr (clCreateCommandQueue junk st) (\<lambda>(cmdq, st1).
     bindr (clEnqueueWriteBuffer garbage (Some cmdq) (Some mem) True 0 sz host False st1) (\<lambda>c.
       bind_call c (\<lambda>(rc, _) st2.
         bindr (clReleaseCommandQueue 0 (Some cmdq) st2) (\<lambda>(_, st3).
           Inr (Done (Some mem, if errcode_ret then Some rc else None) st3)))))"

(* src/il/ocl_api.cc:266-321 clCreateBuffer *)
definition clCreateBuffer ::
  "(nat \<Rightarrow> mlcl_command) \<Rightarrow> RC \<Rightarrow> ptr option \<Rightarrow> u64 \<Rightarrow> u64 \<Rightarrow> u64 option \<Rightarrow> bool \<Rightarrow> cq_state \<Rightarrow>
     (ptr option \<times> int option) call res" where
  "clCreateBuffer junk garbage ctx mem_flags sz host_ptr errcode_ret st =
     (let (mem, st1) = new_mem_obj st
      in bindr (nonnull ctx) (\<lambda>cp. bindr (deref (o_contexts (cq_objs st1)) cp) (\<lambda>c.
           let st2 = with_objs ((cq_objs st1)\<lparr>o_contexts := (o_contexts (cq_objs st1))(cp \<mapsto> snd (add_mem_obj c mem))\<rparr>) st1
           in if mem_flags AND CL_MEM_USE_HOST_PTR \<noteq> 0 \<and> mem_flags AND CL_MEM_ALLOC_HOST_PTR \<noteq> 0
              then Inr (Done (None, if errcode_ret then Some CL_INVALID_VALUE else None) st2)
              else if host_ptr \<noteq> None \<and> mem_flags AND CL_MEM_USE_HOST_PTR \<noteq> 0
              then write_through junk garbage mem sz host_ptr errcode_ret st2
              else if mem_flags AND CL_MEM_ALLOC_HOST_PTR \<noteq> 0
              then write_through junk garbage mem sz None errcode_ret st2
              else Inr (Done (Some mem, None) st2))))"

section \<open>Device information\<close>

(* src/il/CL/cl.h:225-225 CL_DEVICE_TYPE_ACCELERATOR *)
definition CL_DEVICE_TYPE_ACCELERATOR :: nat where "CL_DEVICE_TYPE_ACCELERATOR = 8"
(* src/il/CL/cl.h:230-230 CL_DEVICE_TYPE *)
definition CL_DEVICE_TYPE :: u32 where "CL_DEVICE_TYPE = 0x1000"
(* src/il/CL/cl.h:274-274 CL_DEVICE_NAME *)
definition CL_DEVICE_NAME :: u32 where "CL_DEVICE_NAME = 0x102B"
(* src/il/CL/cl.h:275-275 CL_DEVICE_VENDOR *)
definition CL_DEVICE_VENDOR :: u32 where "CL_DEVICE_VENDOR = 0x102C"

definition copy_info :: "byte list \<Rightarrow> u64 \<Rightarrow> u64 \<Rightarrow> cq_state \<Rightarrow> (int \<times> cq_state) res" where
  "copy_info bs param_value_size p st =
     (if param_value_size < of_nat (length bs) then Inr (CL_INVALID_VALUE, st)
      else bindr (user_write p bs st) (\<lambda>st1. Inr (CL_SUCCESS, st1)))"

(* src/il/ocl_api.cc:625-694 clGetDeviceInfo *)
definition clGetDeviceInfo :: "u32 \<Rightarrow> u64 \<Rightarrow> u64 option \<Rightarrow> cq_state \<Rightarrow> (int \<times> cq_state) res" where
  "clGetDeviceInfo param_name param_value_size param_value st =
     (case param_value of
        None \<Rightarrow> Inr (CL_INVALID_VALUE, st)
      | Some p \<Rightarrow>
          (if param_name = CL_DEVICE_NAME
           then copy_info (c_bytes ''FPGA_ACCEL'' @ [0]) param_value_size p st
           else if param_name = CL_DEVICE_VENDOR
           then copy_info (c_bytes ''ECOSCALE Consortium'' @ [0]) param_value_size p st
           else if param_name = CL_DEVICE_TYPE
           then copy_info (le_bytes 4 CL_DEVICE_TYPE_ACCELERATOR) param_value_size p st
           else Inr (CL_INVALID_VALUE, st)))"

end
