(* ===== verification/Lost_Events.thy ===== *)
theory Lost_Events
  imports Cmd_Queue
begin

text \<open>
  Events that nobody will complete. An event is lost when it is not complete, no launch holds it,
  and the only waiting commands that hold it are the empty ones of \<open>clFinish\<close>. Every step of the
  event loop keeps it lost.
\<close>

section \<open>Operations on the objects\<close>

text \<open>An operation that does not change the state of an event, though it may count its references.\<close>

definition keeps_event :: "ptr \<Rightarrow> objs \<Rightarrow> objs \<Rightarrow> bool" where
  "keeps_event e s s' \<longleftrightarrow> o_next s \<le> o_next s' \<and>
     (\<forall>ev'. o_events s' e = Some ev' \<longrightarrow>
        (\<exists>ev. o_events s e = Some ev \<and> m_event_state ev' = m_event_state ev))"

lemma keeps_event_refl [simp]: "keeps_event e s s"
  by (simp add: keeps_event_def)

lemma keeps_event_trans [trans]:
  assumes "keeps_event e s s'" and "keeps_event e s' s''"
  shows "keeps_event e s s''"
  using assms unfolding keeps_event_def by (metis le_trans)

named_theorems keeps "operations that do not change an event"

lemma keeps_other [keeps]:
  "mem_down s p = Inr s' \<Longrightarrow> keeps_event e s s'" "mem_up s p = Inr s' \<Longrightarrow> keeps_event e s s'"
  "kernel_down s p = Inr s' \<Longrightarrow> keeps_event e s s'" "kernel_up s p = Inr s' \<Longrightarrow> keeps_event e s s'"
  by (auto simp: keeps_event_def mem_down_def mem_up_def kernel_down_def kernel_up_def bindr_Inr_iff)

lemma keeps_event_down [keeps]: "event_down s p = Inr s' \<Longrightarrow> keeps_event e s s'"
  by (auto simp: keeps_event_def event_down_def heap_down_def bindr_Inr_iff deref_Inr_iff
      dest: ref_cnt_down_state split: if_splits)

lemma keeps_event_up [keeps]: "event_up s p = Inr s' \<Longrightarrow> keeps_event e s s'"
  by (auto simp: keeps_event_def event_up_def heap_up_def bindr_Inr_iff deref_Inr_iff ref_cnt_up_def
      split: if_splits)

lemma keeps_update_event [keeps]:
  "update_event s p f = Inr s' \<Longrightarrow> (\<And>ev. m_event_state (f ev) = m_event_state ev) \<Longrightarrow> keeps_event e s s'"
  by (auto simp: keeps_event_def update_event_def bindr_Inr_iff deref_Inr_iff split: if_splits)

lemma keeps_complete_event [keeps]:
  "complete_event s p = Inr (s', cb) \<Longrightarrow> p \<noteq> e \<Longrightarrow> keeps_event e s s'"
  by (auto simp: keeps_event_def complete_event_def bindr_Inr_iff)

lemma keeps_delete_NDRange [keeps]: "delete_NDRange nd s = Inr s' \<Longrightarrow> keeps_event e s s'"
  unfolding delete_NDRange_def bindr_Inr_iff by (metis keeps_event_down keeps_other(3) keeps_event_trans)

lemma keeps_new_NDRange [keeps]: "new_NDRange k p rs x y z s = Inr (r, s') \<Longrightarrow> keeps_event e s s'"
  unfolding new_NDRange_def Let_def bindr_Inr_iff
  by (auto split: if_splits intro: keeps_event_trans [OF keeps_other(4) keeps_event_up])

lemma keeps_delete_derived [keeps]: "delete_derived b s = Inr s' \<Longrightarrow> keeps_event e s s'"
  by (auto simp: delete_derived_def bindr_Inr_iff split: cmd_body.splits dest: keeps_other)

lemma keeps_delete_command [keeps]:
  assumes "delete_command c s = Inr s'"
  shows "keeps_event e s s'"
proof -
  obtain s1 where s1: "delete_derived (m_body c) s = Inr s1"
      "(case m_event c of None \<Rightarrow> Inr s1 | Some e \<Rightarrow> event_down s1 e) = Inr s'"
    using assms(1) by (auto simp: delete_command_def bindr_Inr_iff)
  have "keeps_event e s1 s'"
    using s1(2) keeps_event_down by (auto split: option.splits)
  then show ?thesis using keeps_delete_derived [OF s1(1)] keeps_event_trans by blast
qed

section \<open>Launches and schedulers\<close>

definition nd_lost :: "ptr \<Rightarrow> nd_store \<Rightarrow> bool" where
  "nd_lost e st \<longleftrightarrow>
     (\<forall>ev. o_events (ns_objs st) e = Some ev \<longrightarrow> \<not> wait_is_over ev) \<and>
     e < o_next (ns_objs st) \<and> (\<forall>p nd. ns_ndranges st p = Some nd \<longrightarrow> n_event nd \<noteq> e)"

lemma nd_lost_keeps:
  assumes "nd_lost e st" and "keeps_event e (ns_objs st) (ns_objs st')"
    and "\<And>p nd. ns_ndranges st' p = Some nd \<Longrightarrow>
      n_event nd \<noteq> e \<or> (\<exists>nd0. ns_ndranges st p = Some nd0 \<and> n_event nd = n_event nd0)"
  shows "nd_lost e st'"
  using assms unfolding nd_lost_def keeps_event_def wait_is_over_def by fastforce

lemma decrement_lost:
  assumes d: "decrement_wgrs_counter st p = Inr (st', cbs)" and f: "nd_lost e st"
  shows "nd_lost e st'"
proof -
  obtain nd where nd: "ns_ndranges st p = Some nd"
    using d by (auto simp: decrement_wgrs_counter_def bindr_Inr_iff deref_Inr_iff)
  have ne: "n_event nd \<noteq> e" using f nd by (simp add: nd_lost_def)
  show ?thesis
  proof (cases "n_wgrs_in_the_wild nd = 1")
    case True
    let ?nd = "nd\<lparr>n_wgrs_in_the_wild := 0\<rparr>"
    obtain s1 cb s2 where s: "complete_event (ns_objs st) (n_event nd) = Inr (s1, cb)"
        "delete_NDRange ?nd s1 = Inr s2"
        "st' = st\<lparr>ns_objs := s2, ns_ndranges := (ns_ndranges st)(p := None)\<rparr>"
      using d nd True by (auto simp: decrement_wgrs_counter_def bindr_Inr_iff Let_def)
    have "keeps_event e (ns_objs st) s1" by (rule keeps_complete_event [OF s(1) ne])
    moreover have "keeps_event e s1 s2" by (rule keeps_delete_NDRange [OF s(2)])
    ultimately have "keeps_event e (ns_objs st) (ns_objs st')" using s(3) keeps_event_trans by simp
    then show ?thesis by (rule nd_lost_keeps [OF f]) (auto simp: s(3) split: if_splits)
  next
    case False
    then have "st' = st\<lparr>ns_ndranges := (ns_ndranges st)(p \<mapsto> nd\<lparr>n_wgrs_in_the_wild := n_wgrs_in_the_wild nd - 1\<rparr>)\<rparr>"
      using d nd by (simp add: decrement_wgrs_counter_def Let_def)
    then show ?thesis using nd by (intro nd_lost_keeps [OF f]) (auto split: if_splits)
  qed
qed

text \<open>The same for the dispatcher's state.\<close>

abbreviation ml_lost :: "ptr \<Rightarrow> ml_state \<Rightarrow> bool" where
  "ml_lost e w \<equiv> nd_lost e (ss_store (ml_sched w))"

lemma same_launches_lost:
  assumes "nd_lost e st" and "same_launches st st'"
  shows "nd_lost e st'"
  by (rule nd_lost_keeps [OF assms(1)])
    (use assms(2) same_launchesD [OF assms(2)] in \<open>auto simp: same_launches_def keeps_event_def\<close>)

lemma put_objs_lost:
  assumes "ml_lost e w" and "keeps_event e (ml_objs w) s"
  shows "ml_lost e (put_objs s w)"
  by (rule nd_lost_keeps [OF assms(1)]) (use assms(2) in \<open>auto simp: put_objs_def\<close>)

lemma fire_lost:
  assumes "fire_scheduler lv i w = Inr (w', cbs)" and "nd_lost e (ss_store w)"
  shows "nd_lost e (ss_store w')"
  using fire_decrements [OF assms(1)] decrement_lost assms(2) by blast

lemma on_free_schedulers_store:
  assumes "on_free_schedulers lv tr al w = Inr (al', w')"
  shows "same_launches (ss_store w) (ss_store w')"
proof (cases "ca_empty (m_ndranges al) \<or> ca_empty (f_free_schedulers (ss_free w))")
  case True
  then show ?thesis using assms by (simp add: on_free_schedulers_def Let_def)
next
  case False
  show ?thesis
    using assms unfolding on_free_schedulers_def Let_def if_not_P [OF False] bindr_Inr_iff
    by (auto simp: bindr_Inr_iff dest!: submit_wgr_store carve_at_store split: if_splits)
qed

lemma free_on_timer_lost:
  assumes "free_on_timer lv tr al w = Inr (al', w')" and "nd_lost e (ss_store w)"
  shows "nd_lost e (ss_store w')"
  using assms same_launches_lost on_free_schedulers_store
  by (fastforce simp: free_on_timer_def bindr_Inr_iff split: if_splits)


lemma handle_write_lost:
  assumes "handle_write_command env mem sz host w = Inr (c, w')" and "ml_lost e w"
  shows "ml_lost e w'"
proof -
  obtain u u1 where u: "allocate_unimem (e_linux env) (e_malloc_ok env) (e_unimem env) sz (ml_uni w) = (u, u1)"
    by fastforce
  have "keeps_event e (ml_objs w) ((ml_objs w)\<lparr>o_mems := m\<rparr>)" for m by (simp add: keeps_event_def)
  then show ?thesis
    using assms u by (auto simp: handle_write_command_def bindr_Inr_iff
      intro!: put_objs_lost split: if_splits)
qed

lemma handle_read_lost:
  assumes "handle_read_command env mem sz host w = Inr (c, w')" and "ml_lost e w"
  shows "ml_lost e w'"
  using assms by (auto simp: handle_read_command_def bindr_Inr_iff split: if_splits option.splits)

lemma finish_command_lost:
  assumes "finish_command ev c w = Inr (w', cbs)" and "ev \<noteq> Some e" and "ml_lost e w"
  shows "ml_lost e w'"
proof -
  obtain p s1 s2 cb where p: "ev = Some p" "update_event (ml_objs w) p (\<lambda>ev. set_error ev c) = Inr s1"
      "complete_event s1 p = Inr (s2, cb)" "w' = put_objs s2 w"
    using assms(1) by (cases ev) (auto simp: finish_command_def bindr_Inr_iff)
  have "p \<noteq> e" using p(1) assms(2) by simp
  have "keeps_event e (ml_objs w) s1" by (rule keeps_update_event [OF p(2)]) (simp add: set_error_def)
  also have "keeps_event e s1 s2" by (rule keeps_complete_event [OF p(3) \<open>p \<noteq> e\<close>])
  finally have "keeps_event e (ml_objs w) s2" .
  then show ?thesis using put_objs_lost [OF assms(3)] p(4) by simp
qed

lemma handle_ndrange_lost:
  assumes h: "handle_ndrange_command env k gsize lsize ev w = Inr w'" and "ev \<noteq> Some e" and f: "ml_lost e w"
  shows "ml_lost e w'"
proof (cases "w' = w")
  case True
  then show ?thesis using f by simp
next
  case False
  let ?st = "ss_store (ml_sched w)"
  obtain kp p rs n nd s2 rc a sw where p: "ev = Some p"
      "new_NDRange kp p rs n 1 1 (snd (fresh (ml_objs w))) = Inr (Inr nd, s2)"
    and r: "simple_route_ndrange (e_libev env) (e_tracker env) (Some (o_next (ml_objs w))) (ml_simple w)
       ((ml_sched w)\<lparr>ss_store := ?st\<lparr>ns_objs := s2, ns_ndranges := (ns_ndranges ?st)(o_next (ml_objs w) \<mapsto> nd)\<rparr>\<rparr>) =
       Inr (rc, a, sw)" "w' = w\<lparr>ml_simple := a, ml_sched := sw\<rparr>"
    using h False by (cases ev)
      (auto simp: handle_ndrange_command_def bindr_Inr_iff Let_def fresh_def split_beta split: option.splits if_splits)
  have ne: "p \<noteq> e" using p(1) assms(2) by simp
  have "keeps_event e (ml_objs w) (snd (fresh (ml_objs w)))" by (simp add: keeps_event_def fresh_def)
  then have k: "keeps_event e (ml_objs w) s2" using keeps_new_NDRange [OF p(2)] keeps_event_trans by blast
  have nd: "n_event nd = p"
    using p(2) by (auto simp: new_NDRange_def Let_def bindr_Inr_iff split: if_splits)
  have "nd_lost e (?st\<lparr>ns_objs := s2, ns_ndranges := (ns_ndranges ?st)(o_next (ml_objs w) \<mapsto> nd)\<rparr>)"
    by (rule nd_lost_keeps [OF f]) (use k nd ne in \<open>auto split: if_splits\<close>)
  then have "nd_lost e (ss_store sw)"
    by (rule same_launches_lost) (use simple_route_store [OF r(1)] in simp)
  then show ?thesis using r(2) by simp
qed

text \<open>A command that may hold a lost event.\<close>

definition harmless :: "ptr \<Rightarrow> mlcl_command \<Rightarrow> bool" where
  "harmless e cmd \<longleftrightarrow> (m_event cmd = Some e \<longrightarrow> m_command_type cmd = EMPTY)"

lemma handle_a_cmd_lost:
  assumes h: "handle_a_cmd env cmd w = Inr (w', cbs)" and e: "harmless e cmd" and f: "ml_lost e w"
  shows "ml_lost e w'"
proof (cases "m_command_type cmd")
  case WRITE_BUFFER
  then obtain mem off sz p c w1 where "handle_write_command env mem sz p w = Inr (c, w1)"
      "finish_command (m_event cmd) c w1 = Inr (w', cbs)"
    using h by (auto simp: handle_a_cmd_def bindr_Inr_iff split: cmd_body.splits)
  moreover have "m_event cmd \<noteq> Some e" using WRITE_BUFFER e by (simp add: harmless_def)
  ultimately show ?thesis using handle_write_lost finish_command_lost f by blast
next
  case READ_BUFFER
  then obtain mem off sz p c w1 where "handle_read_command env mem sz p w = Inr (c, w1)"
      "finish_command (m_event cmd) c w1 = Inr (w', cbs)"
    using h by (auto simp: handle_a_cmd_def bindr_Inr_iff split: cmd_body.splits)
  moreover have "m_event cmd \<noteq> Some e" using READ_BUFFER e by (simp add: harmless_def)
  ultimately show ?thesis using handle_read_lost finish_command_lost f by blast
next
  case NDRANGE
  then obtain k gs ls where "handle_ndrange_command env k gs ls (m_event cmd) w = Inr w'"
    using h by (auto simp: handle_a_cmd_def bindr_Inr_iff split: cmd_body.splits)
  moreover have "m_event cmd \<noteq> Some e" using NDRANGE e by (simp add: harmless_def)
  ultimately show ?thesis using handle_ndrange_lost f by blast
next
  case EMPTY
  then show ?thesis using h f by (simp add: handle_a_cmd_def)
qed

section \<open>Command queues\<close>

text \<open>An event nobody will complete; the rings are well formed.\<close>

definition lost :: "ptr \<Rightarrow> cq_state \<Rightarrow> bool" where
  "lost e st \<longleftrightarrow> ml_lost e (cq_ml st) \<and>
     (\<forall>q cq. cq_queues st q = Some cq \<longrightarrow> ca_wf (q_ring_buffer cq) \<and>
        (\<forall>c\<in>set (ca_list (q_ring_buffer cq)). harmless e c))"

lemma lost_marks [simp]:
  "lost e (st\<lparr>cq_fed := F\<rparr>) = lost e st" "lost e (st\<lparr>cq_sent := F\<rparr>) = lost e st"
  "lost e (st\<lparr>cq_command_id := i\<rparr>) = lost e st"
  by (simp_all add: lost_def)

lemma lost_ml: "lost e st \<Longrightarrow> ml_lost e w \<Longrightarrow> lost e (st\<lparr>cq_ml := w\<rparr>)"
  by (simp add: lost_def)

lemma lost_objs: "lost e st \<Longrightarrow> keeps_event e (cq_objs st) s \<Longrightarrow> lost e (with_objs s st)"
  unfolding with_objs_def by (rule lost_ml) (auto simp: lost_def intro: put_objs_lost)

lemma lost_queue:
  assumes "lost e st" and "ca_wf (q_ring_buffer cq)"
    and "\<forall>c\<in>set (ca_list (q_ring_buffer cq)). harmless e c"
  shows "lost e (set_queue q cq st)"
  using assms by (simp add: lost_def set_queue_def)

lemma check_self_destroy_lost:
  "check_self_destroy q st = Inr st' \<Longrightarrow> lost e st \<Longrightarrow> lost e st'"
  by (auto simp: check_self_destroy_def bindr_Inr_iff delete_queue_def lost_def split: if_splits)

lemma on_event_complete_lost:
  assumes "foldr_res on_event_complete cbs st = Inr st'" and "lost e st"
  shows "lost e st'"
proof (rule foldr_res_invariant [where P = "lost e", OF _ assms(2,1)])
  show "lost e s'" if "lost e s" "on_event_complete cb s = Inr s'" for cb s s'
    using that by (cases cb) (auto simp: bindr_Inr_iff)
qed

lemma set_last_event_steps:
  assumes "set_last_event q ev st = Inr st'"
  obtains cq s1 p s2 s3 where "cq_queues st q = Some cq"
    "(case q_last_event cq of None \<Rightarrow> Inr (cq_objs st) | Some l \<Rightarrow> event_down (cq_objs st) l) = Inr s1"
    "ev = Some p" "event_up s1 p = Inr s2"
    "update_event s2 p (\<lambda>ev. register_on_complete_cb_func ev (On_event_complete q)) = Inr s3"
    "st' = set_queue q (cq\<lparr>q_last_event := ev\<rparr>) (with_objs s3 st)"
proof -
  obtain cq s1 p s2 s3 where cq: "deref (cq_queues st) q = Inr cq"
    and s: "(case q_last_event cq of None \<Rightarrow> Inr (cq_objs st) | Some l \<Rightarrow> event_down (cq_objs st) l) = Inr s1"
      "nonnull ev = Inr p" "event_up s1 p = Inr s2"
      "update_event s2 p (\<lambda>ev. register_on_complete_cb_func ev (On_event_complete q)) = Inr s3"
      "Inr (set_queue q (cq\<lparr>q_last_event := ev\<rparr>) (with_objs s3 st)) = (Inr st' :: cq_state res)"
    using assms unfolding set_last_event_def bindr_Inr_iff by (elim exE conjE) (rule that)
  have "ev = Some p" using s(2) by (cases ev) simp_all
  moreover have "st' = set_queue q (cq\<lparr>q_last_event := ev\<rparr>) (with_objs s3 st)" using s(5) by (simp only: sum.inject)
  moreover have "cq_queues st q = Some cq" using cq by (simp add: deref_Inr_iff)
  ultimately show ?thesis using that s by blast
qed

lemma set_last_event_lost:
  assumes s: "set_last_event q ev st = Inr st'" and f: "lost e st"
  shows "lost e st'"
proof -
  obtain cq s1 p s2 s3 where cq: "cq_queues st q = Some cq"
    and s1: "(case q_last_event cq of None \<Rightarrow> Inr (cq_objs st) | Some l \<Rightarrow> event_down (cq_objs st) l) = Inr s1"
    and p: "ev = Some p" "event_up s1 p = Inr s2"
      "update_event s2 p (\<lambda>ev. register_on_complete_cb_func ev (On_event_complete q)) = Inr s3"
      "st' = set_queue q (cq\<lparr>q_last_event := ev\<rparr>) (with_objs s3 st)"
    using set_last_event_steps [OF s] by blast
  have "keeps_event e (cq_objs st) s1" using s1 keeps_event_down by (auto split: option.splits)
  also have "keeps_event e s1 s2" by (rule keeps_event_up [OF p(2)])
  also have "keeps_event e s2 s3" by (rule keeps_update_event [OF p(3)]) (simp add: register_on_complete_cb_func_def)
  finally have "lost e (with_objs s3 st)" by (rule lost_objs [OF f])
  then show ?thesis unfolding p(4)
    by (rule lost_queue) (use f cq in \<open>auto simp: lost_def\<close>)
qed

lemma go_on_lost: "go_on q st = Inr st' \<Longrightarrow> lost e st \<Longrightarrow> lost e st'"
  using check_self_destroy_lost by (auto simp: go_on_def bindr_Inr_iff split: if_splits)

lemma serve_command_lost:
  assumes s: "serve_command env q cmd st = Inr st'" and f: "lost e st" and cmd: "harmless e cmd"
  shows "lost e st'"
proof -
  obtain st1 w2 cbs st3 st4 s5 where s: "set_last_event q (m_event cmd) st = Inr st1"
      "handle_a_cmd env cmd (cq_ml st1) = Inr (w2, cbs)"
      "foldr_res on_event_complete cbs (st1\<lparr>cq_ml := w2\<rparr>) = Inr st3" "go_on q st3 = Inr st4"
      "delete_command cmd (cq_objs st4) = Inr s5" "st' = with_objs s5 st4"
    using s by (auto simp: serve_command_def bindr_Inr_iff)
  have f1: "lost e st1" by (rule set_last_event_lost [OF s(1) f])
  then have "ml_lost e w2" using handle_a_cmd_lost [OF s(2) cmd] by (simp add: lost_def)
  then have "lost e (st1\<lparr>cq_ml := w2\<rparr>)" by (rule lost_ml [OF f1])
  then have "lost e st4" using on_event_complete_lost [OF s(3)] go_on_lost [OF s(4)] by blast
  then show ?thesis unfolding s(6) by (rule lost_objs) (rule keeps_delete_command [OF s(5)])
qed

text \<open>What the callback of a queue does: it deletes the queue, waits, or serves the oldest command.\<close>

lemma on_new_cmd_cases:
  assumes s: "on_new_cmd_cb env q st = Inr st'" and wf: "\<And>cq. cq_queues st q = Some cq \<Longrightarrow> ca_wf (q_ring_buffer cq)"
  obtains (empty) cq where "cq_queues st q = Some cq" "ca_list (q_ring_buffer cq) = []" "check_self_destroy q st = Inr st'"
  | (busy) cq l s where "cq_queues st q = Some cq" "q_last_event cq = Some l"
      "event_state (cq_objs st) l = Inr s" "s \<noteq> CL_COMPLETE" "st' = st"
  | (pop) cq c cs r where "cq_queues st q = Some cq" "ca_list (q_ring_buffer cq) = c # cs" "ca_wf r" "ca_list r = cs"
      "ca_bound r = ca_bound (q_ring_buffer cq)"
      "\<And>l. q_last_event cq = Some l \<Longrightarrow> event_state (cq_objs st) l = Inr CL_COMPLETE"
      "serve_command env q c (set_queue q (cq\<lparr>q_ring_buffer := r\<rparr>) st) = Inr st'"
proof -
  obtain cq where cq: "cq_queues st q = Some cq" using s by (auto simp: on_new_cmd_cb_def bindr_Inr_iff deref_Inr_iff)
  show ?thesis
  proof (cases "cq_is_empty cq")
    case True
    then show ?thesis using empty [OF cq] s cq by (simp add: on_new_cmd_cb_def cq_is_empty_def ca_empty_iff)
  next
    case False
    obtain r where r: "cq_pop_front cq = Inr (Some (hd (ca_list (q_ring_buffer cq))), cq\<lparr>q_ring_buffer := r\<rparr>)"
        "ca_wf r" "ca_list r = tl (ca_list (q_ring_buffer cq))" "ca_bound r = ca_bound (q_ring_buffer cq)"
      using cq_pop_front_ok [OF wf [OF cq] False] by blast
    obtain c cs where l: "ca_list (q_ring_buffer cq) = c # cs"
      using False by (cases "ca_list (q_ring_buffer cq)") (auto simp: cq_is_empty_def ca_empty_iff)
    let ?last = "case q_last_event cq of None \<Rightarrow> Inr CL_COMPLETE | Some l \<Rightarrow> event_state (cq_objs st) l"
    have s1: "bindr ?last (\<lambda>last. if last \<noteq> CL_COMPLETE then Inr st
        else serve_command env q c (set_queue q (cq\<lparr>q_ring_buffer := r\<rparr>) st)) = Inr st'"
      using s cq False r(1) l by (simp add: on_new_cmd_cb_def cong: if_cong)
    then obtain v where v: "?last = Inr v" by (cases ?last) simp_all
    show ?thesis
    proof (cases "v = CL_COMPLETE")
      case True
      have "event_state (cq_objs st) l = Inr CL_COMPLETE" if "q_last_event cq = Some l" for l
        using v True that by simp
      moreover have "serve_command env q c (set_queue q (cq\<lparr>q_ring_buffer := r\<rparr>) st) = Inr st'"
        using s1 v True by simp
      ultimately show ?thesis using pop [OF cq l r(2) _ r(4)] r(3) l by simp
    next
      case nc: False
      obtain p where p: "q_last_event cq = Some p" using v nc by (cases "q_last_event cq") simp_all
      have "event_state (cq_objs st) p = Inr v" using v p by simp
      moreover have "st' = st" using s1 v nc by simp
      ultimately show ?thesis using busy [OF cq p _ nc] by blast
    qed
  qed
qed

lemma on_new_cmd_lost:
  assumes s: "on_new_cmd_cb env q st = Inr st'" and f: "lost e st"
  shows "lost e st'"
proof -
  have wf: "ca_wf (q_ring_buffer cq)" if "cq_queues st q = Some cq" for cq
    using f that by (simp add: lost_def)
  show ?thesis
  proof (rule on_new_cmd_cases [OF s wf])
    fix cq c cs r
    assume h: "cq_queues st q = Some cq" "ca_list (q_ring_buffer cq) = c # cs" "ca_wf r" "ca_list r = cs"
      "serve_command env q c (set_queue q (cq\<lparr>q_ring_buffer := r\<rparr>) st) = Inr st'"
    have nm: "\<forall>c\<in>set (ca_list (q_ring_buffer cq)). harmless e c" using f h(1) by (simp add: lost_def)
    have "lost e (set_queue q (cq\<lparr>q_ring_buffer := r\<rparr>) st)"
      by (rule lost_queue [OF f]) (use h nm in auto)
    then show ?thesis using serve_command_lost [OF h(5)] nm h(2) by simp
  qed (use f check_self_destroy_lost in auto)
qed

text \<open>No step of the loop completes a lost event.\<close>

lemma loop_step_lost:
  assumes "loop_step env st st'" and "lost e st"
  shows "lost e st'"
  using assms
proof cases
  case (serve q)
  then show ?thesis using on_new_cmd_lost assms(2) by (simp add: serve_watcher_def)
next
  case (expire i)
  obtain s cbs where s: "fire_scheduler (e_libev env) i (ml_sched (cq_ml st)) = Inr (s, cbs)"
      "foldr_res on_event_complete cbs (st\<lparr>cq_ml := (cq_ml st)\<lparr>ml_sched := s\<rparr>\<rparr>) = Inr st'"
    using expire by (auto simp: expire_scheduler_def bindr_Inr_iff)
  have "nd_lost e (ss_store s)" using fire_lost [OF s(1)] assms(2) by (simp add: lost_def)
  then have "lost e (st\<lparr>cq_ml := (cq_ml st)\<lparr>ml_sched := s\<rparr>\<rparr>)" by (intro lost_ml [OF assms(2)]) simp
  then show ?thesis by (rule on_event_complete_lost [OF s(2)])
next
  case free
  let ?w = "ml_sched (cq_ml st)"
  obtain al s f where s: "free_on_timer (e_libev env) (e_tracker env) (ml_slicing (cq_ml st)) (?w\<lparr>ss_free := f\<rparr>) = Inr (al, s)"
      "st' = st\<lparr>cq_ml := (cq_ml st)\<lparr>ml_slicing := al, ml_sched := s\<rparr>\<rparr>"
    using free by (auto simp: expire_free_def bindr_Inr_iff Let_def)
  have "nd_lost e (ss_store s)" using free_on_timer_lost [OF s(1)] assms(2) by (simp add: lost_def)
  then show ?thesis unfolding s(2) by (intro lost_ml [OF assms(2)]) simp
qed (use assms(2) in simp)

end
