(* ===== verification/Runs.thy ===== *)
theory Runs
  imports Ocl_Api Lost_Events "HOL-Library.Sublist"
begin

text \<open>
  Runs of the whole program: any number of user threads make OpenCL calls while the event loop
  works. A thread that blocks in a call goes on when its event is over. A call up to the point where
  it returns or blocks, and a callback of the loop, is one step. \<open>Queue_Threads\<close> shows that a command
  pushed in the middle of a queue's callback has the effect of one pushed before or after it. The rest of what
  the threads share (reference counts, events, the objects' contents) has no lock in the code; runs
  say nothing of executions in which two threads touch it at the same time.
\<close>

section \<open>Steps\<close>

datatype api_call =
    CreateContext bool
  | CreateProgram "ptr option" u32 "string option option" "u64 option" bool
  | BuildProgram "ptr option"
  | GetBuildInfo "ptr option" u32 u64 "u64 option" bool
  | CreateKernel "ptr option" bool
  | SetKernelArg "ptr option" u32 u64 "byte list option"
  | CreateQueue "nat \<Rightarrow> mlcl_command"
  | CreateBuffer "nat \<Rightarrow> mlcl_command" "ptr option" u64 u64 "u64 option" bool
  | EnqueueNDRange "ptr option" "ptr option" u32 "u64 option" "u64 option" "u64 option"
  | EnqueueWrite "ptr option" "ptr option" bool u64 u64 "u64 option" bool
  | EnqueueRead "ptr option" "ptr option" bool u64 u64 "u64 option" bool
  | Finish "ptr option"
  | ReleaseKernel "ptr option"
  | ReleaseMem "ptr option"
  | ReleaseQueue "ptr option"
  | ReleaseProgram "ptr option"
  | ReleaseContext "ptr option"
  | GetDeviceInfo u32 u64 "u64 option"

text \<open>The state when the call has returned or blocks.\<close>

fun call_state :: "'a call \<Rightarrow> cq_state" where
  "call_state (Done x st) = st"
| "call_state (Blocked e st k) = st"

fun api :: "ml_env \<Rightarrow> RC \<Rightarrow> api_call \<Rightarrow> cq_state \<Rightarrow> cq_state res" where
  "api env g (CreateContext er) st = Inr (snd (snd (clCreateContext er st)))"
| "api env g (CreateProgram c n str len er) st =
     bindr (clCreateProgramWithSource c n str len er st) (\<lambda>(_, _, st1). Inr st1)"
| "api env g (BuildProgram p) st = bindr (clBuildProgram env p st) (\<lambda>(_, st1). Inr st1)"
| "api env g (GetBuildInfo p n sz v r) st =
     bindr (clGetProgramBuildInfo 0 p n sz v r st) (\<lambda>(_, _, st1). Inr st1)"
| "api env g (CreateKernel p er) st = Inr (snd (snd (clCreateKernel p er st)))"
| "api env g (SetKernelArg k i sz v) st = bindr (clSetKernelArg k i sz v st) (\<lambda>(_, st1). Inr st1)"
| "api env g (CreateQueue junk) st = bindr (clCreateCommandQueue junk st) (\<lambda>(_, st1). Inr st1)"
| "api env g (CreateBuffer junk c f sz h er) st =
     bindr (clCreateBuffer junk g c f sz h er st) (\<lambda>c. Inr (call_state c))"
| "api env g (EnqueueNDRange q k d go gs ls) st =
     bindr (clEnqueueNDRangeKernel env g q k d go gs ls st) (\<lambda>(_, st1). Inr st1)"
| "api env g (EnqueueWrite q m b off sz p ev) st =
     bindr (clEnqueueWriteBuffer g q m b off sz p ev st) (\<lambda>c. Inr (call_state c))"
| "api env g (EnqueueRead q m b off sz p ev) st =
     bindr (clEnqueueReadBuffer g q m b off sz p ev st) (\<lambda>c. Inr (call_state c))"
| "api env g (Finish q) st = bindr (clFinish g q st) (\<lambda>c. Inr (call_state c))"
| "api env g (ReleaseKernel k) st = bindr (clReleaseKernel 0 k st) (\<lambda>(_, st1). Inr st1)"
| "api env g (ReleaseMem m) st = bindr (clReleaseMemObject 0 m st) (\<lambda>(_, st1). Inr st1)"
| "api env g (ReleaseQueue q) st = bindr (clReleaseCommandQueue 0 q st) (\<lambda>(_, st1). Inr st1)"
| "api env g (ReleaseProgram p) st = bindr (clReleaseProgram 0 p st) (\<lambda>(_, st1). Inr st1)"
| "api env g (ReleaseContext c) st = bindr (clReleaseContext 0 c st) (\<lambda>(_, st1). Inr st1)"
| "api env g (GetDeviceInfo n sz v) st = bindr (clGetDeviceInfo n sz v st) (\<lambda>(_, st1). Inr st1)"

text \<open>
  Time passes between steps. A thread whose wait is over drops its reference to the event; what
  else it does is a call of its own.
\<close>

inductive run_step :: "ml_env \<Rightarrow> cq_state \<Rightarrow> cq_state \<Rightarrow> bool" for env where
  loop: "loop_step env st st' \<Longrightarrow> run_step env st st'"
| call: "api env g c st = Inr st' \<Longrightarrow> run_step env st st'"
| tick: "run_step env st (st\<lparr>cq_ml := (cq_ml st)\<lparr>ml_sched := (ml_sched (cq_ml st))\<lparr>ss_now := now\<rparr>\<rparr>\<rparr>)"
| resume: "o_events (cq_objs st) e = Some ev \<Longrightarrow> wait_is_over ev \<Longrightarrow> event_down (cq_objs st) e = Inr s \<Longrightarrow>
     run_step env st (with_objs s st)"

inductive_cases run_stepE: "run_step env st st'"

abbreviation runs :: "ml_env \<Rightarrow> cq_state \<Rightarrow> cq_state \<Rightarrow> bool" where
  "runs env \<equiv> (run_step env)\<^sup>*\<^sup>*"

section \<open>Calls and lost events\<close>

text \<open>New objects leave the events there are alone.\<close>

lemma keeps_new [keeps]:
  "keeps_event e s (snd (fresh s))"
  "keeps_event e s (s\<lparr>o_mems := m\<rparr>)" "keeps_event e s (s\<lparr>o_kernels := k\<rparr>)"
  "keeps_event e s (s\<lparr>o_programs := p\<rparr>)" "keeps_event e s (s\<lparr>o_contexts := c\<rparr>)"
  by (simp_all add: keeps_event_def fresh_def)

lemma new_command_ok:
  assumes "new_mlcl_command t b s = (c, s')"
  shows "m_event c = Some (o_next s)" and "m_command_type c = t" and "e < o_next s \<Longrightarrow> keeps_event e s s'"
    and "o_events s' (o_next s) = Some new_cl_event" and "o_next s' = Suc (o_next s)"
  using assms by (auto simp: new_mlcl_command_def fresh_def keeps_event_def)

lemma lost_next: "lost e st \<Longrightarrow> e < o_next (cq_objs st)"
  by (simp add: lost_def nd_lost_def)

lemma new_commands_ok:
  assumes "e < o_next s"
  shows "new_MLCLCommandWB m off sz p s = Inr (c, s') \<Longrightarrow> keeps_event e s s' \<and> m_event c = Some (o_next s)"
    and "new_MLCLCommandRB m off sz p s = Inr (c, s') \<Longrightarrow> keeps_event e s s' \<and> m_event c = Some (o_next s)"
    and "new_MLCLCommandNDR k d go gs ls s = Inr (c, s') \<Longrightarrow> keeps_event e s s' \<and> m_event c = Some (o_next s)"
  unfolding new_MLCLCommandWB_def new_MLCLCommandRB_def new_MLCLCommandNDR_def Let_def
  using assms
  by (auto simp: bindr_Inr_iff split_beta intro: keeps_event_trans [OF new_command_ok(3) [OF surjective_pairing] keeps_other(2)]
      keeps_event_trans [OF new_command_ok(3) [OF surjective_pairing] keeps_other(4)] new_command_ok(1) [OF surjective_pairing]
      split: if_splits)

lemma push_back_lost:
  assumes p: "cq_push_back g q c st = Inr (rc, st')" and f: "lost e st" and c: "harmless e c"
  shows "lost e st'"
proof (cases "st' = st")
  case False
  then obtain cq x r where cq: "cq_queues st q = Some cq" "ca_push_back (q_ring_buffer cq) c False = Inr (x, r)"
      "st' = (set_queue q (cq\<lparr>q_ring_buffer := r\<rparr>) st)\<lparr>cq_sent := insert q (cq_sent st)\<rparr>"
    using p by (auto simp: cq_push_back_def bindr_Inr_iff deref_Inr_iff Let_def set_queue_def split: if_splits)
  have wf: "ca_wf (q_ring_buffer cq)" and nm: "\<forall>c\<in>set (ca_list (q_ring_buffer cq)). harmless e c"
    using f cq(1) by (auto simp: lost_def)
  obtain r' where "ca_enq c (q_ring_buffer cq) = Inr r'" "ca_wf r'"
      "ca_list r' = take (ca_bound (q_ring_buffer cq)) (ca_list (q_ring_buffer cq) @ [c])"
    using ca_fifo.enq_total [OF wf] by blast
  moreover from this have "r' = r" using cq(2) by (simp add: ca_enq_def)
  ultimately have "ca_wf r" "\<forall>c\<in>set (ca_list r). harmless e c"
    using nm c by (auto dest: in_set_takeD)
  then have "lost e (set_queue q (cq\<lparr>q_ring_buffer := r\<rparr>) st)" by (intro lost_queue [OF f]) auto
  then show ?thesis using cq(3) by simp
qed (use f in simp)

lemma submit_lost:
  assumes "ml_submit_cmd g q (Some c) i st = Inr (rc, j, st')" and "lost e st" and "harmless e c"
  shows "lost e st'"
  using assms push_back_lost
  by (fastforce simp: ml_submit_cmd_def bindr_Inr_iff Let_def harmless_def set_command_id_def split: option.splits)


lemma lost_ml_uni: "lost e st \<Longrightarrow> lost e (st\<lparr>cq_ml := (cq_ml st)\<lparr>ml_uni := u\<rparr>\<rparr>)"
  by (rule lost_ml) (simp_all add: lost_def)

lemma user_write_lost: "user_write p bs st = Inr st' \<Longrightarrow> lost e st \<Longrightarrow> lost e st'"
  by (auto simp: user_write_def Let_def lost_ml_uni split: if_splits)

lemma copy_log_lost: "copy_log l n p st = Inr st' \<Longrightarrow> lost e st \<Longrightarrow> lost e st'"
  using user_write_lost by (fastforce simp: copy_log_def Let_def bindr_Inr_iff)

lemma create_queue_lost:
  assumes "clCreateCommandQueue junk st = Inr (q, st')" and f: "lost e st"
  shows "lost e st'"
proof -
  obtain r where r: "ca_new junk 100 = Inr r"
      "st' = set_queue q \<lparr>q_ring_buffer = r, q_ref_counter = 1, q_last_event = None\<rparr>
         (with_objs (snd (fresh (cq_objs st))) st)"
    using assms(1) by (auto simp: clCreateCommandQueue_def ml_create_cmd_q_def create_new_def
        new_cmd_queue_def fresh_def bindr_Inr_iff)
  show ?thesis unfolding r(2)
    by (rule lost_queue [OF lost_objs [OF f keeps_new(1)]]) (use ca_new_ok [OF r(1)] in auto)
qed

lemma event_down_lost: "event_down (cq_objs st) x = Inr s \<Longrightarrow> lost e st \<Longrightarrow> lost e (with_objs s st)"
  by (rule lost_objs [OF _ keeps_event_down])

lemma handle_blocking_lost:
  "handle_blocking_non_blocking b x u st = Inr c \<Longrightarrow> lost e st \<Longrightarrow> lost e (call_state c)"
  by (auto simp: handle_blocking_non_blocking_def bindr_Inr_iff intro: event_down_lost split: if_splits)

lemma submit_and_wait_lost:
  assumes s: "submit_and_wait g q cmd b u st = Inr c" and f: "lost e st" and h: "harmless e cmd"
  shows "lost e (call_state c)"
proof -
  obtain x s1 rc i st1 where s1: "event_up (cq_objs st) x = Inr s1"
      "ml_submit_cmd g q (Some cmd) 0 (with_objs s1 st) = Inr (rc, i, st1)"
      "(if rc = FPML_ERR_INVALID_CMDQ
        then bindr (event_down (cq_objs st1) x) (\<lambda>s1. Inr (Done (CL_INVALID_COMMAND_QUEUE, None) (with_objs s1 st1)))
        else handle_blocking_non_blocking b x u st1) = Inr c"
    using s by (auto simp: submit_and_wait_def bindr_Inr_iff)
  have "lost e (with_objs s1 st)" by (rule lost_objs [OF f keeps_event_up [OF s1(1)]])
  then have f1: "lost e st1" by (rule submit_lost [OF s1(2) _ h])
  then show ?thesis using s1(3)
    by (auto simp: bindr_Inr_iff intro: event_down_lost handle_blocking_lost split: if_splits)
qed

text \<open>A command of a new call holds a new event.\<close>

lemma harmless_new: "m_event c = Some p \<Longrightarrow> p \<noteq> e \<Longrightarrow> harmless e c"
  by (simp add: harmless_def)

lemma enqueue_lost:
  assumes "lost e st"
  shows "clEnqueueWriteBuffer g q m b off sz p u st = Inr c \<Longrightarrow> lost e (call_state c)"
    and "clEnqueueReadBuffer g q m b off sz p u st = Inr c \<Longrightarrow> lost e (call_state c)"
    and "clFinish g q st = Inr c \<Longrightarrow> lost e (call_state c)"
proof -
  note n = lost_next [OF assms]
  have step: "lost e (call_state c)"
    if "keeps_event e (cq_objs st) s \<and> m_event cmd = Some (o_next (cq_objs st))"
      "submit_and_wait g q cmd b u (with_objs s st) = Inr c" for cmd s b u q
    by (rule submit_and_wait_lost [OF that(2)]) (use that(1) n assms in \<open>auto intro: lost_objs harmless_new\<close>)
  show "clEnqueueWriteBuffer g q m b off sz p u st = Inr c \<Longrightarrow> lost e (call_state c)"
    using assms by (auto simp: clEnqueueWriteBuffer_def bindr_Inr_iff dest!: new_commands_ok(1) [OF n]
      intro: step split: if_splits)
  show "clEnqueueReadBuffer g q m b off sz p u st = Inr c \<Longrightarrow> lost e (call_state c)"
    using assms by (auto simp: clEnqueueReadBuffer_def bindr_Inr_iff dest!: new_commands_ok(2) [OF n]
      intro: step split: if_splits)
  obtain cmd s where cmd: "new_mlcl_command EMPTY NoBody (cq_objs st) = (cmd, s)" by fastforce
  show "clFinish g q st = Inr c \<Longrightarrow> lost e (call_state c)"
    using new_command_ok(1,3) [OF cmd] n assms cmd
    by (auto simp: clFinish_def intro: step split: if_splits)
qed

lemma release_queue_lost: "clReleaseCommandQueue g q st = Inr (rc, st') \<Longrightarrow> lost e st \<Longrightarrow> lost e st'"
  by (auto simp: clReleaseCommandQueue_def ml_cmd_q_ref_cnt_down_def bindr_Inr_iff deref_Inr_iff
      cq_ref_cnt_down_def lost_def set_queue_def split: if_splits option.splits)

lemma write_through_lost:
  assumes w: "write_through junk g m sz h er st = Inr d" and f: "lost e st"
  shows "lost e (call_state d)"
proof -
  obtain q st1 c where c: "clCreateCommandQueue junk st = Inr (q, st1)"
      "clEnqueueWriteBuffer g (Some q) (Some m) True 0 sz h False st1 = Inr c"
      "bind_call c (\<lambda>(rc, _) st2. bindr (clReleaseCommandQueue 0 (Some q) st2) (\<lambda>(_, st3).
           Inr (Done (Some m, if er then Some rc else None) st3))) = Inr d"
    using w by (auto simp: write_through_def bindr_Inr_iff)
  have f1: "lost e (call_state c)" using create_queue_lost [OF c(1) f] enqueue_lost(1) c(2) by blast
  show ?thesis
  proof (cases c)
    case (Done x st2)
    then show ?thesis using c(3) f1 release_queue_lost by (auto simp: bindr_Inr_iff split_beta)
  next
    case (Blocked p st2 k)
    then have "call_state d = st2" using c(3) by auto
    then show ?thesis using f1 Blocked by simp
  qed
qed

lemma create_buffer_lost:
  assumes c: "clCreateBuffer junk g ctx fl sz h er st = Inr c" and f: "lost e st"
  shows "lost e (call_state c)"
proof -
  obtain m st1 where m: "new_mem_obj st = (m, st1)" by fastforce
  have "keeps_event e (cq_objs st) (snd (fresh (cq_objs st)))" by (rule keeps_new)
  also have "keeps_event e (snd (fresh (cq_objs st))) ((snd (fresh (cq_objs st)))\<lparr>o_mems := x\<rparr>)" for x by (rule keeps_new)
  finally have f1: "lost e st1" using m f by (auto simp: new_mem_obj_def split_beta Let_def intro: lost_objs)
  obtain cp cx where cx: "deref (o_contexts (cq_objs st1)) cp = Inr cx"
    and r: "(let st2 = with_objs ((cq_objs st1)\<lparr>o_contexts := (o_contexts (cq_objs st1))(cp \<mapsto> snd (add_mem_obj cx m))\<rparr>) st1
       in if fl AND CL_MEM_USE_HOST_PTR \<noteq> 0 \<and> fl AND CL_MEM_ALLOC_HOST_PTR \<noteq> 0
          then Inr (Done (None, if er then Some CL_INVALID_VALUE else None) st2)
          else if h \<noteq> None \<and> fl AND CL_MEM_USE_HOST_PTR \<noteq> 0 then write_through junk g m sz h er st2
          else if fl AND CL_MEM_ALLOC_HOST_PTR \<noteq> 0 then write_through junk g m sz None er st2
          else Inr (Done (Some m, None) st2)) = Inr c"
    using c m by (auto simp: clCreateBuffer_def bindr_Inr_iff)
  let ?st2 = "with_objs ((cq_objs st1)\<lparr>o_contexts := (o_contexts (cq_objs st1))(cp \<mapsto> snd (add_mem_obj cx m))\<rparr>) st1"
  have "lost e ?st2" by (rule lost_objs [OF f1 keeps_new(5)])
  then show ?thesis using r write_through_lost by (auto simp: Let_def split: if_splits)
qed

lemma enqueue_kernel_lost:
  assumes c: "clEnqueueNDRangeKernel env g q k d go gs ls st = Inr (rc, st')" and f: "lost e st"
  shows "lost e st'"
proof (cases "st' = st")
  case False
  then obtain cmd s r i where s: "new_MLCLCommandNDR k d go gs ls (cq_objs st) = Inr (cmd, s)"
      "ml_submit_cmd g q (Some cmd) 0 (with_objs s st) = Inr (r, i, st')"
    using c by (auto simp: clEnqueueNDRangeKernel_def bindr_Inr_iff split: if_splits option.splits)
  have n: "keeps_event e (cq_objs st) s" "m_event cmd = Some (o_next (cq_objs st))"
    using new_commands_ok(3) [OF lost_next [OF f] s(1)] by blast+
  show ?thesis
    by (rule submit_lost [OF s(2) lost_objs [OF f n(1)] harmless_new [OF n(2)]]) (use lost_next [OF f] in simp)
qed (use f in simp)

lemma new_object_lost:
  assumes "lost e st"
  shows "lost e (with_objs ((cq_objs st)\<lparr>o_next := Suc (o_next (cq_objs st)), o_kernels := k\<rparr>) st)"
    and "lost e (with_objs ((cq_objs st)\<lparr>o_next := Suc (o_next (cq_objs st)), o_programs := p\<rparr>) st)"
    and "lost e (with_objs ((cq_objs st)\<lparr>o_next := Suc (o_next (cq_objs st)), o_contexts := c\<rparr>) st)"
  by (rule lost_objs [OF assms], simp add: keeps_event_def)+

lemma create_lost:
  assumes "lost e st"
  shows "lost e (snd (snd (clCreateContext er st)))" and "lost e (snd (snd (clCreateKernel p er st)))"
    and "clCreateProgramWithSource c n str len er st = Inr (x, y, st') \<Longrightarrow> lost e st'"
  using assms
  by (auto simp: clCreateContext_def clCreateKernel_def fresh_def clCreateProgramWithSource_def Let_def
      bindr_Inr_iff intro: new_object_lost split: if_splits option.splits)

text \<open>No call completes a lost event.\<close>

lemma api_lost:
  assumes "api env g c st = Inr st'" and f: "lost e st"
  shows "lost e st'"
proof (cases c)
  case (BuildProgram p)
  then show ?thesis using assms
    by (auto simp: clBuildProgram_def bindr_Inr_iff Let_def intro: lost_objs keeps_new)
next
  case (GetBuildInfo p n sz v r)
  then show ?thesis using assms
    by (auto simp: clGetProgramBuildInfo_def bindr_Inr_iff intro: copy_log_lost split: if_splits option.splits)
next
  case (SetKernelArg k i sz v)
  then show ?thesis using assms
    by (auto simp: clSetKernelArg_def bindr_Inr_iff intro: lost_objs keeps_new split: option.splits)
next
  case (ReleaseKernel k)
  then show ?thesis using assms
    by (auto simp: clReleaseKernel_def bindr_Inr_iff intro: lost_objs keeps_other split: option.splits)
next
  case (ReleaseMem m)
  then show ?thesis using assms
    by (auto simp: clReleaseMemObject_def bindr_Inr_iff intro: lost_objs keeps_other split: option.splits)
next
  case (ReleaseProgram p)
  then show ?thesis using assms
    by (auto simp: clReleaseProgram_def bindr_Inr_iff intro: lost_objs keeps_new split: option.splits)
next
  case (ReleaseContext p)
  then show ?thesis using assms
    by (auto simp: clReleaseContext_def bindr_Inr_iff intro: lost_objs keeps_new split: option.splits)
next
  case (GetDeviceInfo n sz v)
  then show ?thesis using assms
    by (auto simp: clGetDeviceInfo_def copy_info_def bindr_Inr_iff intro: user_write_lost split: if_splits option.splits)
qed (use assms create_lost [OF f] create_queue_lost create_buffer_lost enqueue_kernel_lost enqueue_lost [OF f]
      release_queue_lost in \<open>auto simp: bindr_Inr_iff\<close>)

lemma run_step_lost:
  assumes "run_step env st st'" and "lost e st"
  shows "lost e st'"
  using assms(1)
proof cases
  case (resume p ev s)
  then show ?thesis using event_down_lost assms(2) by blast
next
  case (tick now)
  then show ?thesis using assms(2) by (simp add: lost_def)
qed (use assms(2) loop_step_lost api_lost in auto)

lemma runs_lost:
  assumes "runs env st st'" and "lost e st"
  shows "lost e st'"
  using assms by (induction) (auto intro: run_step_lost)

section \<open>Calls and the queues\<close>

text \<open>A queue that is there after a step was there before, with the same last event and at least its commands.\<close>

definition queue_grows :: "ptr \<Rightarrow> cq_state \<Rightarrow> cq_state \<Rightarrow> bool" where
  "queue_grows q st st' \<longleftrightarrow> (\<forall>cq'. cq_queues st' q = Some cq' \<longrightarrow>
     (\<exists>cq. cq_queues st q = Some cq \<and> q_last_event cq' = q_last_event cq \<and>
        prefix (ca_list (q_ring_buffer cq)) (ca_list (q_ring_buffer cq'))))"

lemma queue_grows_same: "cq_queues st' q = cq_queues st q \<Longrightarrow> queue_grows q st st'"
  by (simp add: queue_grows_def)

lemma queue_grows_trans: "queue_grows q st st' \<Longrightarrow> queue_grows q st' st'' \<Longrightarrow> queue_grows q st st''"
  by (force simp: queue_grows_def intro: prefix_order.trans)

lemma with_objs_queues [simp]: "cq_queues (with_objs s st) = cq_queues st"
  by (simp add: with_objs_def)

lemma grows_with_objs [simp]: "queue_grows q (with_objs s st) st' = queue_grows q st st'"
  "queue_grows q st (with_objs s st') = queue_grows q st st'"
  by (simp_all add: queue_grows_def)

lemma push_back_grows:
  assumes p: "cq_push_back g p c st = Inr (rc, st')" and wf: "\<And>cq. cq_queues st p = Some cq \<Longrightarrow> ca_wf (q_ring_buffer cq)"
  shows "queue_grows q st st'"
proof (cases "st' = st \<or> p \<noteq> q")
  case True
  then have "cq_queues st' q = cq_queues st q"
    using p by (auto simp: cq_push_back_def bindr_Inr_iff Let_def set_queue_def split: if_splits)
  then show ?thesis by (rule queue_grows_same)
next
  case False
  then obtain cq x r where cq: "cq_queues st q = Some cq" "ca_push_back (q_ring_buffer cq) c False = Inr (x, r)"
      "cq_queues st' q = Some (cq\<lparr>q_ring_buffer := r\<rparr>)"
    using p by (auto simp: cq_push_back_def bindr_Inr_iff deref_Inr_iff Let_def set_queue_def split: if_splits)
  have w: "ca_wf (q_ring_buffer cq)" using wf cq(1) False by simp
  obtain r' where r': "ca_enq c (q_ring_buffer cq) = Inr r'"
      "ca_list r' = take (ca_bound (q_ring_buffer cq)) (ca_list (q_ring_buffer cq) @ [c])"
    using ca_fifo.enq_total [OF w] by blast
  have "r' = r" using cq(2) r'(1) by (simp add: ca_enq_def)
  moreover have "prefix (ca_list (q_ring_buffer cq)) (ca_list r')"
    using r'(2) ca_fifo.bounded [OF w] by (simp add: prefix_def)
  ultimately show ?thesis using cq by (simp add: queue_grows_def)
qed

lemma submit_grows:
  assumes "ml_submit_cmd g p (Some c) i st = Inr (rc, j, st')"
    and "\<And>p cq. cq_queues st p = Some cq \<Longrightarrow> ca_wf (q_ring_buffer cq)"
  shows "queue_grows q st st'"
proof (cases p)
  case None
  then show ?thesis using assms(1) by (simp add: ml_submit_cmd_def queue_grows_same)
next
  case (Some a)
  then obtain n rc1 where "cq_push_back g a (set_command_id c n) (st\<lparr>cq_command_id := cq_command_id st + 1\<rparr>) = Inr (rc1, st')"
    using assms(1) by (auto simp: ml_submit_cmd_def bindr_Inr_iff Let_def)
  then have "queue_grows q (st\<lparr>cq_command_id := cq_command_id st + 1\<rparr>) st'"
    by (rule push_back_grows) (use assms(2) in simp)
  then show ?thesis by (simp add: queue_grows_def)
qed

lemma handle_blocking_queues:
  "handle_blocking_non_blocking b x u st = Inr c \<Longrightarrow> cq_queues (call_state c) = cq_queues st"
  by (auto simp: handle_blocking_non_blocking_def bindr_Inr_iff split: if_splits)

lemma submit_and_wait_grows:
  assumes s: "submit_and_wait g p cmd b u st = Inr c"
    and wf: "\<And>p cq. cq_queues st p = Some cq \<Longrightarrow> ca_wf (q_ring_buffer cq)"
  shows "queue_grows q st (call_state c)"
proof -
  obtain x s1 rc i st1 where s1: "ml_submit_cmd g p (Some cmd) 0 (with_objs s1 st) = Inr (rc, i, st1)"
      "(if rc = FPML_ERR_INVALID_CMDQ
        then bindr (event_down (cq_objs st1) x) (\<lambda>s1. Inr (Done (CL_INVALID_COMMAND_QUEUE, None) (with_objs s1 st1)))
        else handle_blocking_non_blocking b x u st1) = Inr c"
    using s by (auto simp: submit_and_wait_def bindr_Inr_iff)
  have "queue_grows q (with_objs s1 st) st1" by (rule submit_grows [OF s1(1)]) (use wf in simp)
  moreover have "cq_queues (call_state c) = cq_queues st1"
    using s1(2) handle_blocking_queues by (auto simp: bindr_Inr_iff split: if_splits)
  ultimately show ?thesis by (simp add: queue_grows_def)
qed

lemma enqueue_grows:
  assumes wf: "\<And>p cq. cq_queues st p = Some cq \<Longrightarrow> ca_wf (q_ring_buffer cq)"
  shows "clEnqueueWriteBuffer g p m b off sz h u st = Inr c \<Longrightarrow> queue_grows q st (call_state c)"
    and "clEnqueueReadBuffer g p m b off sz h u st = Inr c \<Longrightarrow> queue_grows q st (call_state c)"
    and "clFinish g p st = Inr c \<Longrightarrow> queue_grows q st (call_state c)"
    and "clEnqueueNDRangeKernel env g p k d go gs ls st = Inr (rc, st') \<Longrightarrow> queue_grows q st st'"
proof -
  have step: "queue_grows q st (call_state c)" if "submit_and_wait g p cmd b u (with_objs s st) = Inr c"
    for p cmd b u s
    using submit_and_wait_grows [OF that] wf by simp
  show "clEnqueueWriteBuffer g p m b off sz h u st = Inr c \<Longrightarrow> queue_grows q st (call_state c)"
    "clEnqueueReadBuffer g p m b off sz h u st = Inr c \<Longrightarrow> queue_grows q st (call_state c)"
    "clFinish g p st = Inr c \<Longrightarrow> queue_grows q st (call_state c)"
    by (auto simp: clEnqueueWriteBuffer_def clEnqueueReadBuffer_def clFinish_def bindr_Inr_iff split_beta
        Let_def queue_grows_same intro: step split: if_splits)
  show "queue_grows q st st'" if c: "clEnqueueNDRangeKernel env g p k d go gs ls st = Inr (rc, st')"
  proof (cases "st' = st")
    case False
    then obtain cmd s r i where "ml_submit_cmd g p (Some cmd) 0 (with_objs s st) = Inr (r, i, st')"
      using c by (auto simp: clEnqueueNDRangeKernel_def bindr_Inr_iff split: if_splits option.splits)
    then show ?thesis using submit_grows [of g p cmd 0 "with_objs s st"] wf by simp
  qed (simp add: queue_grows_same)
qed

lemma create_queue_grows:
  assumes "clCreateCommandQueue junk st = Inr (p, st')" and "q < o_next (cq_objs st)"
  shows "queue_grows q st st'" and "p \<noteq> q"
  using assms
  by (auto simp: clCreateCommandQueue_def ml_create_cmd_q_def create_new_def fresh_def bindr_Inr_iff
      set_queue_def intro!: queue_grows_same)

lemma release_queue_grows: "clReleaseCommandQueue g p st = Inr (rc, st') \<Longrightarrow> queue_grows q st st'"
  by (auto simp: clReleaseCommandQueue_def ml_cmd_q_ref_cnt_down_def bindr_Inr_iff deref_Inr_iff
      cq_ref_cnt_down_def queue_grows_def set_queue_def split: if_splits option.splits)


lemma user_write_queues: "user_write p bs st = Inr st' \<Longrightarrow> cq_queues st' = cq_queues st"
  by (auto simp: user_write_def Let_def split: if_splits)

lemma write_through_grows:
  assumes w: "write_through junk g m sz h er st = Inr d" and f: "lost e st" and q: "q < e"
  shows "queue_grows q st (call_state d)"
proof -
  obtain p st1 c where c: "clCreateCommandQueue junk st = Inr (p, st1)"
      "clEnqueueWriteBuffer g (Some p) (Some m) True 0 sz h False st1 = Inr c"
      "bind_call c (\<lambda>(rc, _) st2. bindr (clReleaseCommandQueue 0 (Some p) st2) (\<lambda>(_, st3).
           Inr (Done (Some m, if er then Some rc else None) st3))) = Inr d"
    using w by (auto simp: write_through_def bindr_Inr_iff)
  have "q < o_next (cq_objs st)" using q lost_next [OF f] by simp
  then have g1: "queue_grows q st st1" by (rule create_queue_grows [OF c(1)])
  have "ca_wf (q_ring_buffer cq)" if "cq_queues st1 p = Some cq" for p cq
    using create_queue_lost [OF c(1) f] that by (simp add: lost_def)
  then have g2: "queue_grows q st1 (call_state c)" using enqueue_grows(1) [OF _ c(2)] by blast
  have "queue_grows q (call_state c) (call_state d)"
    using c(3) release_queue_grows by (cases c) (auto simp: bindr_Inr_iff split_beta queue_grows_same)
  then show ?thesis using g1 g2 queue_grows_trans by blast
qed

lemma create_buffer_grows:
  assumes c: "clCreateBuffer junk g ctx fl sz h er st = Inr c" and f: "lost e st" and q: "q < e"
  shows "queue_grows q st (call_state c)"
proof -
  obtain m st1 where m: "new_mem_obj st = (m, st1)" by fastforce
  obtain s where st1: "st1 = with_objs s st" "keeps_event e (cq_objs st) s"
    using m by (auto simp: new_mem_obj_def split_beta Let_def keeps_event_def fresh_def)
  have f1: "lost e st1" unfolding st1(1) by (rule lost_objs [OF f st1(2)])
  have "queue_grows q st1 (call_state c)"
    using c m lost_objs [OF f1 keeps_new(5)]
    by (auto simp: clCreateBuffer_def bindr_Inr_iff Let_def queue_grows_same
        dest!: write_through_grows [OF _ _ q] split: if_splits)
  then show ?thesis by (simp add: st1(1))
qed

lemma api_grows:
  assumes a: "api env g c st = Inr st'" and f: "lost e st" and q: "q < e"
  shows "queue_grows q st st'"
proof -
  have wf: "ca_wf (q_ring_buffer cq)" if "cq_queues st p = Some cq" for p cq using f that by (simp add: lost_def)
  have n: "q < o_next (cq_objs st)" using q lost_next [OF f] by simp
  note same = clCreateContext_def fresh_def clCreateProgramWithSource_def Let_def clBuildProgram_def
    clGetProgramBuildInfo_def copy_log_def user_write_queues clCreateKernel_def clSetKernelArg_def
    clReleaseKernel_def clReleaseMemObject_def clReleaseProgram_def clReleaseContext_def
    clGetDeviceInfo_def copy_info_def
  show ?thesis
  proof (cases c)
    case (CreateBuffer junk cx fl sz h er)
    then show ?thesis using a create_buffer_grows [OF _ f q] by (auto simp: bindr_Inr_iff)
  next
    case (CreateQueue junk)
    then show ?thesis using a create_queue_grows(1) [OF _ n] by (auto simp: bindr_Inr_iff)
  next
    case (ReleaseQueue p)
    then show ?thesis using a release_queue_grows by (auto simp: bindr_Inr_iff)
  next
    case (EnqueueNDRange p k d go gs ls)
    then show ?thesis using a enqueue_grows(4) [OF wf] by (auto simp: bindr_Inr_iff)
  next
    case (EnqueueWrite p m b off sz h ev)
    then show ?thesis using a enqueue_grows(1) [OF wf] by (auto simp: bindr_Inr_iff)
  next
    case (EnqueueRead p m b off sz h ev)
    then show ?thesis using a enqueue_grows(2) [OF wf] by (auto simp: bindr_Inr_iff)
  next
    case (Finish p)
    then show ?thesis using a enqueue_grows(3) [OF wf] by (auto simp: bindr_Inr_iff)
  next
    case (CreateProgram cx n str len er)
    then show ?thesis using a
      by (auto simp: clCreateProgramWithSource_def bindr_Inr_iff Let_def fresh_def
          intro: queue_grows_same split: if_splits option.splits)
  qed (use a in \<open>auto simp: same bindr_Inr_iff intro!: queue_grows_same split: if_splits option.splits\<close>)
qed


section \<open>The loop and the queues\<close>

lemma on_event_complete_queues: "foldr_res on_event_complete cbs st = Inr st' \<Longrightarrow> cq_queues st' = cq_queues st"
proof (induction cbs arbitrary: st)
  case (Cons cb cbs)
  then show ?case by (cases cb) (auto simp: bindr_Inr_iff)
qed simp

lemma destroy_grows: "check_self_destroy p st = Inr st' \<Longrightarrow> queue_grows q st st'"
  by (auto simp: check_self_destroy_def bindr_Inr_iff delete_queue_def queue_grows_def split: if_splits)

lemma serve_command_other:
  assumes s: "serve_command env p cmd st = Inr st'" and q: "q \<noteq> p"
  shows "queue_grows q st st'"
proof -
  obtain st1 w2 cbs st3 st4 s5 where s: "set_last_event p (m_event cmd) st = Inr st1"
      "foldr_res on_event_complete cbs (st1\<lparr>cq_ml := w2\<rparr>) = Inr st3" "go_on p st3 = Inr st4"
      "st' = with_objs s5 st4"
    using s by (auto simp: serve_command_def bindr_Inr_iff)
  have "cq_queues st1 q = cq_queues st q"
    by (rule set_last_event_steps [OF s(1)]) (use q in \<open>simp add: set_queue_def\<close>)
  moreover have "cq_queues st3 q = cq_queues st1 q" using on_event_complete_queues [OF s(2)] by simp
  moreover have "queue_grows q st3 st4"
    using s(3) destroy_grows by (auto simp: go_on_def bindr_Inr_iff intro: queue_grows_same split: if_splits)
  ultimately show ?thesis using s(4) by (simp add: queue_grows_def)
qed

text \<open>A queue whose last event is lost is not served: it only grows.\<close>

lemma loop_step_grows:
  assumes l: "loop_step env st st'" and f: "lost e st"
    and e: "\<And>cq. cq_queues st q = Some cq \<Longrightarrow> q_last_event cq = Some e"
  shows "queue_grows q st st'"
  using l
proof cases
  case (serve p)
  let ?st = "st\<lparr>cq_fed := cq_fed st - {p}\<rparr>"
  have s: "on_new_cmd_cb env p ?st = Inr st'" using serve(2) by (simp add: serve_watcher_def)
  have wf: "ca_wf (q_ring_buffer cq)" if "cq_queues ?st p = Some cq" for cq
    using f that by (simp add: lost_def)
  have "queue_grows q ?st st'"
  proof (rule on_new_cmd_cases [OF s wf])
    fix cq c cs r
    assume h: "cq_queues ?st p = Some cq"
      "\<And>l. q_last_event cq = Some l \<Longrightarrow> event_state (cq_objs ?st) l = Inr CL_COMPLETE"
      "serve_command env p c (set_queue p (cq\<lparr>q_ring_buffer := r\<rparr>) ?st) = Inr st'"
    have "p \<noteq> q"
    proof
      assume "p = q"
      then have "event_state (cq_objs st) e = Inr CL_COMPLETE" using e h(1,2) by simp
      then show False using f
        by (auto simp: event_state_def lost_def nd_lost_def wait_is_over_def bindr_Inr_iff deref_Inr_iff)
    qed
    then have "queue_grows q (set_queue p (cq\<lparr>q_ring_buffer := r\<rparr>) ?st) st'" "cq_queues (set_queue p (cq\<lparr>q_ring_buffer := r\<rparr>) ?st) q = cq_queues ?st q"
      using serve_command_other [OF h(3)] by (simp_all add: set_queue_def)
    then show "queue_grows q ?st st'" by (simp add: queue_grows_def)
  qed (use destroy_grows queue_grows_same in auto)
  then show ?thesis by (simp add: queue_grows_def)
next
  case (expire i)
  then show ?thesis using on_event_complete_queues
    by (fastforce simp: expire_scheduler_def bindr_Inr_iff intro: queue_grows_same)
next
  case free
  then show ?thesis by (auto simp: expire_free_def Let_def bindr_Inr_iff intro: queue_grows_same)
qed (simp add: queue_grows_same)

lemma runs_grows:
  assumes "runs env st st'" and "lost e st" and "q < e"
    and "\<And>cq. cq_queues st q = Some cq \<Longrightarrow> q_last_event cq = Some e"
  shows "lost e st' \<and> queue_grows q st st'"
  using assms(1)
proof induction
  case base
  then show ?case using assms(2) by (simp add: queue_grows_same)
next
  case (step st1 st2)
  have e: "q_last_event cq = Some e" if "cq_queues st1 q = Some cq" for cq
    using step.IH assms(4) that by (auto simp: queue_grows_def)
  have "queue_grows q st1 st2"
    using step(2)
  proof cases
    case loop
    then show ?thesis using loop_step_grows e step.IH by blast
  next
    case call
    then show ?thesis using api_grows step.IH assms(3) by blast
  qed (simp_all add: queue_grows_same)
  then show ?case using run_step_lost [OF step(2)] step.IH queue_grows_trans by blast
qed

section \<open>Calls of \<open>clFinish\<close>\<close>

text \<open>What the program's addresses are: queues, launches and commands use what was allocated.\<close>

definition addresses_ok :: "cq_state \<Rightarrow> bool" where
  "addresses_ok st \<longleftrightarrow>
     (\<forall>p nd. ns_ndranges (ss_store (ml_sched (cq_ml st))) p = Some nd \<longrightarrow> n_event nd < o_next (cq_objs st)) \<and>
     (\<forall>q cq. cq_queues st q = Some cq \<longrightarrow> q < o_next (cq_objs st) \<and> ca_wf (q_ring_buffer cq) \<and>
        (\<forall>c\<in>set (ca_list (q_ring_buffer cq)). \<forall>e. m_event c = Some e \<longrightarrow> e < o_next (cq_objs st)))"

lemma finish_lost:
  assumes fin: "clFinish g (Some q) st = Inr (Blocked e st1 k)" and ok: "addresses_ok st"
  shows "lost e st1" and "q < e"
proof -
  let ?e = "o_next (cq_objs st)"
  obtain cmd s where cmd: "new_mlcl_command EMPTY NoBody (cq_objs st) = (cmd, s)" by fastforce
  note c = new_command_ok [OF cmd]
  obtain s1 rc i st2 where s: "event_up s ?e = Inr s1"
      "ml_submit_cmd g (Some q) (Some cmd) 0 (with_objs s1 st) = Inr (rc, i, st2)"
      "(if rc = FPML_ERR_INVALID_CMDQ
        then bindr (event_down (cq_objs st2) ?e) (\<lambda>s1. Inr (Done (CL_INVALID_COMMAND_QUEUE, None) (with_objs s1 st2)))
        else handle_blocking_non_blocking True ?e False st2) = Inr (Blocked e st1 k)"
    using fin cmd c(1) by (auto simp: clFinish_def submit_and_wait_def bindr_Inr_iff with_objs_def)
  have e: "e = ?e" "st1 = st2"
    using s(3) by (auto simp: bindr_Inr_iff handle_blocking_non_blocking_def split: if_splits)
  have "\<not> wait_is_over new_cl_event" by (simp add: wait_is_over_def new_cl_event_def cl_codes)
  moreover have "n_event nd \<noteq> ?e" if "ns_ndranges (ss_store (ml_sched (cq_ml st))) p = Some nd" for p nd
    using ok that by (fastforce simp: addresses_ok_def)
  moreover have "ca_wf (q_ring_buffer cq) \<and> harmless ?e x"
    if "cq_queues st r = Some cq" "x \<in> set (ca_list (q_ring_buffer cq))" for r cq x
    using ok that by (fastforce simp: addresses_ok_def harmless_def)
  moreover have "ca_wf (q_ring_buffer cq)" if "cq_queues st r = Some cq" for r cq
    using ok that by (simp add: addresses_ok_def)
  ultimately have "lost ?e (with_objs s st)"
    using c(4,5) by (auto simp: lost_def nd_lost_def with_objs_def put_objs_def)
  then have "lost ?e (with_objs s1 (with_objs s st))"
    by (rule lost_objs) (use keeps_event_up [OF s(1)] in \<open>simp add: with_objs_def\<close>)
  then have "lost ?e (with_objs s1 st)" by (simp add: with_objs_def)
  then show "lost e st1" unfolding e by (rule submit_lost [OF s(2)]) (simp add: harmless_def c(2))
  have "cq_queues st q \<noteq> None"
    using s(2) by (cases "cq_queues st q") (auto simp: ml_submit_cmd_def Let_def cq_push_back_def)
  then show "q < e" using ok e by (auto simp: addresses_ok_def)
qed

section \<open>Examples\<close>

definition demo_cq :: "mlcl_command circ_array \<Rightarrow> cq_state" where
  "demo_cq r = \<lparr>cq_ml = demo_ml demo_slicing,
     cq_queues = [0 \<mapsto> \<lparr>q_ring_buffer = r, q_ref_counter = 1, q_last_event = None\<rparr>],
     cq_sent = {}, cq_fed = {}, cq_command_id = 13\<rparr>"

lemma demo_cq_addresses:
  assumes "ca_wf r" and "ca_list r = []"
  shows "addresses_ok (demo_cq r)"
  using assms by (auto simp: addresses_ok_def demo_cq_def demo_slicing_def demo_launch_def demo_objs_def demo_nd_def
      split: if_splits)

lemma demo_ring100: "\<exists>r :: mlcl_command circ_array. ca_wf r \<and> ca_list r = [] \<and> 0 < ca_bound r"
proof -
  obtain r :: "mlcl_command circ_array" where r: "ca_new (\<lambda>_. undefined) 100 = Inr r"
    using ca_new_small [of 100] by (auto simp: max_new_def)
  show ?thesis using ca_new_ok [OF r] by auto
qed

text \<open>\<open>clFinish\<close> on an idle queue: the command is queued, and then taken by the loop.\<close>

lemma demo_finish:
  assumes r: "ca_wf r" "ca_list r = []" "0 < ca_bound r"
  shows "\<exists>st1 k st2 cq. clFinish ML_SUCCESS (Some 0) (demo_cq r) = Inr (Blocked 2 st1 k) \<and> runs demo_ml_env st1 st2 \<and>
    cq_queues st2 0 = Some cq \<and> q_last_event cq = Some 2"
proof -
  define cmd where "cmd = \<lparr>m_command_type = EMPTY, m_command_id = 14, m_event = Some 2, m_body = NoBody\<rparr>"
  obtain x r1 where r1: "ca_push_back r cmd False = Inr (x, r1)" "ca_wf r1" "ca_list r1 = [cmd]"
    using ca_push_back_room [OF r(1), of cmd False] r(2,3) by auto
  have ne: "ca_list r1 \<noteq> []" by (simp add: r1(3))
  obtain r2 where r2: "ca_pop_front r1 = Inr (cmd, r2)" "ca_list r2 = []"
    using ca_pop_front_ok [OF r1(2) ne] r1(3) by auto
  have oc: "ca_occupancy r1 \<noteq> 0" using ca_occupancy_length [of r1] r1(3) by auto
  have e: "\<not> ca_empty r1" "ca_empty r2" by (simp_all add: ca_empty_iff r1(3) r2(2))
  let ?st0 = "demo_cq r"
  let ?o = "(cq_objs ?st0)\<lparr>o_next := 3, o_events := (o_events (cq_objs ?st0))(2 \<mapsto> new_cl_event\<lparr>m_counter := 2\<rparr>)\<rparr>"
  let ?st1 = "(with_objs ?o ?st0)\<lparr>cq_command_id := 14, cq_sent := {0},
    cq_queues := [0 \<mapsto> \<lparr>q_ring_buffer = r1, q_ref_counter = 1, q_last_event = None\<rparr>]\<rparr>"
  have ml: "ns_objs (ss_store demo_slicing) = demo_objs\<lparr>o_kernels := [0 \<mapsto> new_cl_kernel (Some 2)],
      o_programs := [2 \<mapsto> \<lparr>m_counter = 1, m_xml_name = ''k.xml'', m_build_log = [], m_context = None\<rparr>]\<rparr>"
    by (simp add: demo_slicing_def demo_launch_def)
  have fin: "\<exists>k. clFinish ML_SUCCESS (Some 0) ?st0 = Inr (Blocked 2 ?st1 k)"
    using r1(1)
    by (simp add: clFinish_def submit_and_wait_def new_mlcl_command_def fresh_def ml_submit_cmd_def
        cq_push_back_def demo_cq_def with_objs_def ml event_up_def heap_up_def ref_cnt_up_def set_queue_def
        handle_blocking_non_blocking_def set_command_id_def cmd_def demo_objs_def new_cl_event_def Let_def)
  let ?st1' = "?st1\<lparr>cq_sent := {}, cq_fed := {0}\<rparr>"
  have col: "loop_step demo_ml_env ?st1 ?st1'"
    using loop_step.collect [of 0 ?st1 demo_ml_env] by (simp add: demo_cq_def with_objs_def)
  have srv: "\<exists>st2. serve_watcher demo_ml_env 0 ?st1' = Inr st2 \<and> (\<exists>cq. cq_queues st2 0 = Some cq \<and> q_last_event cq = Some 2)"
    using r2(1) oc e
    by (simp add: serve_watcher_def on_new_cmd_cb_def cq_is_empty_def cq_pop_front_def serve_command_def
        set_last_event_def set_queue_def with_objs_def ml demo_objs_def event_up_def heap_up_def ref_cnt_up_def
        update_event_def register_on_complete_cb_func_def handle_a_cmd_def go_on_def check_self_destroy_def
        delete_command_def delete_derived_def event_down_def heap_down_def cmd_def demo_cq_def put_objs_def
        cong: if_cong)
  obtain st2 cq where st2: "serve_watcher demo_ml_env 0 ?st1' = Inr st2" "cq_queues st2 0 = Some cq" "q_last_event cq = Some 2"
    using srv by blast
  have "loop_step demo_ml_env ?st1' st2" by (rule loop_step.serve [OF _ st2(1)]) simp
  then have "runs demo_ml_env ?st1 st2" using col by (meson run_step.loop converse_rtranclp_into_rtranclp r_into_rtranclp)
  then show ?thesis using fin st2(2,3) by blast
qed

section \<open>Properties\<close>

text \<open>C15: \<open>clFinish\<close> never returns once it has been accepted by a queue. Whatever the event loop, the
  timers and any number of other threads do afterwards, call by call and callback by callback, the event the caller waits for is not
  completed: the empty command is taken from the queue, but nothing completes its event.\<close>
theorem finish_never_returns:
  assumes "addresses_ok st" and "clFinish garbage (Some q) st = Inr (Blocked e st1 k)" and "runs env st1 st2"
  shows "\<forall>ev. o_events (cq_objs st2) e = Some ev \<longrightarrow> \<not> wait_is_over ev"
  using runs_lost [OF assms(3) finish_lost(1) [OF assms(2,1)]] by (simp add: lost_def nd_lost_def)

theorem finish_never_returns_witness:
  "\<exists>r e st1 k. clFinish ML_SUCCESS (Some 0) (demo_cq r) = Inr (Blocked e st1 k) \<and>
    (\<forall>st2. runs demo_ml_env st1 st2 \<longrightarrow>
       (\<forall>ev. o_events (cq_objs st2) e = Some ev \<longrightarrow> \<not> wait_is_over ev))"
proof -
  obtain r :: "mlcl_command circ_array" where r: "ca_wf r" "ca_list r = []" "0 < ca_bound r" using demo_ring100 by blast
  obtain st1 k where d: "clFinish ML_SUCCESS (Some 0) (demo_cq r) = Inr (Blocked 2 st1 k)"
    using demo_finish [OF r] by (elim exE conjE) (rule that)
  show ?thesis using finish_never_returns [OF demo_cq_addresses [OF r(1,2)] d] d by blast
qed

text \<open>C25: After the queue has taken the empty command of a \<open>clFinish\<close>, it is stuck: in every run, a sequence of
  whole calls and callbacks, as long
  as the queue exists, that command stays its last one and no waiting command is taken any more, so
  the queue only grows.\<close>
theorem finish_stalls_queue:
  assumes "addresses_ok st" and "clFinish garbage (Some q) st = Inr (Blocked e st1 k)" and "runs env st1 st2"
    and "cq_queues st2 q = Some cq2" and "q_last_event cq2 = Some e"
    and "runs env st2 st3" and "cq_queues st3 q = Some cq3"
  shows "q_last_event cq3 = Some e \<and> prefix (ca_list (q_ring_buffer cq2)) (ca_list (q_ring_buffer cq3))"
proof -
  have l: "lost e st2" by (rule runs_lost [OF assms(3) finish_lost(1) [OF assms(2,1)]])
  have "queue_grows q st2 st3"
    using runs_grows [OF assms(6) l finish_lost(2) [OF assms(2,1)]] assms(4,5) by simp
  then show ?thesis using assms(4,5,7) by (auto simp: queue_grows_def)
qed


theorem finish_stalls_queue_witness:
  "\<exists>r e st1 k st2 cq2. clFinish ML_SUCCESS (Some 0) (demo_cq r) = Inr (Blocked e st1 k) \<and> runs demo_ml_env st1 st2 \<and>
    cq_queues st2 0 = Some cq2 \<and>
    (\<forall>st3 cq3. runs demo_ml_env st2 st3 \<and> cq_queues st3 0 = Some cq3 \<longrightarrow>
       q_last_event cq3 = Some e \<and> prefix (ca_list (q_ring_buffer cq2)) (ca_list (q_ring_buffer cq3)))"
proof -
  obtain r :: "mlcl_command circ_array" where r: "ca_wf r" "ca_list r = []" "0 < ca_bound r" using demo_ring100 by blast
  obtain st1 k st2 cq2 where d: "clFinish ML_SUCCESS (Some 0) (demo_cq r) = Inr (Blocked 2 st1 k)" "runs demo_ml_env st1 st2"
      "cq_queues st2 0 = Some cq2" "q_last_event cq2 = Some 2"
    using demo_finish [OF r] by (elim exE conjE) (rule that)
  have "q_last_event cq3 = Some 2 \<and> prefix (ca_list (q_ring_buffer cq2)) (ca_list (q_ring_buffer cq3))"
    if "runs demo_ml_env st2 st3" "cq_queues st3 0 = Some cq3" for st3 cq3
    by (rule finish_stalls_queue [OF demo_cq_addresses [OF r(1,2)] d that])
  then show ?thesis using d(1-3) by blast
qed

end
