(* ===== verification/Queue_Types.thy ===== *)
theory Queue_Types
  imports Runs
begin

text \<open>
  The type invariant of the command queues: whatever threads call and however the loop interleaves,
  every queue there is has a well-formed ring of a hundred places and a reference count of 0 or 1.
\<close>

section \<open>The invariant\<close>

definition queue_ok :: "cmd_queue \<Rightarrow> bool" where
  "queue_ok cq \<longleftrightarrow> ca_wf (q_ring_buffer cq) \<and> ca_bound (q_ring_buffer cq) = 100 \<and>
     q_ref_counter cq \<in> {0, 1}"

definition queues_ok :: "cq_state \<Rightarrow> bool" where
  "queues_ok st \<longleftrightarrow> (\<forall>q cq. cq_queues st q = Some cq \<longrightarrow> queue_ok cq)"

lemma queues_okD: "queues_ok st \<Longrightarrow> cq_queues st q = Some cq \<Longrightarrow> queue_ok cq"
  by (simp add: queues_ok_def)

lemma queues_ok_cong: "cq_queues st' = cq_queues st \<Longrightarrow> queues_ok st' = queues_ok st"
  by (simp add: queues_ok_def)

lemma queues_ok_simps [simp]:
  "queues_ok (with_objs s st) = queues_ok st" "queues_ok (st\<lparr>cq_sent := F\<rparr>) = queues_ok st"
  "queues_ok (st\<lparr>cq_fed := F\<rparr>) = queues_ok st" "queues_ok (st\<lparr>cq_command_id := i\<rparr>) = queues_ok st"
  "queues_ok (st\<lparr>cq_ml := w\<rparr>) = queues_ok st"
  by (simp_all add: queues_ok_def)

lemma queues_ok_set: "queues_ok st \<Longrightarrow> queue_ok cq \<Longrightarrow> queues_ok (set_queue q cq st)"
  by (simp add: queues_ok_def)

lemma queues_ok_delete: "queues_ok st \<Longrightarrow> queues_ok (delete_queue q st)"
  by (simp add: queues_ok_def delete_queue_def)

lemma queue_ok_event [simp]: "queue_ok (cq\<lparr>q_last_event := e\<rparr>) = queue_ok cq"
  by (simp add: queue_ok_def)

section \<open>Calls\<close>

lemma push_back_typed:
  assumes p: "cq_push_back g q c st = Inr (rc, st')" and ok: "queues_ok st"
  shows "queues_ok st'"
proof (cases "st' = st")
  case False
  then obtain cq x r where cq: "cq_queues st q = Some cq" "ca_push_back (q_ring_buffer cq) c False = Inr (x, r)"
      "st' = (set_queue q (cq\<lparr>q_ring_buffer := r\<rparr>) st)\<lparr>cq_sent := insert q (cq_sent st)\<rparr>"
    using p by (auto simp: cq_push_back_def bindr_Inr_iff deref_Inr_iff Let_def set_queue_def split: if_splits)
  have q: "queue_ok cq" by (rule queues_okD [OF ok cq(1)])
  then obtain r' where r': "ca_enq c (q_ring_buffer cq) = Inr r'" "ca_wf r'" "ca_bound r' = ca_bound (q_ring_buffer cq)"
    using ca_fifo.enq_total by (metis queue_ok_def)
  have "r' = r" using cq(2) r'(1) by (simp add: ca_enq_def)
  then show ?thesis unfolding cq(3) using q r' by (simp add: queues_ok_set [OF ok] queue_ok_def)
qed (use ok in simp)

lemma submit_typed:
  assumes "ml_submit_cmd g q c i st = Inr (rc, j, st')" and "queues_ok st"
  shows "queues_ok st'"
proof (cases "st' = st")
  case False
  then obtain p cmd rc1 where "cq_push_back g p cmd (st\<lparr>cq_command_id := cq_command_id st + 1\<rparr>) = Inr (rc1, st')"
    using assms(1) by (auto simp: ml_submit_cmd_def bindr_Inr_iff Let_def split: option.splits)
  then show ?thesis by (rule push_back_typed) (simp add: assms(2))
qed (use assms(2) in simp)

lemma submit_and_wait_typed:
  assumes s: "submit_and_wait g q cmd b u st = Inr c" and ok: "queues_ok st"
  shows "queues_ok (call_state c)"
proof -
  obtain x s1 rc i st1 where s1: "ml_submit_cmd g q (Some cmd) 0 (with_objs s1 st) = Inr (rc, i, st1)"
      "(if rc = FPML_ERR_INVALID_CMDQ
        then bindr (event_down (cq_objs st1) x) (\<lambda>s1. Inr (Done (CL_INVALID_COMMAND_QUEUE, None) (with_objs s1 st1)))
        else handle_blocking_non_blocking b x u st1) = Inr c"
    using s by (auto simp: submit_and_wait_def bindr_Inr_iff)
  have c: "cq_queues (call_state c) = cq_queues st1"
    using s1(2) handle_blocking_queues by (auto simp: bindr_Inr_iff split: if_splits)
  show ?thesis unfolding queues_ok_cong [OF c] by (rule submit_typed [OF s1(1)]) (simp add: ok)
qed

lemma enqueue_typed:
  assumes "queues_ok st"
  shows "clEnqueueWriteBuffer g q m b off sz p u st = Inr c \<Longrightarrow> queues_ok (call_state c)"
    and "clEnqueueReadBuffer g q m b off sz p u st = Inr c \<Longrightarrow> queues_ok (call_state c)"
    and "clFinish g q st = Inr c \<Longrightarrow> queues_ok (call_state c)"
proof -
  have step: "queues_ok (call_state c)" if "submit_and_wait g q cmd b u (with_objs s st) = Inr c" for q cmd b u s
    by (rule submit_and_wait_typed [OF that]) (simp add: assms)
  show "clEnqueueWriteBuffer g q m b off sz p u st = Inr c \<Longrightarrow> queues_ok (call_state c)"
    using assms by (auto simp: clEnqueueWriteBuffer_def bindr_Inr_iff intro: step split: if_splits)
  show "clEnqueueReadBuffer g q m b off sz p u st = Inr c \<Longrightarrow> queues_ok (call_state c)"
    using assms by (auto simp: clEnqueueReadBuffer_def bindr_Inr_iff intro: step split: if_splits)
  show "clFinish g q st = Inr c \<Longrightarrow> queues_ok (call_state c)"
    using assms by (auto simp: clFinish_def split_beta intro: step split: if_splits)
qed

lemma create_queue_typed:
  assumes "clCreateCommandQueue junk st = Inr (q, st')" and "queues_ok st"
  shows "queues_ok st'"
proof -
  obtain r where r: "ca_new junk 100 = Inr r"
      "st' = set_queue q \<lparr>q_ring_buffer = r, q_ref_counter = 1, q_last_event = None\<rparr>
         (with_objs (snd (fresh (cq_objs st))) st)"
    using assms(1) by (auto simp: clCreateCommandQueue_def ml_create_cmd_q_def create_new_def
        new_cmd_queue_def fresh_def bindr_Inr_iff)
  show ?thesis unfolding r(2)
    by (rule queues_ok_set) (use assms(2) ca_new_ok [OF r(1)] in \<open>simp_all add: queue_ok_def\<close>)
qed

lemma release_queue_typed:
  assumes "clReleaseCommandQueue g q st = Inr (rc, st')" and "queues_ok st"
  shows "queues_ok st'"
proof -
  have "queue_ok (cq_ref_cnt_down cq)" if "queue_ok cq" for cq
    using that by (auto simp: queue_ok_def cq_ref_cnt_down_def)
  then show ?thesis
    using assms by (auto simp: clReleaseCommandQueue_def ml_cmd_q_ref_cnt_down_def bindr_Inr_iff deref_Inr_iff
        intro!: queues_ok_set dest: queues_okD split: if_splits option.splits)
qed

lemma write_through_typed:
  assumes w: "write_through junk g m sz h er st = Inr d" and ok: "queues_ok st"
  shows "queues_ok (call_state d)"
proof -
  obtain q st1 c where c: "clCreateCommandQueue junk st = Inr (q, st1)"
      "clEnqueueWriteBuffer g (Some q) (Some m) True 0 sz h False st1 = Inr c"
      "bind_call c (\<lambda>(rc, _) st2. bindr (clReleaseCommandQueue 0 (Some q) st2) (\<lambda>(_, st3).
           Inr (Done (Some m, if er then Some rc else None) st3))) = Inr d"
    using w by (auto simp: write_through_def bindr_Inr_iff)
  have f1: "queues_ok (call_state c)" using create_queue_typed [OF c(1) ok] enqueue_typed(1) c(2) by blast
  show ?thesis
  proof (cases c)
    case (Done x st2)
    then show ?thesis using c(3) f1 release_queue_typed by (auto simp: bindr_Inr_iff split_beta)
  next
    case (Blocked p st2 k)
    then have "call_state d = st2" using c(3) by auto
    then show ?thesis using f1 Blocked by simp
  qed
qed

lemma create_buffer_typed:
  assumes c: "clCreateBuffer junk g ctx fl sz h er st = Inr c" and ok: "queues_ok st"
  shows "queues_ok (call_state c)"
proof -
  have m: "queues_ok (snd (new_mem_obj st))" using ok by (simp add: new_mem_obj_def fresh_def)
  then show ?thesis
    using c write_through_typed
    by (auto simp: clCreateBuffer_def bindr_Inr_iff split_beta Let_def split: if_splits)
qed

lemma enqueue_kernel_typed:
  "clEnqueueNDRangeKernel env g q k d go gs ls st = Inr (rc, st') \<Longrightarrow> queues_ok st \<Longrightarrow> queues_ok st'"
  by (auto simp: clEnqueueNDRangeKernel_def bindr_Inr_iff dest!: submit_typed split: if_splits option.splits)

text \<open>The other calls leave the queues alone.\<close>

lemma api_typed:
  assumes a: "api env g c st = Inr st'" and ok: "queues_ok st"
  shows "queues_ok st'"
proof (cases c)
  case (CreateQueue junk)
  then show ?thesis using a ok create_queue_typed by (auto simp: bindr_Inr_iff)
next
  case (CreateBuffer junk ctx f sz h er)
  then show ?thesis using a ok create_buffer_typed by (auto simp: bindr_Inr_iff)
next
  case (EnqueueNDRange q k d go gs ls)
  then show ?thesis using a ok enqueue_kernel_typed by (auto simp: bindr_Inr_iff)
next
  case (ReleaseQueue q)
  then show ?thesis using a ok release_queue_typed by (auto simp: bindr_Inr_iff)
next
  case (GetBuildInfo p n sz v r)
  then show ?thesis using a ok
    by (auto simp: clGetProgramBuildInfo_def copy_log_def Let_def bindr_Inr_iff queues_ok_def dest!: user_write_queues
        split: if_splits option.splits)
next
  case (GetDeviceInfo n sz v)
  then show ?thesis using a ok
    by (auto simp: clGetDeviceInfo_def copy_info_def bindr_Inr_iff queues_ok_def dest!: user_write_queues
        split: if_splits option.splits)
qed (use a ok enqueue_typed [OF ok] in \<open>auto simp: bindr_Inr_iff clCreateContext_def clCreateProgramWithSource_def
      clBuildProgram_def clCreateKernel_def clSetKernelArg_def clReleaseKernel_def clReleaseMemObject_def
      clReleaseProgram_def clReleaseContext_def split_beta Let_def split: if_splits option.splits\<close>)

section \<open>The event loop\<close>

lemma check_self_destroy_typed: "check_self_destroy q st = Inr st' \<Longrightarrow> queues_ok st \<Longrightarrow> queues_ok st'"
  by (auto simp: check_self_destroy_def bindr_Inr_iff queues_ok_delete split: if_splits)

lemma on_event_complete_typed:
  assumes "foldr_res on_event_complete cbs st = Inr st'" and "queues_ok st"
  shows "queues_ok st'"
proof (rule foldr_res_invariant [where P = queues_ok, OF _ assms(2,1)])
  show "queues_ok s'" if "queues_ok s" "on_event_complete cb s = Inr s'" for cb s s'
    using that by (cases cb) (auto simp: bindr_Inr_iff)
qed

lemma set_last_event_typed:
  assumes "set_last_event q ev st = Inr st'" and "queues_ok st"
  shows "queues_ok st'"
proof (rule set_last_event_steps [OF assms(1)])
  fix cq s1 p s2 s3
  assume "cq_queues st q = Some cq" "st' = set_queue q (cq\<lparr>q_last_event := ev\<rparr>) (with_objs s3 st)"
  then show ?thesis using assms(2) queues_okD by (auto intro: queues_ok_set)
qed

lemma serve_command_typed:
  assumes "serve_command env q cmd st = Inr st'" and "queues_ok st"
  shows "queues_ok st'"
proof -
  obtain st1 w2 cbs st3 st4 s5 where s: "set_last_event q (m_event cmd) st = Inr st1"
      "foldr_res on_event_complete cbs (st1\<lparr>cq_ml := w2\<rparr>) = Inr st3" "go_on q st3 = Inr st4"
      "st' = with_objs s5 st4"
    using assms(1) by (auto simp: serve_command_def bindr_Inr_iff)
  have "queues_ok st3"
    using set_last_event_typed [OF s(1) assms(2)] on_event_complete_typed [OF s(2)] by simp
  then have "queues_ok st4"
    using s(3) check_self_destroy_typed by (auto simp: go_on_def bindr_Inr_iff split: if_splits)
  then show ?thesis by (simp add: s(4))
qed

lemma on_new_cmd_typed:
  assumes s: "on_new_cmd_cb env q st = Inr st'" and ok: "queues_ok st"
  shows "queues_ok st'"
proof -
  have wf: "ca_wf (q_ring_buffer cq)" if "cq_queues st q = Some cq" for cq
    using queues_okD [OF ok that] by (simp add: queue_ok_def)
  show ?thesis
  proof (rule on_new_cmd_cases [OF s wf])
    fix cq c cs r
    assume h: "cq_queues st q = Some cq" "ca_wf r" "ca_bound r = ca_bound (q_ring_buffer cq)"
      "serve_command env q c (set_queue q (cq\<lparr>q_ring_buffer := r\<rparr>) st) = Inr st'"
    have "queue_ok (cq\<lparr>q_ring_buffer := r\<rparr>)"
      using queues_okD [OF ok h(1)] h(2,3) by (simp add: queue_ok_def)
    then show ?thesis using serve_command_typed [OF h(4)] queues_ok_set [OF ok] by blast
  qed (use ok check_self_destroy_typed in auto)
qed

lemma loop_step_typed:
  assumes "loop_step env st st'" and ok: "queues_ok st"
  shows "queues_ok st'"
  using assms(1)
proof cases
  case (serve q)
  then show ?thesis using on_new_cmd_typed ok by (simp add: serve_watcher_def)
next
  case (expire i)
  then show ?thesis using on_event_complete_typed ok
    by (fastforce simp: expire_scheduler_def bindr_Inr_iff)
next
  case free
  then show ?thesis using ok by (auto simp: expire_free_def Let_def bindr_Inr_iff)
qed (use ok in simp)

section \<open>Property\<close>

text \<open>C13: The type of the queues: from a state without queues, after any sequence of calls by any
  threads and any callbacks of the event loop between them, each as a whole, every queue that has not been deleted has
  a well-formed ring with a hundred places, so at most a hundred waiting commands, and a reference
  count of 0 or 1.\<close>
theorem queues_stay_well_formed:
  assumes "runs env st st'" and "cq_queues st = Map.empty" and "cq_queues st' q = Some cq"
  shows "ca_wf (q_ring_buffer cq) \<and> ca_bound (q_ring_buffer cq) = 100 \<and>
    length (ca_list (q_ring_buffer cq)) \<le> 100 \<and> q_ref_counter cq \<in> {0, 1}"
proof -
  have "queues_ok st'"
    using assms(1)
  proof (induction rule: rtranclp_induct)
    case base
    then show ?case by (simp add: queues_ok_def assms(2))
  next
    case (step x y)
    from step(2) show ?case
      by cases (use step(3) loop_step_typed api_typed in auto)
  qed
  then have "queue_ok cq" using assms(3) by (rule queues_okD)
  then show ?thesis using ca_list_length [of "q_ring_buffer cq"] by (simp add: queue_ok_def)
qed

theorem queues_stay_well_formed_witness:
  "\<exists>r st' q cq. runs demo_ml_env ((demo_cq r)\<lparr>cq_queues := Map.empty\<rparr>) st' \<and> cq_queues st' q = Some cq \<and>
    length (ca_list (q_ring_buffer cq)) \<le> 100"
proof -
  let ?st = "(demo_cq undefined)\<lparr>cq_queues := Map.empty\<rparr>" and ?junk = "\<lambda>_ :: nat. fst (new_mlcl_command EMPTY NoBody demo_objs)"
  obtain c where c: "ca_new ?junk 100 = Inr c" using ca_new_small [of 100 ?junk] by (auto simp: max_new_def)
  let ?cq = "\<lparr>q_ring_buffer = c, q_ref_counter = 1, q_last_event = None\<rparr>"
  obtain q st' where st': "api demo_ml_env ML_SUCCESS (CreateQueue ?junk) ?st = Inr st'" "cq_queues st' q = Some ?cq"
    using c by (simp add: clCreateCommandQueue_def ml_create_cmd_q_def create_new_def new_cmd_queue_def fresh_def)
  have "runs demo_ml_env ?st st'" using run_step.call [OF st'(1)] by (rule r_into_rtranclp)
  moreover from this have "length (ca_list (q_ring_buffer ?cq)) \<le> 100"
    using queues_stay_well_formed [of demo_ml_env ?st st' q ?cq] st'(2) by simp
  ultimately show ?thesis using st'(2) by blast
qed

end
