(* ===== verification/Centrum.thy ===== *)
theory Centrum
  imports Cmd_Queue
begin

text \<open>
  Start-up (\<^verbatim>\<open>cpp/centrum.cc\<close>, \<^verbatim>\<open>cpp/sched_config_common.cc\<close>): the global object reads the
  configuration, makes the schedulers it lists, and constructs every other part from them. The
  theory composes the constructors of the component theories in the order of the code and shows
  that the state they build satisfies the invariants the other theories start from.
\<close>

section \<open>The world before start-up\<close>

text \<open>
  The environment of the process, the parser, the services of the operating system and of the
  event library, the loop's time, and what uninitialised memory holds (the \<open>junk\<close> fields).
\<close>

record start_env =
  se_getenv :: "string \<Rightarrow> string option"
  se_load_file :: "string \<Rightarrow> xml_handle"
  se_bs :: bs_env
  se_open_dev :: "string \<Rightarrow> int"
  se_linux :: linux
  se_malloc_ok :: bool
  se_libev :: libev
  se_now :: rat
  se_junk_wgr :: "nat \<Rightarrow> work_group_range"
  se_junk_id :: "nat \<Rightarrow> u32"
  se_junk_ptr :: "nat \<Rightarrow> ptr"
  se_junk_reconf :: bool
  se_junk_end :: rat
  se_junk_fd :: int

section \<open>The scheduler configuration\<close>

(* src/cpp/sched_config.h:33-39 SchedConfig *)
record sched_config =
  sc_fd_drvr :: int
  sc_fd_ctrl :: int
  sc_opcode :: u32
  sc_schedulers :: "scheduler list"

(* src/cpp/sched_config.h:22-25 SchedConfig::get_next_opcode *)
definition get_next_opcode :: "sched_config \<Rightarrow> u32 \<times> sched_config" where
  "get_next_opcode sc = (sc_opcode sc, sc\<lparr>sc_opcode := sc_opcode sc + 1\<rparr>)"

text \<open>The emulation only logs a line, so the descriptors stay what they were.\<close>

(* src/cpp/sched_config_emu.cc:61-65 SchedConfig::open_drivers *)
definition open_drivers :: "wee_config \<Rightarrow> sched_config \<Rightarrow> sched_config" where
  "open_drivers config sc = sc"

text \<open>The default of the polling interval is the \<open>float\<close> nearest to 0.0001.\<close>

(* src/cpp/sched_config_common.cc:13-47 SchedConfig::SchedConfig *)
definition new_SchedConfig :: "start_env \<Rightarrow> wee_config \<Rightarrow> sched_config res" where
  "new_SchedConfig e config =
     (let sc = open_drivers config
            \<lparr>sc_fd_drvr = se_junk_fd e, sc_fd_ctrl = se_junk_fd e, sc_opcode = 0, sc_schedulers = []\<rparr>;
          polling_interval = snd (get_value_for_key_double config ''SchedPollingInterval''
            (13743895 / 2 ^ 37));
          prs = snd (get_values_for_key config ''PRs'' pr_extractors [])
      in bindr (new_schedulers (se_junk_wgr e) (se_junk_reconf e) (se_junk_end e) polling_interval prs)
           (\<lambda>ss. Inr (sc\<lparr>sc_schedulers := ss\<rparr>)))"

section \<open>The global object\<close>

text \<open>The environment variable for the log level, set when the configuration has one.\<close>

(* src/cpp/centrum.h:35-51 InitLogLevel::InitLogLevel *)
definition new_InitLogLevel ::
  "wee_config \<Rightarrow> (string \<Rightarrow> string option) \<Rightarrow> (string \<Rightarrow> string option)" where
  "new_InitLogLevel config vars =
     (case get_value_for_key_str config ''LogLevel'' None of
        (_, Some log_level) \<Rightarrow> vars(''WL_LOG_LEVEL'' := Some log_level)
      | (_, None) \<Rightarrow> vars)"

text \<open>
  What the global object holds, split into what stays as it is (\<open>g_env\<close>: the tables of the
  bitstream manager, the tracker, the driver handle) and what the program then works on.
\<close>

(* src/cpp/centrum.h:86-104 Global *)
record global =
  g_config :: wee_config
  g_vars :: "string \<Rightarrow> string option"
  g_sched_config :: sched_config
  g_env :: ml_env
  g_ml :: ml_state
  g_algo_type :: sched_algo_type

text \<open>
  The members are constructed in the order of their declarations; each may throw. Then every
  scheduler is listed as free. \<open>st\<close> holds the objects the user has made so far and \<open>u\<close> the
  driver and the memories.
\<close>

(* src/cpp/centrum.cc:25-65 Global::Global *)
definition new_Global :: "start_env \<Rightarrow> nd_store \<Rightarrow> unimem_world \<Rightarrow> global res" where
  "new_Global e st u =
     bindr (new_WeeConfig (se_load_file e) (se_getenv e ''FPGAML_CONFIG_PATH'') (Some ''ConfigParams'')) (\<lambda>config.
     bindr (new_SchedConfig e config) (\<lambda>sc.
     let n = length (sc_schedulers sc) in
     bindr (new_FreeSchedulersManager (se_junk_id e) (of_nat n)) (\<lambda>m0.
     bindr (new_Dispatcher (se_junk_ptr e) n m0) (\<lambda>(algo_type, slicing, simple, m1).
     bindr (new_BitstreamManager (se_bs e) config) (\<lambda>bits.
     let tr = new_Tracker bits (map s_is_local (sc_schedulers sc)) in
     bindr (new_UnimemManager (se_open_dev e) config) (\<lambda>um.
     bindr (register_schedulers (se_libev e) (se_now e) (sc_schedulers sc) m1) (\<lambda>(ss, m2).
       Inr \<lparr>g_config = config, g_vars = new_InitLogLevel config (se_getenv e),
            g_sched_config = sc\<lparr>sc_schedulers := ss\<rparr>,
            g_env = \<lparr>e_libev = se_libev e, e_linux = se_linux e, e_tracker = tr, e_bits = bits,
                     e_unimem = um, e_malloc_ok = se_malloc_ok e\<rparr>,
            g_ml = \<lparr>ml_sched = \<lparr>ss_store = st, ss_schedulers = ss, ss_free = m2, ss_now = se_now e\<rparr>,
                    ml_simple = simple, ml_slicing = slicing, ml_uni = u\<rparr>,
            g_algo_type = algo_type\<rparr>)))))))"

text \<open>The first call constructs the object; a later one, or one after an exception, finds or retries.\<close>

(* src/cpp/centrum.cc:11-16 Global::get_instance *)
definition Global_get_instance ::
  "start_env \<Rightarrow> nd_store \<Rightarrow> unimem_world \<Rightarrow> global option \<Rightarrow> (global \<times> global option) res" where
  "Global_get_instance e st u s_global =
     (case s_global of
        Some g \<Rightarrow> Inr (g, s_global)
      | None \<Rightarrow> bindr (new_Global e st u) (\<lambda>g. Inr (g, Some g)))"

text \<open>The queues before any was created; the first command gets the number after 13.\<close>

(* src/cpp/fpgaml.cc:14-14 s_unique_command_id *)
definition first_cq_state :: "ml_state \<Rightarrow> cq_state" where
  "first_cq_state w = \<lparr>cq_ml = w, cq_queues = Map.empty, cq_sent = {}, cq_fed = {}, cq_command_id = 13\<rparr>"

section \<open>Facts\<close>

lemma launches_inv_start:
  assumes "ns_ndranges (ss_store w) = Map.empty" and "concat (queues w) = []"
  shows "launches_inv w"
  using assms by (auto simp: launches_inv_def refs_ok_def kernels_held_def events_held_def dom_def)

lemma new_AlgoSlicing_ok:
  "\<exists>al. new_AlgoSlicing junk q t = Inr al \<and> ca_wf (m_ndranges al) \<and> ca_list (m_ndranges al) = [] \<and>
    ca_bound (m_ndranges al) = 10"
proof -
  obtain c where c: "ca_new junk 10 = Inr c"
    using ca_new_small [of 10 junk] by (auto simp: max_new_def)
  then have "ca_new_default junk = Inr c" by (simp add: ca_new_def ca_new_default_def)
  then show ?thesis using ca_new_ok [OF c] by (simp add: new_AlgoSlicing_def)
qed

text \<open>What start-up needs: a configuration that can be read, with distinct regions on boards 0 to 3,
  a readable directory of bitstream descriptions, and a driver that opens.\<close>

definition can_start :: "start_env \<Rightarrow> wee_config \<Rightarrow> tuple_3 list \<Rightarrow> string list \<Rightarrow> bool" where
  "can_start e config prs names \<longleftrightarrow>
     new_WeeConfig (se_load_file e) (se_getenv e ''FPGAML_CONFIG_PATH'') (Some ''ConfigParams'') = Inr config \<and>
     snd (get_values_for_key config ''PRs'' pr_extractors []) = prs \<and> length prs < 2 ^ 31 \<and>
     (\<forall>(b, f, p)\<in>set prs. b \<le> 3) \<and> distinct (map (\<lambda>(b, f, p). scheduler_id b f p) prs) \<and>
     (\<exists>dir mmap. snd (get_value_for_key_str config ''BitstreamsPath'' None) = Some dir \<and>
        snd (get_value_for_key_bool config ''EnableBitstreamMmap'' False) = mmap \<and>
        env_readdir (se_bs e) dir = Some names \<and> names_ok names \<and>
        (\<forall>s\<in>set names. is_description s \<longrightarrow> document (se_bs e) mmap (dir @ ''/'' @ s) \<noteq> None)) \<and>
     (\<exists>drv. get_value_for_key_str config ''UnimemDriverPath'' None = (True, Some drv) \<and> 1 \<le> se_open_dev e drv)"

lemma new_SchedConfig_ok:
  assumes "new_schedulers (se_junk_wgr e) (se_junk_reconf e) (se_junk_end e)
      (snd (get_value_for_key_double config ''SchedPollingInterval'' (13743895 / 2 ^ 37)))
      (snd (get_values_for_key config ''PRs'' pr_extractors [])) = Inr ss"
  shows "\<exists>sc. new_SchedConfig e config = Inr sc \<and> sc_schedulers sc = ss"
  using assms by (simp add: new_SchedConfig_def Let_def)

lemma new_Tracker_costs:
  assumes "smap_wf (m_kernel_bitstream_struct_map b)" and "unat i < length ls"
  shows "get_wg_cost_on_island (new_Tracker b ls) i name =
    Inr (case map_of (m_kernel_bitstream_struct_map b) name of None \<Rightarrow> 1000
         | Some d \<Rightarrow> if ls ! unat i then local_cost d else remote_cost d)"
  using cost_table [OF assms(1), of ls name] assms(2)
  by (auto simp: get_wg_cost_on_island_def vec_at_def split: option.splits)


lemma new_BitstreamManager_start:
  assumes "can_start e config prs names"
  shows "\<exists>m. new_BitstreamManager (se_bs e) config = Inr m \<and> smap_wf (m_kernel_bitstream_struct_map m) \<and>
    m_xml_files_list m = filter is_description names"
proof -
  obtain dir mmap where d: "snd (get_value_for_key_str config ''BitstreamsPath'' None) = Some dir"
      "snd (get_value_for_key_bool config ''EnableBitstreamMmap'' False) = mmap"
      "env_readdir (se_bs e) dir = Some names" "names_ok names"
      "\<forall>s\<in>set names. is_description s \<longrightarrow> document (se_bs e) mmap (dir @ ''/'' @ s) \<noteq> None"
    using assms unfolding can_start_def by (elim conjE exE) (rule that)
  then show ?thesis
    using read_xml_files_ok [OF d(3-5)] new_BitstreamManager_read [OF d(1,2), of "se_bs e"] by auto
qed

lemma new_UnimemManager_start:
  assumes "can_start e config prs names"
  shows "\<exists>um. new_UnimemManager (se_open_dev e) config = Inr um \<and> 0 < m_fd um"
proof -
  obtain drv where "get_value_for_key_str config ''UnimemDriverPath'' None = (True, Some drv)" "1 \<le> se_open_dev e drv"
    using assms unfolding can_start_def by (elim conjE exE) (rule that)
  then show ?thesis by (simp add: new_UnimemManager_def Let_def)
qed

lemma new_Global_ok:
  assumes lv: "libev_ok (se_libev e)" and c: "can_start e config prs names"
  shows "\<exists>g. new_Global e st u = Inr g \<and> sched_inv (ml_sched (g_ml g)) \<and>
    ss_store (ml_sched (g_ml g)) = st \<and> queues (ml_sched (g_ml g)) = map (\<lambda>_. []) prs \<and>
    map s_id (ss_schedulers (ml_sched (g_ml g))) = map (\<lambda>(b, f, p). scheduler_id b f p) prs \<and>
    algo_wf (ml_simple (g_ml g)) (length prs) \<and> g_algo_type g = ALGO_SIMPLE \<and>
    ca_wf (m_ndranges (ml_slicing (g_ml g))) \<and> ca_list (m_ndranges (ml_slicing (g_ml g))) = [] \<and>
    ml_uni (g_ml g) = u \<and> 0 < m_fd (e_unimem (g_env g)) \<and> e_libev (g_env g) = se_libev e \<and>
    smap_wf (m_kernel_bitstream_struct_map (e_bits (g_env g))) \<and>
    m_xml_files_list (e_bits (g_env g)) = filter is_description names \<and>
    e_tracker (g_env g) = new_Tracker (e_bits (g_env g)) (map (\<lambda>(b, f, p). b = 0 \<and> f = 1) prs) \<and>
    ss_now (ml_sched (g_ml g)) = se_now e \<and>
    free_ids (ss_free (ml_sched (g_ml g))) = map (\<lambda>(b, f, p). scheduler_id b f p) prs \<and>
    (\<forall>s\<in>set (ss_schedulers (ml_sched (g_ml g))). s_end_time s = se_junk_end e \<and> \<not> s_mock_would_need_reconf s)"
proof -
  let ?poll = "snd (get_value_for_key_double config ''SchedPollingInterval'' (13743895 / 2 ^ 37))"
  have cfg: "new_WeeConfig (se_load_file e) (se_getenv e ''FPGAML_CONFIG_PATH'') (Some ''ConfigParams'') = Inr config"
    and prs: "snd (get_values_for_key config ''PRs'' pr_extractors []) = prs" "length prs < 2 ^ 31"
      "\<forall>(b, f, p)\<in>set prs. b \<le> 3" "distinct (map (\<lambda>(b, f, p). scheduler_id b f p) prs)"
    using c unfolding can_start_def by blast+
  obtain ss where ss: "new_schedulers (se_junk_wgr e) (se_junk_reconf e) (se_junk_end e) ?poll prs = Inr ss"
      "map s_is_local ss = map (\<lambda>(b, f, p). b = 0 \<and> f = 1) prs"
      "map s_id ss = map (\<lambda>(b, f, p). scheduler_id b f p) prs"
    using new_schedulers_ok [OF prs(3)] by blast
  have n: "length ss = length prs" using ss(3) by (metis length_map)
  obtain sc where sc: "new_SchedConfig e config = Inr sc" "sc_schedulers sc = ss"
    using new_SchedConfig_ok [of e config ss] ss(1) unfolding prs(1) by blast
  obtain w where w: "sched_startup (se_libev e) (se_now e) (se_junk_wgr e) (se_junk_id e) (se_junk_reconf e)
        (se_junk_end e) ?poll prs st = Inr w" "sched_inv w" "ss_store w = st" "queues w = map (\<lambda>_. []) prs"
      "map s_id (ss_schedulers w) = map (\<lambda>(b, f, p). scheduler_id b f p) prs"
      "free_ids (ss_free w) = map (\<lambda>(b, f, p). scheduler_id b f p) prs"
    using sched_startup_ok [OF lv prs(3,2,4)] by blast
  obtain m ss' m' where m: "new_FreeSchedulersManager (se_junk_id e) (of_nat (length ss)) = Inr m"
      "register_schedulers (se_libev e) (se_now e) ss (register_on_free_schedulers_cb m) = Inr (ss', m')"
      "w = \<lparr>ss_store = st, ss_schedulers = ss', ss_free = m', ss_now = se_now e\<rparr>"
    using w(1) ss(1) by (auto simp: sched_startup_def bindr_Inr_iff)
  obtain al where al: "new_AlgoSlicing (se_junk_ptr e) 30 2 = Inr al" "ca_wf (m_ndranges al)"
      "ca_list (m_ndranges al) = []" using new_AlgoSlicing_ok by blast
  obtain bits where b: "new_BitstreamManager (se_bs e) config = Inr bits"
      "smap_wf (m_kernel_bitstream_struct_map bits)" "m_xml_files_list bits = filter is_description names"
    using new_BitstreamManager_start [OF c] by blast
  obtain um where um: "new_UnimemManager (se_open_dev e) config = Inr um" "0 < m_fd um"
    using new_UnimemManager_start [OF c] by blast
  let ?env = "\<lparr>e_libev = se_libev e, e_linux = se_linux e, e_tracker = new_Tracker bits (map s_is_local ss),
      e_bits = bits, e_unimem = um, e_malloc_ok = se_malloc_ok e\<rparr>"
  let ?w = "\<lparr>ml_sched = w, ml_simple = new_AlgoSimple (length ss), ml_slicing = al, ml_uni = u\<rparr>"
  have "new_Global e st u = Inr \<lparr>g_config = config, g_vars = new_InitLogLevel config (se_getenv e),
      g_sched_config = sc\<lparr>sc_schedulers := ss'\<rparr>, g_env = ?env, g_ml = ?w, g_algo_type = ALGO_SIMPLE\<rparr>"
    using cfg sc m al(1) b(1) um(1) by (simp add: new_Global_def new_Dispatcher_def)
  then show ?thesis
    using w(2-6) al(2,3) b(2,3) um(2) new_AlgoSimple_wf [of "length ss"] ss(2) n
      sched_startup_times [OF w(1)] by simp
qed

text \<open>The highest price of a work group of a kernel, on whatever scheduler.\<close>

definition top_price :: "bitstream_manager \<Rightarrow> string \<Rightarrow> nat" where
  "top_price bits name =
     (case map_of (m_kernel_bitstream_struct_map bits) name of
        None \<Rightarrow> 1000 | Some d \<Rightarrow> max (unat (local_cost d)) (unat (remote_cost d)))"

text \<open>What the user must have made before launching: a kernel with a program, and an event.\<close>

definition launch_objects :: "nd_store \<Rightarrow> ptr \<Rightarrow> ptr \<Rightarrow> string \<Rightarrow> bool" where
  "launch_objects st kp e name \<longleftrightarrow>
     (\<exists>k pp prog. o_kernels (ns_objs st) kp = Some k \<and> m_counter k \<noteq> -1 \<and> k_program k = Some pp \<and>
        o_programs (ns_objs st) pp = Some prog \<and> m_xml_name prog = name) \<and>
     (\<exists>ev. o_events (ns_objs st) e = Some ev \<and> m_counter ev \<noteq> -1 \<and> m_cb ev \<noteq> None)"

lemma start_prices:
  assumes wf: "smap_wf (m_kernel_bitstream_struct_map bits)" and ls: "length ls = length (ss_schedulers w)"
    and t: "\<forall>s\<in>set (ss_schedulers w). s_end_time s \<le> ss_now w \<and> \<not> s_mock_would_need_reconf s"
    and n: "length (ss_schedulers w) \<le> 89" and K: "0 < K" "int K * int (top_price bits name) < 2 ^ 31"
  shows "prices_ok (new_Tracker bits ls) name w (int K)"
proof -
  have "is_ok (get_remaining_time (ss_now w) (ss_schedulers w ! i)) \<and>
      (would_need_reconf (ss_schedulers w ! i) name \<longrightarrow> is_ok (get_reconf_cost_on_island (new_Tracker bits ls) (of_nat i) name)) \<and>
      is_ok (get_wg_cost_on_island (new_Tracker bits ls) (of_nat i) name) \<and>
      0 \<le> price_remaining w i \<and> 0 \<le> price_reconf (new_Tracker bits ls) name w i \<and>
      0 \<le> price_wg (new_Tracker bits ls) name i \<and>
      int K * price_wg (new_Tracker bits ls) name i + price_remaining w i +
        price_reconf (new_Tracker bits ls) name w i < 2 ^ 31" if i: "i < length (ss_schedulers w)" for i
  proof -
    have si: "ss_schedulers w ! i \<in> set (ss_schedulers w)" using i by simp
    have r: "get_remaining_time (ss_now w) (ss_schedulers w ! i) = Inr 0"
      using t si by (auto simp: get_remaining_time_def rat_to_unsigned_def)
    have nr: "\<not> would_need_reconf (ss_schedulers w ! i) name"
      using t si by (simp add: would_need_reconf_def)
    have u: "unat (of_nat i :: u32) = i" by (rule unat_of_nat_small) (use i n in simp)
    obtain c where c: "get_wg_cost_on_island (new_Tracker bits ls) (of_nat i) name = Inr c"
        "unat c \<le> top_price bits name"
      using new_Tracker_costs [OF wf, of "of_nat i" ls name] i ls u
      by (auto simp: top_price_def split: option.splits)
    have le: "int K * int (unat c) \<le> int K * int (top_price bits name)"
      using c(2) by (intro mult_left_mono) (simp_all only: of_nat_le_iff of_nat_0_le_iff)
    have "1 * int (unat c) \<le> int K * int (unat c)" by (rule mult_right_mono) (use K(1) in simp_all)
    then have "int (unat c) < int (2 ^ 31)" using le K(2) by simp
    then have "unat c < 2 ^ 31" by (simp only: of_nat_less_iff)
    then have "sint c = int (unat c)" by (rule sint_small)
    then have p: "price_wg (new_Tracker bits ls) name i = int (unat c)" by (simp add: price_wg_def c(1))
    show ?thesis using r nr c(1) p le K(2)
      by (simp add: price_remaining_def price_reconf_def)
  qed
  then show ?thesis unfolding prices_ok_def by blast
qed

section \<open>Properties\<close>

text \<open>C10: Start-up succeeds on every configuration that can be read, lists fewer than \<open>2 ^ 31\<close> regions of
  boards 0 to 3 with distinct scheduler identifiers, names a readable directory of
  descriptions and a driver that opens. Distinct regions may collide in the identifier, as (0, 1, 4)
  and (0, 2, 0) do, so the identifiers have to be distinct, not only the regions. Start-up then
  establishes the invariants the rest of the program relies on: one scheduler per region with
  nothing queued; the list of free schedulers holds their identifiers in the order of the
  configuration; the tables of the simple algorithm are as long as the list of schedulers. When
  there are 1 to 89 schedulers and their end times, which the constructor leaves uninitialised,
  happen not to lie in the future, a launch of at least one group is ready to be routed if its
  objects exist and the price of all groups at the higher of the kernel's two costs is below
  \<open>2 ^ 31\<close>.\<close>
theorem startup_establishes_invariants:
  assumes "libev_ok (se_libev e)" and "can_start e config prs names" and "ns_ndranges st = Map.empty"
  shows "\<exists>g. new_Global e st u = Inr g \<and> sched_inv (ml_sched (g_ml g)) \<and> launches_inv (ml_sched (g_ml g)) \<and>
    queues (ml_sched (g_ml g)) = map (\<lambda>_. []) prs \<and>
    map s_id (ss_schedulers (ml_sched (g_ml g))) = map (\<lambda>(b, f, p). scheduler_id b f p) prs \<and>
    free_ids (ss_free (ml_sched (g_ml g))) = map (\<lambda>(b, f, p). scheduler_id b f p) prs \<and>
    algo_wf (ml_simple (g_ml g)) (length prs) \<and>
    (\<forall>kp ev name gsize lsize K. se_junk_end e \<le> se_now e \<and> prs \<noteq> [] \<and> length prs \<le> 89 \<and>
       launch_objects st kp ev name \<and> lsize ! 0 \<noteq> 0 \<and> K = unat (ucast (gsize ! 0 div lsize ! 0) :: u32) \<and>
       0 < K \<and> int K < int_max \<and> int K * int (top_price (e_bits (g_env g)) name) < 2 ^ 31 \<longrightarrow>
       command_ready (g_env g) kp gsize lsize ev name (g_ml g))"
proof -
  obtain g where g: "new_Global e st u = Inr g" "sched_inv (ml_sched (g_ml g))"
      "ss_store (ml_sched (g_ml g)) = st" "queues (ml_sched (g_ml g)) = map (\<lambda>_. []) prs"
      "map s_id (ss_schedulers (ml_sched (g_ml g))) = map (\<lambda>(b, f, p). scheduler_id b f p) prs"
      "algo_wf (ml_simple (g_ml g)) (length prs)"
      "smap_wf (m_kernel_bitstream_struct_map (e_bits (g_env g)))"
      "e_tracker (g_env g) = new_Tracker (e_bits (g_env g)) (map (\<lambda>(b, f, p). b = 0 \<and> f = 1) prs)"
      "ss_now (ml_sched (g_ml g)) = se_now e"
      "free_ids (ss_free (ml_sched (g_ml g))) = map (\<lambda>(b, f, p). scheduler_id b f p) prs"
      "\<forall>s\<in>set (ss_schedulers (ml_sched (g_ml g))). s_end_time s = se_junk_end e \<and> \<not> s_mock_would_need_reconf s"
    using new_Global_ok [OF assms(1,2), of st u] by (elim exE conjE) (rule that)
  let ?w = "ml_sched (g_ml g)"
  have q: "concat (queues ?w) = []" by (simp add: g(4))
  have l: "launches_inv ?w" by (rule launches_inv_start) (simp_all add: g(3) assms(3) q)
  have n: "length (ss_schedulers ?w) = length prs" using g(5) by (metis length_map)
  have "command_ready (g_env g) kp gsize lsize ev name (g_ml g)"
    if h: "se_junk_end e \<le> se_now e" "prs \<noteq> []" "length prs \<le> 89" "launch_objects st kp ev name" "lsize ! 0 \<noteq> 0"
      "K = unat (ucast (gsize ! 0 div lsize ! 0) :: u32)" "0 < K" "int K < int_max"
      "int K * int (top_price (e_bits (g_env g)) name) < 2 ^ 31" for kp ev name gsize lsize K
  proof -
    have "prices_ok (e_tracker (g_env g)) name ?w (int K)"
      unfolding g(8) by (rule start_prices [OF g(7)]) (use g(9,11) h n in auto)
    moreover have "queues ?w ! i = []" if "i < length prs" for i using that by (simp add: g(4))
    ultimately show ?thesis
      using h g(6) unfolding command_ready_def launch_objects_def Let_def n g(3) assms(3) by simp
  qed
  then show ?thesis using g(1,2,4-6,10) l by blast
qed

section \<open>Example\<close>

text \<open>The shipped configuration, an empty directory of descriptions, and a driver that opens.\<close>

definition demo_start_env :: start_env where
  "demo_start_env = \<lparr>se_getenv = (\<lambda>_. None),
     se_load_file = (\<lambda>p. if p = ''./default_config.xml'' then Some default_config_xml else None),
     se_bs = \<lparr>env_readdir = (\<lambda>_. Some []), env_mmap = (\<lambda>_. None), env_load_file = (\<lambda>_. None), env_load_string = (\<lambda>_. None)\<rparr>,
     se_open_dev = (\<lambda>_. 3), se_linux = demo_linux, se_malloc_ok = True, se_libev = demo_libev, se_now = 0,
     se_junk_wgr = (\<lambda>_. empty_WorkGroupRange 0), se_junk_id = (\<lambda>_. 0), se_junk_ptr = (\<lambda>_. 0),
     se_junk_reconf = True, se_junk_end = 0, se_junk_fd = 0\<rparr>"

definition demo_config_node :: xml_node where
  "demo_config_node = the (xml_child (Some default_config_xml) ''ConfigParams'')"

lemma demo_can_start: "can_start demo_start_env \<lparr>m_top_node = Some demo_config_node\<rparr> demo_regions []"
proof -
  let ?c = "\<lparr>m_top_node = Some demo_config_node\<rparr>"
  have c: "new_WeeConfig (se_load_file demo_start_env) (se_getenv demo_start_env ''FPGAML_CONFIG_PATH'')
      (Some ''ConfigParams'') = Inr ?c"
    by (simp add: new_WeeConfig_def demo_start_env_def demo_config_node_def default_config_xml_def)
  have p: "snd (get_values_for_key ?c ''PRs'' pr_extractors []) = demo_regions"
    by (simp add: demo_config_node_def default_config_xml_def get_values_for_key_def extract_one_def
        pr_extractors_def set_tuple_value_def demo_regions_def atoi_def strtoul_def
        read_integer_def c_space_def digit_val_def digits_nat_def)
  have s: "get_value_for_key_str ?c ''BitstreamsPath'' None = (True, Some ''/home/bitstreams'')"
    "get_value_for_key_str ?c ''UnimemDriverPath'' None = (True, Some ''/dev/unimem_buffer_allocator'')"
    by (simp_all add: demo_config_node_def default_config_xml_def get_value_for_key_str_def)
  have d: "distinct (map (\<lambda>(b, f, p). scheduler_id b f p) demo_regions)" by (simp add: demo_regions_ids(1))
  show ?thesis
    using c p s d demo_regions_ids(2,3) by (simp add: can_start_def demo_start_env_def names_ok_def)
qed

theorem startup_establishes_invariants_witness:
  "\<exists>g. new_Global demo_start_env (demo_store\<lparr>ns_ndranges := Map.empty\<rparr>) demo_uw = Inr g \<and>
    sched_inv (ml_sched (g_ml g)) \<and> map s_id (ss_schedulers (ml_sched (g_ml g))) = [1, 3] \<and>
    free_ids (ss_free (ml_sched (g_ml g))) = [1, 3]"
proof -
  have lv: "libev_ok (se_libev demo_start_env)" by (simp add: demo_start_env_def demo_libev_ok)
  have st: "ns_ndranges (demo_store\<lparr>ns_ndranges := Map.empty\<rparr>) = Map.empty" by simp
  show ?thesis
    using startup_establishes_invariants [OF lv demo_can_start st, of demo_uw]
    by (metis (no_types, lifting) demo_regions_ids(1))
qed

end
