(* ===== verification/Reachable.thy ===== *)
theory Reachable
  imports Queue_Types Centrum
begin

text \<open>
  What holds in every reachable state of the whole program: whatever threads call, in whatever order
  the event loop serves queues and timers, and however time passes, the schedulers, their timers
  and the list of free schedulers fit together.
\<close>

section \<open>Calls leave the schedulers alone\<close>

definition core :: "cq_state \<Rightarrow> scheduler list \<times> free_sched_mgr \<times> rat" where
  "core st = (let w = ml_sched (cq_ml st) in (ss_schedulers w, ss_free w, ss_now w))"

lemma core_simps [simp]:
  "core (with_objs s st) = core st" "core (set_queue q cq st) = core st" "core (st\<lparr>cq_queues := Q\<rparr>) = core st"
  "core (st\<lparr>cq_sent := F\<rparr>) = core st" "core (st\<lparr>cq_fed := F\<rparr>) = core st" "core (st\<lparr>cq_command_id := i\<rparr>) = core st"
  "core (st\<lparr>cq_ml := (cq_ml st)\<lparr>ml_uni := u\<rparr>\<rparr>) = core st"
  by (simp_all add: core_def with_objs_def put_objs_def set_queue_def Let_def)

named_theorems cores "operations that leave the schedulers alone"

lemma push_back_core [cores]: "cq_push_back g q c st = Inr (rc, st') \<Longrightarrow> core st' = core st"
  by (auto simp: cq_push_back_def bindr_Inr_iff Let_def split: if_splits)

lemma submit_core [cores]: "ml_submit_cmd g q c i st = Inr (rc, j, st') \<Longrightarrow> core st' = core st"
  by (auto simp: ml_submit_cmd_def bindr_Inr_iff Let_def dest!: push_back_core split: option.splits)

lemma handle_blocking_core [cores]: "handle_blocking_non_blocking b x u st = Inr c \<Longrightarrow> core (call_state c) = core st"
  by (auto simp: handle_blocking_non_blocking_def bindr_Inr_iff split: if_splits)

lemma submit_and_wait_core [cores]: "submit_and_wait g q cmd b u st = Inr c \<Longrightarrow> core (call_state c) = core st"
  by (auto simp: submit_and_wait_def bindr_Inr_iff dest!: submit_core handle_blocking_core split: if_splits)

lemma enqueue_core [cores]:
  "clEnqueueWriteBuffer g q m b off sz p u st = Inr c \<Longrightarrow> core (call_state c) = core st"
  "clEnqueueReadBuffer g q m b off sz p u st = Inr c \<Longrightarrow> core (call_state c) = core st"
  "clFinish g q st = Inr c \<Longrightarrow> core (call_state c) = core st"
  "clEnqueueNDRangeKernel env g q k d go gs ls st = Inr (rc, st') \<Longrightarrow> core st' = core st"
  by (auto simp: clEnqueueWriteBuffer_def clEnqueueReadBuffer_def clFinish_def clEnqueueNDRangeKernel_def bindr_Inr_iff split_beta
      dest!: submit_and_wait_core submit_core split: if_splits option.splits)

lemma create_queue_core [cores]: "clCreateCommandQueue junk st = Inr (q, st') \<Longrightarrow> core st' = core st"
  by (auto simp: clCreateCommandQueue_def ml_create_cmd_q_def create_new_def fresh_def bindr_Inr_iff)

lemma release_queue_core [cores]: "clReleaseCommandQueue g q st = Inr (rc, st') \<Longrightarrow> core st' = core st"
  by (auto simp: clReleaseCommandQueue_def ml_cmd_q_ref_cnt_down_def bindr_Inr_iff split: if_splits option.splits)

lemma write_through_core [cores]:
  assumes w: "write_through junk g m sz h er st = Inr d"
  shows "core (call_state d) = core st"
proof -
  obtain q st1 c where c: "clCreateCommandQueue junk st = Inr (q, st1)"
      "clEnqueueWriteBuffer g (Some q) (Some m) True 0 sz h False st1 = Inr c"
      "bind_call c (\<lambda>(rc, _) st2. bindr (clReleaseCommandQueue 0 (Some q) st2) (\<lambda>(_, st3).
           Inr (Done (Some m, if er then Some rc else None) st3))) = Inr d"
    using w by (auto simp: write_through_def bindr_Inr_iff)
  have "core (call_state c) = core st" using create_queue_core [OF c(1)] enqueue_core(1) [OF c(2)] by simp
  moreover have "core (call_state d) = core (call_state c)"
    using c(3) by (cases c) (auto simp: bindr_Inr_iff split_beta dest!: release_queue_core)
  ultimately show ?thesis by simp
qed

lemma new_mem_obj_core [simp]: "core (snd (new_mem_obj st)) = core st"
  by (simp add: new_mem_obj_def fresh_def)

lemma create_buffer_core [cores]: "clCreateBuffer junk g ctx fl sz h er st = Inr c \<Longrightarrow> core (call_state c) = core st"
  by (auto simp: clCreateBuffer_def bindr_Inr_iff split_beta Let_def dest!: write_through_core split: if_splits)

lemma user_write_core [cores]: "user_write p bs st = Inr st' \<Longrightarrow> core st' = core st"
  by (auto simp: user_write_def Let_def split: if_splits)

lemma api_core: "api env g c st = Inr st' \<Longrightarrow> core st' = core st"
  by (cases c) (auto simp: bindr_Inr_iff clCreateContext_def clCreateProgramWithSource_def clBuildProgram_def
      clGetProgramBuildInfo_def copy_log_def clCreateKernel_def clSetKernelArg_def clReleaseKernel_def
      clReleaseMemObject_def clReleaseProgram_def clReleaseContext_def clGetDeviceInfo_def copy_info_def
      fresh_def split_beta Let_def dest!: cores split: if_splits option.splits)

section \<open>Handlers move the schedulers by their own steps\<close>

abbreviation moves :: "libev \<Rightarrow> sched_state \<Rightarrow> sched_state \<Rightarrow> bool" where
  "moves lv \<equiv> (sched_step lv)\<^sup>*\<^sup>*"

lemma submit_is_step: "submit_wgr lv i x w = Inr w' \<Longrightarrow> sched_step lv w w'"
  by (rule sched_step.submit) (auto simp: submit_wgr_def sched_at_def bindr_Inr_iff split: if_splits)

lemma submit_stored_moves: "submit_wgr lv i x (w\<lparr>ss_store := st\<rparr>) = Inr w' \<Longrightarrow> moves lv w w'"
  using sched_step.others [of lv w st] submit_is_step by (meson converse_rtranclp_into_rtranclp r_into_rtranclp)

lemma carve_island_moves: "carve_island lv p a i w = Inr w' \<Longrightarrow> moves lv w w'"
  by (auto simp: carve_island_def bindr_Inr_iff intro: submit_stored_moves split: if_splits)

lemma carve_islands_moves: "foldr_res (carve_island lv p a) is w = Inr w' \<Longrightarrow> moves lv w w'"
proof (induction "is" arbitrary: w)
  case (Cons i "is")
  then obtain w1 where "carve_island lv p a i w = Inr w1" "foldr_res (carve_island lv p a) is w1 = Inr w'"
    by (auto simp: bindr_Inr_iff)
  then show ?case using carve_island_moves Cons.IH by (meson rtranclp_trans)
qed simp

lemma simple_route_moves: "simple_route_ndrange lv tr p a w = Inr (rc, a', w') \<Longrightarrow> moves lv w w'"
  by (auto simp: simple_route_ndrange_def bindr_Inr_iff dest!: carve_islands_moves split: if_splits option.splits)

lemma stored_moves: "moves lv (w\<lparr>ss_store := st\<rparr>) w' \<Longrightarrow> moves lv w w'"
  using sched_step.others [of lv w st] by (rule converse_rtranclp_into_rtranclp)

lemma handle_ndrange_moves:
  "handle_ndrange_command env k gs ls ev w = Inr w' \<Longrightarrow> moves (e_libev env) (ml_sched w) (ml_sched w')"
  by (auto simp: handle_ndrange_command_def bindr_Inr_iff Let_def split_beta dest!: simple_route_moves stored_moves
      split: option.splits if_splits)

lemma put_objs_moves: "moves lv (ml_sched w) (ml_sched (put_objs s w))"
  using sched_step.others [of lv "ml_sched w"] by (auto simp: put_objs_def)

lemma handle_write_moves:
  "handle_write_command env m sz p w = Inr (c, w') \<Longrightarrow> moves lv (ml_sched w) (ml_sched w')"
  using put_objs_moves [of lv "w\<lparr>ml_uni := u\<rparr>" for u]
  by (auto simp: handle_write_command_def bindr_Inr_iff Let_def split_beta split: if_splits)

lemma handle_read_same: "handle_read_command env m sz p w = Inr (c, w') \<Longrightarrow> ml_sched w' = ml_sched w"
  by (auto simp: handle_read_command_def bindr_Inr_iff split: if_splits option.splits)

lemma finish_command_moves: "finish_command ev c w = Inr (w', cbs) \<Longrightarrow> moves lv (ml_sched w) (ml_sched w')"
  by (auto simp: finish_command_def bindr_Inr_iff split_beta intro: put_objs_moves)

lemma handle_a_cmd_moves:
  assumes "handle_a_cmd env cmd w = Inr (w', cbs)"
  shows "moves (e_libev env) (ml_sched w) (ml_sched w')"
proof (cases "m_command_type cmd")
  case WRITE_BUFFER
  then obtain m off sz p c w1 where "handle_write_command env m sz p w = Inr (c, w1)" "finish_command (m_event cmd) c w1 = Inr (w', cbs)"
    using assms by (auto simp: handle_a_cmd_def bindr_Inr_iff split: cmd_body.splits)
  then show ?thesis using handle_write_moves finish_command_moves by (meson rtranclp_trans)
next
  case READ_BUFFER
  then obtain m off sz p c w1 where "handle_read_command env m sz p w = Inr (c, w1)" "finish_command (m_event cmd) c w1 = Inr (w', cbs)"
    using assms by (auto simp: handle_a_cmd_def bindr_Inr_iff split: cmd_body.splits)
  then show ?thesis using handle_read_same finish_command_moves by metis
qed (use assms in \<open>auto simp: handle_a_cmd_def bindr_Inr_iff dest: handle_ndrange_moves split: cmd_body.splits\<close>)

section \<open>The event loop\<close>

abbreviation scheds :: "cq_state \<Rightarrow> sched_state" where
  "scheds st \<equiv> ml_sched (cq_ml st)"

lemma core_moves:
  assumes "core st' = core st"
  shows "moves lv (scheds st) (scheds st')"
proof -
  have "scheds st' = (scheds st)\<lparr>ss_store := ss_store (scheds st')\<rparr>"
    using assms by (simp add: core_def Let_def)
  then show ?thesis using sched_step.others [of lv "scheds st" "ss_store (scheds st')"] by auto
qed

lemma completions_core: "foldr_res on_event_complete cbs st = Inr st' \<Longrightarrow> core st' = core st"
proof (induction cbs arbitrary: st)
  case (Cons cb cbs)
  then show ?case by (cases cb) (auto simp: bindr_Inr_iff)
qed simp

lemma self_destroy_core: "check_self_destroy q st = Inr st' \<Longrightarrow> core st' = core st"
  by (auto simp: check_self_destroy_def bindr_Inr_iff delete_queue_def split: if_splits)

lemma serve_command_moves:
  assumes "serve_command env q cmd st = Inr st'"
  shows "moves (e_libev env) (scheds st) (scheds st')"
proof -
  obtain st1 w2 cbs st3 st4 s5 where s: "set_last_event q (m_event cmd) st = Inr st1"
      "handle_a_cmd env cmd (cq_ml st1) = Inr (w2, cbs)" "foldr_res on_event_complete cbs (st1\<lparr>cq_ml := w2\<rparr>) = Inr st3"
      "go_on q st3 = Inr st4" "st' = with_objs s5 st4"
    using assms by (auto simp: serve_command_def bindr_Inr_iff)
  have "core st1 = core st" by (rule set_last_event_steps [OF s(1)]) simp
  then have a: "moves (e_libev env) (scheds st) (scheds st1)" by (rule core_moves)
  have b: "moves (e_libev env) (scheds st1) (scheds (st1\<lparr>cq_ml := w2\<rparr>))" using handle_a_cmd_moves [OF s(2)] by simp
  have "core st' = core (st1\<lparr>cq_ml := w2\<rparr>)"
    using completions_core [OF s(3)] s(4,5) by (auto simp: go_on_def bindr_Inr_iff dest: self_destroy_core split: if_splits)
  then have "moves (e_libev env) (scheds (st1\<lparr>cq_ml := w2\<rparr>)) (scheds st')" by (rule core_moves)
  with a b show ?thesis by (meson rtranclp_trans)
qed

lemma on_new_cmd_moves:
  assumes s: "on_new_cmd_cb env q st = Inr st'" and ok: "queues_ok st"
  shows "moves (e_libev env) (scheds st) (scheds st')"
proof -
  have wf: "ca_wf (q_ring_buffer cq)" if "cq_queues st q = Some cq" for cq
    using queues_okD [OF ok that] by (simp add: queue_ok_def)
  show ?thesis
  proof (rule on_new_cmd_cases [OF s wf])
    fix cq c r
    assume "serve_command env q c (set_queue q (cq\<lparr>q_ring_buffer := r\<rparr>) st) = Inr st'"
    from serve_command_moves [OF this] show "moves (e_libev env) (scheds st) (scheds st')" by simp
  qed (use core_moves [OF self_destroy_core] in auto)
qed

section \<open>The timer of the free schedulers\<close>

text \<open>
  When that timer's callback runs, the library has already stopped or restarted the timer, so for
  a moment it need not agree with the list. The state with some other timer there:
\<close>

definition retimed :: "ev_timer \<Rightarrow> sched_state \<Rightarrow> sched_state" where
  "retimed t w = w\<lparr>ss_free := (ss_free w)\<lparr>f_free_sched_timer := t\<rparr>\<rparr>"

lemma retimed_simps [simp]:
  "ss_schedulers (retimed t w) = ss_schedulers w" "ss_store (retimed t w) = ss_store w" "ss_now (retimed t w) = ss_now w"
  "f_free_schedulers (ss_free (retimed t w)) = f_free_schedulers (ss_free w)" "f_cb (ss_free (retimed t w)) = f_cb (ss_free w)"
  "f_free_sched_timer (ss_free (retimed t w)) = t" "free_ids (ss_free (retimed t w)) = free_ids (ss_free w)"
  "retimed t' (retimed t w) = retimed t' w"
  by (simp_all add: retimed_def free_ids_def)

lemma retimed_same: "retimed (f_free_sched_timer (ss_free w)) w = w"
  by (simp add: retimed_def)

lemma sched_inv_retimed:
  "sched_inv w \<Longrightarrow> t_active t \<longleftrightarrow> free_ids (ss_free w) \<noteq> [] \<Longrightarrow> sched_inv (retimed t w)"
  by (simp add: sched_inv_def free_wf_def retimed_def free_ids_def)

lemma remove_free_retimed:
  assumes r: "remove_free_scheduler lv now (m\<lparr>f_free_sched_timer := t\<rparr>) sid = Inr m'" and lv: "libev_ok lv"
  shows "\<exists>m2 t'. remove_free_scheduler lv now m sid = Inr m2 \<and> m' = m2\<lparr>f_free_sched_timer := t'\<rparr> \<and>
    (free_ids m2 = [] \<longrightarrow> \<not> t_active t')"
proof -
  obtain c where c: "remove_id_loop 0 sid (f_free_schedulers m) = Inr c"
    using r by (auto simp: remove_free_scheduler_def bindr_Inr_iff)
  let ?m = "m\<lparr>f_free_schedulers := c\<rparr>"
  have l: "free_ids ?m = [] \<longleftrightarrow> ca_empty c" by (simp add: free_ids_def ca_empty_iff)
  show ?thesis
  proof (cases "ca_empty c")
    case True
    then have "remove_free_scheduler lv now m sid = Inr (?m\<lparr>f_free_sched_timer := stop_timer lv now (f_free_sched_timer m)\<rparr>)"
      "m' = ?m\<lparr>f_free_sched_timer := stop_timer lv now t\<rparr>"
      using r c by (simp_all add: remove_free_scheduler_def Let_def)
    then show ?thesis using lv by (simp add: stop_timer_def libev_okD exI [of _ "lv_stop lv now t"])
  next
    case False
    then have "remove_free_scheduler lv now m sid = Inr ?m" "m' = ?m\<lparr>f_free_sched_timer := t\<rparr>"
      using r c by (simp_all add: remove_free_scheduler_def Let_def) (cases m, auto)
    then show ?thesis using l False by blast
  qed
qed

text \<open>The scheduler that \<open>submit_wgr\<close> puts back.\<close>

definition submitted :: "libev \<Rightarrow> nd_store \<Rightarrow> rat \<Rightarrow> work_group_range \<Rightarrow> scheduler \<Rightarrow> scheduler res" where
  "submitted lv st now x s =
     bindr (ca_push_back (s_in_queue s) x False) (\<lambda>(_, q).
       if \<not> is_active (s_timer s) \<and> ca_occupancy q < 2
       then bindr (wgr_get_kernel_name st x) (\<lambda>_.
              Inr (s\<lparr>s_in_queue := q, s_end_time := now + cost_seconds x,
                     s_timer := start_timer lv now (s_timer s) (cost_seconds x) 0\<rparr>))
       else Inr (s\<lparr>s_in_queue := q\<rparr>))"

lemma submit_wgr_form:
  "submit_wgr lv i x w = bindr (sched_at w i) (\<lambda>s. bindr (submitted lv (ss_store w) (ss_now w) x s) (\<lambda>s2.
     bindr (remove_free_scheduler lv (ss_now w) (ss_free w) (s_id s2)) (\<lambda>f.
       Inr ((set_sched w i s2)\<lparr>ss_free := f\<rparr>))))"
  by (cases "sched_at w i"; cases "ca_push_back (s_in_queue (ss_schedulers w ! i)) x False"; cases "wgr_get_kernel_name (ss_store w) x")
    (auto simp: submit_wgr_def submitted_def sched_at_def Let_def split: if_splits prod.splits)

lemma submitted_id: "submitted lv st now x s = Inr s2 \<Longrightarrow> s_id s2 = s_id s"
  by (auto simp: submitted_def bindr_Inr_iff split: if_splits)

lemma submit_retimed:
  assumes s: "submit_wgr lv i x (retimed t w) = Inr w1" and lv: "libev_ok lv"
  shows "\<exists>w2 t'. submit_wgr lv i x w = Inr w2 \<and> w1 = retimed t' w2 \<and> (free_ids (ss_free w2) = [] \<longrightarrow> \<not> t_active t')"
proof -
  obtain s1 s2 f where f: "sched_at w i = Inr s1" "submitted lv (ss_store w) (ss_now w) x s1 = Inr s2"
      "remove_free_scheduler lv (ss_now w) ((ss_free w)\<lparr>f_free_sched_timer := t\<rparr>) (s_id s2) = Inr f"
      "w1 = (set_sched (retimed t w) i s2)\<lparr>ss_free := f\<rparr>"
    using s by (auto simp: submit_wgr_form bindr_Inr_iff sched_at_def retimed_def split: if_splits)
  obtain m2 t' where m2: "remove_free_scheduler lv (ss_now w) (ss_free w) (s_id s2) = Inr m2"
      "f = m2\<lparr>f_free_sched_timer := t'\<rparr>" "free_ids m2 = [] \<longrightarrow> \<not> t_active t'"
    using remove_free_retimed [OF f(3) lv] by blast
  have "submit_wgr lv i x w = Inr ((set_sched w i s2)\<lparr>ss_free := m2\<rparr>)"
    using f(1,2) m2(1) by (simp add: submit_wgr_form)
  moreover have "w1 = retimed t' ((set_sched w i s2)\<lparr>ss_free := m2\<rparr>)"
    by (simp add: f(4) m2(2) retimed_def set_sched_def)
  moreover have "free_ids (ss_free ((set_sched w i s2)\<lparr>ss_free := m2\<rparr>)) = free_ids m2" by simp
  ultimately show ?thesis using m2(3) by metis
qed

text \<open>What a step of the slicing algorithm does to the schedulers.\<close>

lemma on_free_schedulers_cases:
  assumes f: "on_free_schedulers lv tr al w = Inr (al', w')"
  obtains "w' = w" | i x st where "submit_wgr lv i x (w\<lparr>ss_store := st\<rparr>) = Inr w'"
proof (cases "ca_empty (m_ndranges al) \<or> ca_empty (f_free_schedulers (ss_free w))")
  case True
  then show ?thesis using f that(1) by (simp add: on_free_schedulers_def Let_def)
next
  case False
  then show ?thesis using f that
    unfolding on_free_schedulers_def Let_def if_not_P [OF False] bindr_Inr_iff
    by (fastforce simp: bindr_Inr_iff split: if_splits prod.splits)
qed

section \<open>What the steps leave alone\<close>

definition frame :: "sched_state \<Rightarrow> u32 list \<times> bool" where
  "frame w = (map s_id (ss_schedulers w), f_cb (ss_free w))"

lemma frame_simps [simp]:
  "frame (w\<lparr>ss_store := st\<rparr>) = frame w" "frame (w\<lparr>ss_now := now\<rparr>) = frame w" "frame (retimed t w) = frame w"
  by (simp_all add: frame_def)

lemma frame_set:
  assumes "sched_at w i = Inr s" and "s_id s' = s_id s" and "f_cb f = f_cb (ss_free w)"
  shows "frame ((set_sched w i s')\<lparr>ss_free := f\<rparr>) = frame w"
proof -
  have "i < length (ss_schedulers w)" "s = ss_schedulers w ! i" using assms(1) by (auto simp: sched_at_def split: if_splits)
  then have "map s_id ((ss_schedulers w)[i := s']) = map s_id (ss_schedulers w)"
    using assms(2) by (simp add: map_update list_update_same_conv)
  then show ?thesis using assms(3) by (simp add: frame_def set_sched_def)
qed

lemma submit_frame: "submit_wgr lv i x w = Inr w' \<Longrightarrow> frame w' = frame w"
  by (auto simp: submit_wgr_form bindr_Inr_iff remove_free_scheduler_def Let_def submitted_id intro!: frame_set split: if_splits)

lemma on_timer_frame:
  assumes t: "on_timer lv i w = Inr (w', cbs)"
  shows "frame w' = frame w"
proof -
  obtain s st s' f where f: "sched_at w i = Inr s" "s_id s' = s_id s" "f_cb f = f_cb (ss_free w)"
      "w' = ((set_sched w i s')\<lparr>ss_free := f\<rparr>)\<lparr>ss_store := st\<rparr>"
  proof -
    obtain s x q st where s: "sched_at w i = Inr s" "ca_pop_front (s_in_queue s) = Inr (x, q)"
        "mark_as_finished (ss_store w) x = Inr (st, cbs)"
      using t by (auto simp: on_timer_def bindr_Inr_iff Let_def split: if_splits)
    show ?thesis
    proof (cases "ca_empty q")
      case True
      then obtain f where f: "add_free_scheduler lv (ss_now w) (ss_free w) (s_id s) = Inr f"
          "w' = (set_sched (w\<lparr>ss_store := st\<rparr>) i (s\<lparr>s_in_queue := q, s_end_time := 0\<rparr>))\<lparr>ss_free := f\<rparr>"
        using t s by (auto simp: on_timer_def bindr_Inr_iff Let_def)
      have "f_cb f = f_cb (ss_free w)" using f(1) by (auto simp: add_free_scheduler_def bindr_Inr_iff Let_def split: if_splits)
      then show ?thesis
        by (intro that [OF s(1), of "s\<lparr>s_in_queue := q, s_end_time := 0\<rparr>" f st]) (simp_all add: f(2) set_sched_def)
    next
      case False
      then obtain y where y: "w' = set_sched (w\<lparr>ss_store := st\<rparr>) i (s\<lparr>s_in_queue := q, s_end_time := ss_now w + cost_seconds y,
          s_timer := start_timer lv (ss_now w) (s_timer s) (cost_seconds y) 0\<rparr>)"
        using t s by (auto simp: on_timer_def bindr_Inr_iff Let_def)
      show ?thesis
        by (rule that [OF s(1), of "s\<lparr>s_in_queue := q, s_end_time := ss_now w + cost_seconds y,
          s_timer := start_timer lv (ss_now w) (s_timer s) (cost_seconds y) 0\<rparr>" "ss_free w" st]) (simp_all add: y set_sched_def)
    qed
  qed
  show ?thesis unfolding f(4) using frame_set [OF f(1-3)] by simp
qed

lemma fire_frame:
  assumes "fire_scheduler lv i w = Inr (w', cbs)"
  shows "frame w' = frame w"
proof -
  obtain s where s: "sched_at w i = Inr s"
      "on_timer lv i (set_sched w i (s\<lparr>s_timer := lv_expire lv (ss_now w) (s_timer s)\<rparr>)) = Inr (w', cbs)"
    using assms by (auto simp: fire_scheduler_def bindr_Inr_iff)
  have "frame (set_sched w i s') = frame w" if "s_id s' = s_id s" for s'
    using frame_set [OF s(1) that refl] by (simp add: set_sched_def frame_def)
  then show ?thesis using on_timer_frame [OF s(2)] by simp
qed

lemma sched_step_frame: "sched_step lv w w' \<Longrightarrow> frame w' = frame w"
  by (cases rule: sched_step.cases) (auto dest: submit_frame fire_frame)

lemma moves_frame: "moves lv w w' \<Longrightarrow> frame w' = frame w"
  by (induction rule: rtranclp_induct) (auto dest: sched_step_frame)

section \<open>The invariant\<close>

definition world_ok :: "u32 list \<Rightarrow> cq_state \<Rightarrow> bool" where
  "world_ok ids st \<longleftrightarrow> queues_ok st \<and> sched_inv (scheds st) \<and> frame (scheds st) = (ids, True)"

lemma world_moves:
  assumes "world_ok ids st" and "moves lv (scheds st) (scheds st')" and "libev_ok lv" and "queues_ok st'"
  shows "world_ok ids st'"
  using assms(1,4) sched_steps_inv [OF assms(2,3)] moves_frame [OF assms(2)] by (simp add: world_ok_def)

text \<open>The callback of the free schedulers' timer runs while there are free schedulers, and leaves the
  timer running exactly if there still are.\<close>

lemma free_on_timer_inv:
  assumes f: "free_on_timer lv tr al (retimed t w) = Inr (al', w')" and lv: "libev_ok lv"
    and inv: "sched_inv w" and ne: "free_ids (ss_free w) \<noteq> []" and cb: "f_cb (ss_free w)"
  shows "sched_inv w' \<and> frame w' = frame w"
proof -
  have occ: "ca_occupancy (f_free_schedulers m) = 0 \<longleftrightarrow> free_ids m = []" for m
    using ca_occupancy_length [of "f_free_schedulers m"] by (auto simp: free_ids_def unat_eq_0)
  obtain w1 where w1: "on_free_schedulers lv tr al (retimed t w) = Inr (al', w1)"
      "w' = (if ca_occupancy (f_free_schedulers (ss_free w1)) \<noteq> 0
             then w1\<lparr>ss_free := (ss_free w1)\<lparr>f_free_sched_timer :=
                    start_timer lv (ss_now w1) (f_free_sched_timer (ss_free w1)) 0 0\<rparr>\<rparr>
             else w1)"
    using f cb by (auto simp: free_on_timer_def bindr_Inr_iff simp del: retimed_simps(8))
  have "\<exists>w2 t'. moves lv w w2 \<and> w1 = retimed t' w2 \<and> (free_ids (ss_free w2) = [] \<longrightarrow> \<not> t_active t')"
  proof (rule on_free_schedulers_cases [OF w1(1)])
    assume "w1 = retimed t w"
    then show ?thesis using ne by blast
  next
    fix i x st
    assume "submit_wgr lv i x ((retimed t w)\<lparr>ss_store := st\<rparr>) = Inr w1"
    moreover have "(retimed t w)\<lparr>ss_store := st\<rparr> = retimed t (w\<lparr>ss_store := st\<rparr>)"
      by (cases w) (simp add: retimed_def)
    ultimately have "submit_wgr lv i x (retimed t (w\<lparr>ss_store := st\<rparr>)) = Inr w1" by simp
    from submit_retimed [OF this lv] submit_stored_moves show ?thesis by blast
  qed
  then obtain w2 t' where w2: "moves lv w w2" "w1 = retimed t' w2" "free_ids (ss_free w2) = [] \<longrightarrow> \<not> t_active t'"
    by blast
  have "sched_inv w2" "frame w2 = frame w"
    using sched_steps_inv [OF w2(1) lv inv] moves_frame [OF w2(1)] by simp_all
  then show ?thesis using w2(2,3) w1(2) lv
    by (auto simp: start_timer_active occ simp flip: retimed_def intro!: sched_inv_retimed split: if_splits)
qed

lemma expire_free_ok:
  assumes e: "expire_free env st = Inr st'" and lv: "libev_ok (e_libev env)" and ok: "world_ok ids st"
    and a: "t_active (f_free_sched_timer (ss_free (scheds st)))"
  shows "sched_inv (scheds st') \<and> frame (scheds st') = (ids, True)"
proof -
  have ne: "free_ids (ss_free (scheds st)) \<noteq> []" using ok a by (simp add: world_ok_def sched_inv_def free_wf_def)
  obtain al s where s: "free_on_timer (e_libev env) (e_tracker env) (ml_slicing (cq_ml st))
       (retimed (lv_expire (e_libev env) (ss_now (scheds st)) (f_free_sched_timer (ss_free (scheds st)))) (scheds st)) = Inr (al, s)"
      "scheds st' = s"
    using e by (auto simp: expire_free_def Let_def bindr_Inr_iff retimed_def)
  show ?thesis unfolding s(2)
    using free_on_timer_inv [OF s(1) lv _ ne] ok by (simp add: world_ok_def frame_def)
qed

lemma loop_step_ok:
  assumes l: "loop_step env st st'" and lv: "libev_ok (e_libev env)" and ok: "world_ok ids st"
  shows "world_ok ids st'"
proof -
  have q: "queues_ok st" "queues_ok st'" using ok loop_step_typed [OF l] by (simp_all add: world_ok_def)
  from l show ?thesis
  proof cases
    case (collect q)
    then show ?thesis using ok by (simp add: world_ok_def)
  next
    case (serve q)
    then have "moves (e_libev env) (scheds st) (scheds st')" using on_new_cmd_moves [of env q _ st'] q(1)
      by (fastforce simp: serve_watcher_def)
    then show ?thesis by (rule world_moves [OF ok _ lv q(2)])
  next
    case (expire i)
    obtain s cbs where s: "fire_scheduler (e_libev env) i (scheds st) = Inr (s, cbs)"
        "foldr_res on_event_complete cbs (st\<lparr>cq_ml := (cq_ml st)\<lparr>ml_sched := s\<rparr>\<rparr>) = Inr st'"
      using expire(3) by (auto simp: expire_scheduler_def bindr_Inr_iff)
    have "moves (e_libev env) s (scheds st')" using core_moves [OF completions_core [OF s(2)]] by simp
    then have "moves (e_libev env) (scheds st) (scheds st')"
      using sched_step.fire [OF expire(1,2) s(1)] by (rule converse_rtranclp_into_rtranclp [rotated])
    then show ?thesis by (rule world_moves [OF ok _ lv q(2)])
  next
    case free
    then show ?thesis using expire_free_ok [OF free(2) lv ok free(1)] q(2) by (simp add: world_ok_def)
  qed
qed

lemma run_step_ok:
  assumes r: "run_step env st st'" and lv: "libev_ok (e_libev env)" and ok: "world_ok ids st"
  shows "world_ok ids st'"
  using r
proof cases
  case loop
  then show ?thesis by (rule loop_step_ok [OF _ lv ok])
next
  case (call g c)
  have "queues_ok st'" using api_typed [OF call] ok by (simp add: world_ok_def)
  then show ?thesis by (rule world_moves [OF ok core_moves [OF api_core [OF call]] lv])
next
  case (tick now)
  have "moves (e_libev env) (scheds st) (scheds st')" unfolding tick by (auto intro: sched_step.tick)
  then show ?thesis by (rule world_moves [OF ok _ lv]) (use tick ok in \<open>simp add: world_ok_def\<close>)
next
  case (resume e ev s)
  have "core st' = core st" using resume by simp
  then show ?thesis by (rule world_moves [OF ok core_moves lv]) (use resume ok in \<open>simp add: world_ok_def\<close>)
qed

lemma runs_ok:
  "runs env st st' \<Longrightarrow> libev_ok (e_libev env) \<Longrightarrow> world_ok ids st \<Longrightarrow> world_ok ids st'"
  by (induction rule: rtranclp_induct) (auto intro: run_step_ok)

text \<open>The dispatcher registers the callback before the schedulers are put in the list.\<close>

lemma add_all_cb:
  "foldr_res (\<lambda>s m. add_free_scheduler lv now m (s_id s)) ss m = Inr m' \<Longrightarrow> f_cb m' = f_cb m"
  by (induction ss arbitrary: m) (auto simp: bindr_Inr_iff add_free_scheduler_def Let_def split: if_splits)

lemma register_schedulers_cb:
  "register_schedulers lv now ss m = Inr (ss', m') \<Longrightarrow> f_cb m' = f_cb m"
  by (auto simp: register_schedulers_def bindr_Inr_iff dest: add_all_cb)

lemma new_Global_cb: "new_Global e st u = Inr g \<Longrightarrow> f_cb (ss_free (ml_sched (g_ml g)))"
  by (auto simp: new_Global_def new_Dispatcher_def bindr_Inr_iff Let_def register_on_free_schedulers_cb_def
      dest!: register_schedulers_cb)

section \<open>Property\<close>

lemma start_world_ok:
  assumes "libev_ok (se_libev e)" and "can_start e config prs names" and "new_Global e st u = Inr g"
  shows "libev_ok (e_libev (g_env g))"
    and "world_ok (map (\<lambda>(b, f, p). scheduler_id b f p) prs) (first_cq_state (g_ml g))"
    and "ca_list (m_ndranges (ml_slicing (g_ml g))) = []"
    and "prs \<noteq> [] \<Longrightarrow> free_ids (ss_free (ml_sched (g_ml g))) \<noteq> []"
proof -
  have g: "sched_inv (ml_sched (g_ml g))" "e_libev (g_env g) = se_libev e"
      "map s_id (ss_schedulers (ml_sched (g_ml g))) = map (\<lambda>(b, f, p). scheduler_id b f p) prs"
      "ca_list (m_ndranges (ml_slicing (g_ml g))) = []" "queues (ml_sched (g_ml g)) = map (\<lambda>_. []) prs"
    using new_Global_ok [OF assms(1,2), of st u] assms(3) by auto
  show "libev_ok (e_libev (g_env g))" using g(2) assms(1) by simp
  show "world_ok (map (\<lambda>(b, f, p). scheduler_id b f p) prs) (first_cq_state (g_ml g))"
    using g(1,3) new_Global_cb [OF assms(3)] by (simp add: world_ok_def frame_def first_cq_state_def queues_ok_def)
  show "ca_list (m_ndranges (ml_slicing (g_ml g))) = []" by (rule g(4))
  show "free_ids (ss_free (ml_sched (g_ml g))) \<noteq> []" if "prs \<noteq> []"
  proof -
    let ?w = "ml_sched (g_ml g)"
    have "length (ss_schedulers ?w) = length prs" using arg_cong [OF g(3), of length] by simp
    then have "0 < length (ss_schedulers ?w)" "queues ?w ! 0 = []" using that g(5) by simp_all
    then show ?thesis using sched_inv_at(3) [OF g(1), of 0] by (auto simp: idle_def queues_def)
  qed
qed

text \<open>C9: The schedulers in every reachable state of the program: after a start-up with distinct
  scheduler identifiers, whatever calls any threads make, however the event loop serves the queues
  and the two kinds of timers between them, each call and each callback as a whole, and however time passes, there are the configured schedulers, the list of free ones holds the ids of
  the idle ones and each once, a scheduler's timer is active exactly while it has work, at most a
  hundred ranges wait in a scheduler, and the timer of the free schedulers is active exactly while
  some scheduler is idle.\<close>
theorem reachable_schedulers_consistent:
  assumes "libev_ok (se_libev e)" and "can_start e config prs names" and "new_Global e st u = Inr g"
    and "runs (g_env g) (first_cq_state (g_ml g)) st'" and "w = ml_sched (cq_ml st')"
  shows "map s_id (ss_schedulers w) = map (\<lambda>(b, f, p). scheduler_id b f p) prs \<and>
    distinct (free_ids (ss_free w)) \<and>
    set (free_ids (ss_free w)) = s_id ` {s \<in> set (ss_schedulers w). idle s} \<and>
    (\<forall>s\<in>set (ss_schedulers w). (t_active (s_timer s) \<longleftrightarrow> \<not> idle s) \<and> length (ca_list (s_in_queue s)) \<le> 100) \<and>
    (t_active (f_free_sched_timer (ss_free w)) \<longleftrightarrow> (\<exists>s\<in>set (ss_schedulers w). idle s))"
proof -
  note s = start_world_ok [OF assms(1-3)]
  have inv: "sched_inv w" and fr: "map s_id (ss_schedulers w) = map (\<lambda>(b, f, p). scheduler_id b f p) prs"
    using runs_ok [OF assms(4) s(1,2)] by (simp_all add: world_ok_def frame_def assms(5))
  have ids: "set (free_ids (ss_free w)) = s_id ` {s \<in> set (ss_schedulers w). idle s}"
    using inv by (simp add: sched_inv_def)
  have t: "t_active (f_free_sched_timer (ss_free w)) \<longleftrightarrow> (\<exists>s\<in>set (ss_schedulers w). idle s)"
    using inv ids by (simp add: sched_inv_def free_wf_def flip: set_empty) blast
  have q: "(t_active (s_timer s) \<longleftrightarrow> \<not> idle s) \<and> length (ca_list (s_in_queue s)) \<le> 100"
    if "s \<in> set (ss_schedulers w)" for s
    using inv that ca_list_length [of "s_in_queue s"] by (simp add: sched_inv_def sched_wf_def)
  have "distinct (free_ids (ss_free w))" using inv by (simp add: sched_inv_def free_wf_def)
  then show ?thesis using fr ids t q by blast
qed

text \<open>The first steps of an idle program: time passes and the timer of the free schedulers runs.\<close>

theorem reachable_schedulers_consistent_witness:
  "\<exists>g st'. new_Global demo_start_env demo_store demo_uw = Inr g \<and>
    loop_step (g_env g) (first_cq_state (g_ml g)) st' \<and>
    map s_id (ss_schedulers (ml_sched (cq_ml st'))) = [1, 3] \<and>
    distinct (free_ids (ss_free (ml_sched (cq_ml st'))))"
proof -
  have lv: "libev_ok (se_libev demo_start_env)" by (simp add: demo_start_env_def demo_libev_ok)
  obtain g where g: "new_Global demo_start_env demo_store demo_uw = Inr g"
    using new_Global_ok [OF lv demo_can_start] by blast
  note s = start_world_ok [OF lv demo_can_start g]
  let ?st = "first_cq_state (g_ml g)"
  have "free_ids (ss_free (scheds ?st)) \<noteq> []"
    using s(4) by (simp add: first_cq_state_def demo_regions_def)
  then have "t_active (f_free_sched_timer (ss_free (scheds ?st)))"
    using s(2) by (simp add: world_ok_def sched_inv_def free_wf_def)
  moreover have "\<exists>st'. expire_free (g_env g) ?st = Inr st'"
    using s(3) by (simp add: expire_free_def free_on_timer_def on_free_schedulers_def ca_empty_iff first_cq_state_def Let_def)
  ultimately obtain st' where l: "loop_step (g_env g) ?st st'" using loop_step.free by blast
  then have "runs (g_env g) ?st st'" by (intro r_into_rtranclp run_step.loop)
  from reachable_schedulers_consistent [OF lv demo_can_start g this refl] show ?thesis
    using g l demo_regions_ids(1) by metis
qed

end
