(* ===== verification/Loop_Termination.thy ===== *)
theory Loop_Termination
  imports Runs
begin

text \<open>
  The event loop comes to rest. A lexicographic measure counts what it can still do: commands that
  wait, ranges that wait in the schedulers, marked watchers, pending watchers. Serving a command
  may queue ranges, a timer that fires may make watchers pending, but nothing the loop does makes
  a command. The timer of the free schedulers is left out: it restarts itself with delay zero
  for as long as a scheduler is free.
\<close>

section \<open>The measures\<close>

definition waiting_cmds :: "cq_state \<Rightarrow> ptr \<Rightarrow> nat" where
  "waiting_cmds st q =
     (case cq_queues st q of None \<Rightarrow> 0 | Some cq \<Rightarrow> length (ca_list (q_ring_buffer cq)))"

definition all_cmds :: "cq_state \<Rightarrow> nat" where
  "all_cmds st = sum (waiting_cmds st) (dom (cq_queues st))"

definition all_ranges :: "cq_state \<Rightarrow> nat" where
  "all_ranges st = length (concat (queues (ml_sched (cq_ml st))))"

definition loop_work :: "(cq_state \<times> cq_state) set" where
  "loop_work = measures [all_cmds, all_ranges, \<lambda>st. card (cq_sent st), \<lambda>st. card (cq_fed st)]"

lemma wf_loop_work: "wf loop_work"
  by (simp add: loop_work_def)

text \<open>Only finitely many queues exist and only finitely many watchers are marked or pending.\<close>

definition finitary :: "cq_state \<Rightarrow> bool" where
  "finitary st \<longleftrightarrow> finite (dom (cq_queues st)) \<and> finite (cq_sent st) \<and> finite (cq_fed st)"

lemma all_cmds_over:
  assumes "finite A" and "dom (cq_queues st) \<subseteq> A"
  shows "all_cmds st = sum (waiting_cmds st) A"
  unfolding all_cmds_def
  by (rule sum.mono_neutral_left) (use assms in \<open>auto simp: waiting_cmds_def split: option.splits\<close>)

text \<open>A state whose queues hold no more than another's, and whose watchers are among its own.\<close>

definition no_more :: "cq_state \<Rightarrow> cq_state \<Rightarrow> bool" where
  "no_more st' st \<longleftrightarrow> dom (cq_queues st') \<subseteq> dom (cq_queues st) \<and>
     (\<forall>q. waiting_cmds st' q \<le> waiting_cmds st q) \<and> cq_sent st' \<subseteq> cq_sent st \<and>
     (finite (cq_fed st) \<longrightarrow> finite (cq_fed st'))"

lemma no_more_refl [simp]: "no_more st st"
  by (simp add: no_more_def)

lemma no_more_trans [trans]: "no_more st'' st' \<Longrightarrow> no_more st' st \<Longrightarrow> no_more st'' st"
  by (force simp: no_more_def intro: le_trans)

lemma no_more_same:
  "cq_queues st' = cq_queues st \<Longrightarrow> cq_sent st' = cq_sent st \<Longrightarrow>
    (finite (cq_fed st) \<Longrightarrow> finite (cq_fed st')) \<Longrightarrow> no_more st' st"
  by (simp add: no_more_def waiting_cmds_def)

lemma no_more_finitary: "no_more st' st \<Longrightarrow> finitary st \<Longrightarrow> finitary st'"
  by (auto simp: no_more_def finitary_def intro: finite_subset)

lemma no_more_cmds:
  assumes "no_more st' st" and "finitary st"
  shows "all_cmds st' \<le> all_cmds st"
    and "waiting_cmds st' q < waiting_cmds st q \<Longrightarrow> all_cmds st' < all_cmds st"
proof -
  have f: "finite (dom (cq_queues st))" using assms(2) by (simp add: finitary_def)
  have s: "all_cmds st' = sum (waiting_cmds st') (dom (cq_queues st))"
    by (rule all_cmds_over [OF f]) (use assms(1) in \<open>simp add: no_more_def\<close>)
  show "all_cmds st' \<le> all_cmds st"
    unfolding s unfolding all_cmds_def by (rule sum_mono) (use assms(1) in \<open>simp add: no_more_def\<close>)
  show "all_cmds st' < all_cmds st" if "waiting_cmds st' q < waiting_cmds st q"
    unfolding s unfolding all_cmds_def
  proof (rule sum_strict_mono_ex1 [OF f])
    show "\<forall>q\<in>dom (cq_queues st). waiting_cmds st' q \<le> waiting_cmds st q"
      using assms(1) by (simp add: no_more_def)
    have "q \<in> dom (cq_queues st)" using that by (auto simp: waiting_cmds_def split: option.splits)
    then show "\<exists>q\<in>dom (cq_queues st). waiting_cmds st' q < waiting_cmds st q" using that by blast
  qed
qed

section \<open>What each step does\<close>

lemma ca_pop_front_shrinks:
  assumes "ca_pop_front c = Inr (x, c')"
  shows "length (ca_list c) = Suc (length (ca_list c'))"
proof -
  have z: "ca_size c \<noteq> 0" and "ca_size c' = ca_size c - 1"
    using assms by (auto simp: ca_pop_front_def popped_or_throw_def ca_pop_front_ref_def bindr_Inr_iff split: if_splits)
  then have "unat (ca_size c') = unat (ca_size c) - 1" using unat_minus_one [of "ca_size c"] by simp
  moreover have "0 < unat (ca_size c)" using z by (simp add: unat_gt_0)
  ultimately have "unat (ca_size c) = Suc (unat (ca_size c'))" by simp
  then show ?thesis using ca_occupancy_length [of c] ca_occupancy_length [of c'] by (simp add: ca_occupancy_def)
qed

lemma no_more_destroy: "check_self_destroy q st = Inr st' \<Longrightarrow> no_more st' st"
  by (auto simp: check_self_destroy_def bindr_Inr_iff delete_queue_def no_more_def waiting_cmds_def split: if_splits)

lemma no_more_completed:
  assumes "foldr_res on_event_complete cbs st = Inr st'"
  shows "no_more st' st"
proof (rule foldr_res_invariant [where P = "\<lambda>s. no_more s st", OF _ no_more_refl assms])
  show "no_more s' st" if "no_more s st" "on_event_complete cb s = Inr s'" for cb s s'
  proof -
    have "no_more s' s" using that(2) by (cases cb) (auto simp: bindr_Inr_iff intro: no_more_same)
    then show ?thesis using that(1) by (rule no_more_trans)
  qed
qed

lemma no_more_last_event:
  assumes "set_last_event q ev st = Inr st'"
  shows "no_more st' st"
  by (rule set_last_event_steps [OF assms])
    (auto simp: no_more_def waiting_cmds_def split: if_splits)

lemma no_more_go_on: "go_on q st = Inr st' \<Longrightarrow> no_more st' st"
  using no_more_destroy by (auto simp: go_on_def bindr_Inr_iff intro: no_more_same split: if_splits)

lemma no_more_serve:
  assumes "serve_command env q cmd st = Inr st'"
  shows "no_more st' st"
proof -
  obtain st1 w2 cbs st3 st4 s5 where s: "set_last_event q (m_event cmd) st = Inr st1"
      "foldr_res on_event_complete cbs (st1\<lparr>cq_ml := w2\<rparr>) = Inr st3" "go_on q st3 = Inr st4"
      "st' = with_objs s5 st4"
    using assms by (auto simp: serve_command_def bindr_Inr_iff)
  have "no_more st' st4" unfolding s(4) by (rule no_more_same) simp_all
  also have "no_more st4 st3" by (rule no_more_go_on [OF s(3)])
  also have "no_more st3 (st1\<lparr>cq_ml := w2\<rparr>)" by (rule no_more_completed [OF s(2)])
  also have "no_more (st1\<lparr>cq_ml := w2\<rparr>) st1" by (rule no_more_same) simp_all
  also have "no_more st1 st" by (rule no_more_last_event [OF s(1)])
  finally show ?thesis .
qed

text \<open>The callback of a queue takes a command, or leaves commands and ranges alone.\<close>

lemma on_new_cmd_works:
  assumes s: "on_new_cmd_cb env q st = Inr st'"
  shows "no_more st' st \<and> (waiting_cmds st' q < waiting_cmds st q \<or>
    all_ranges st' = all_ranges st \<and> cq_fed st' \<subseteq> cq_fed st)"
proof -
  obtain cq where cq: "cq_queues st q = Some cq" using s by (auto simp: on_new_cmd_cb_def bindr_Inr_iff deref_Inr_iff)
  show ?thesis
  proof (cases "cq_is_empty cq")
    case True
    then have d: "check_self_destroy q st = Inr st'" using s cq by (simp add: on_new_cmd_cb_def)
    then have "cq_fed st' \<subseteq> cq_fed st" "all_ranges st' = all_ranges st"
      by (auto simp: check_self_destroy_def bindr_Inr_iff delete_queue_def all_ranges_def split: if_splits)
    then show ?thesis using no_more_destroy [OF d] by simp
  next
    case False
    then have "st' = st \<or> (\<exists>c cq1. cq_pop_front cq = Inr (Some c, cq1) \<and>
        serve_command env q c (set_queue q cq1 st) = Inr st')"
      using s cq by (auto simp: on_new_cmd_cb_def bindr_Inr_iff split: if_splits option.splits)
    then consider "st' = st"
      | c cq1 where "cq_pop_front cq = Inr (Some c, cq1)" "serve_command env q c (set_queue q cq1 st) = Inr st'"
      by blast
    then show ?thesis
    proof cases
      case 1
      then show ?thesis by simp
    next
      case 2
      then obtain r where r: "ca_pop_front (q_ring_buffer cq) = Inr (c, r)" "cq1 = cq\<lparr>q_ring_buffer := r\<rparr>"
        by (auto simp: cq_pop_front_def bindr_Inr_iff split: if_splits)
      note sh = ca_pop_front_shrinks [OF r(1)]
      have p: "no_more (set_queue q cq1 st) st"
        using cq r(2) sh by (auto simp: no_more_def waiting_cmds_def)
      have n: "no_more st' (set_queue q cq1 st)" by (rule no_more_serve [OF 2(2)])
      then have "waiting_cmds st' q \<le> waiting_cmds (set_queue q cq1 st) q" by (simp add: no_more_def)
      also have "\<dots> < waiting_cmds st q" using cq r(2) sh by (simp add: waiting_cmds_def)
      finally show ?thesis using no_more_trans [OF n p] by blast
    qed
  qed
qed

text \<open>A scheduler's timer takes exactly one range.\<close>

lemma length_concat_update:
  assumes "i < length qs" and "length (qs ! i) = Suc (length x)"
  shows "length (concat qs) = Suc (length (concat (qs[i := x])))"
proof -
  have d: "qs = take i qs @ qs ! i # drop (Suc i) qs" by (rule id_take_nth_drop [OF assms(1)])
  have u: "qs[i := x] = take i qs @ x # drop (Suc i) qs" by (rule upd_conv_take_nth_drop [OF assms(1)])
  have "length (concat qs) = length (concat (take i qs)) + length (qs ! i) + length (concat (drop (Suc i) qs))"
    by (subst d) simp
  then show ?thesis unfolding u using assms(2) by simp
qed

lemma fire_takes_range:
  assumes "fire_scheduler lv i w = Inr (w', cbs)"
  shows "length (concat (queues w)) = Suc (length (concat (queues w')))"
proof -
  have "\<exists>x q. i < length (ss_schedulers w) \<and> ca_pop_front (s_in_queue (ss_schedulers w ! i)) = Inr (x, q) \<and>
      queues w' = (queues w)[i := ca_list q]"
    using assms
    by (auto simp: fire_scheduler_def on_timer_def sched_at_def set_sched_def bindr_Inr_iff Let_def queues_def map_update
        split: if_splits)
  then obtain x q where i: "i < length (ss_schedulers w)" "ca_pop_front (s_in_queue (ss_schedulers w ! i)) = Inr (x, q)"
      "queues w' = (queues w)[i := ca_list q]" by blast
  have "i < length (queues w)" "length (queues w ! i) = Suc (length (ca_list q))"
    using i(1) ca_pop_front_shrinks [OF i(2)] by (simp_all add: queues_def)
  then show ?thesis using length_concat_update unfolding i(3) by blast
qed

section \<open>The loop\<close>

lemma loop_step_works:
  assumes l: "loop_step env st st'" and f: "finitary st" and nf: "expire_free env st \<noteq> Inr st'"
  shows "finitary st' \<and> (st', st) \<in> loop_work"
  using l
proof cases
  case (collect q)
  have "card (cq_sent st - {q}) < card (cq_sent st)"
    using collect(2) f by (intro psubset_card_mono) (auto simp: finitary_def)
  then show ?thesis using f collect(1)
    by (auto simp: finitary_def loop_work_def all_cmds_def all_ranges_def waiting_cmds_def)
next
  case (serve q)
  let ?st = "st\<lparr>cq_fed := cq_fed st - {q}\<rparr>"
  have o: "on_new_cmd_cb env q ?st = Inr st'" using serve(2) by (simp add: serve_watcher_def)
  note w = on_new_cmd_works [OF o]
  have n: "no_more ?st st" by (rule no_more_same) simp_all
  have f1: "finitary ?st" using f by (simp add: finitary_def)
  have nm: "no_more st' st" using w n no_more_trans by blast
  have eq: "waiting_cmds ?st = waiting_cmds st" "all_ranges ?st = all_ranges st"
    by (simp_all add: waiting_cmds_def fun_eq_iff all_ranges_def)
  show ?thesis
  proof (cases "waiting_cmds st' q < waiting_cmds st q")
    case True
    then show ?thesis using no_more_cmds(2) [OF nm f] no_more_finitary [OF nm f] by (simp add: loop_work_def)
  next
    case False
    then have r: "all_ranges st' = all_ranges st" "cq_fed st' \<subseteq> cq_fed st - {q}" using w eq by auto
    have "card (cq_fed st') < card (cq_fed st)"
      using r(2) serve(1) f by (intro psubset_card_mono) (auto simp: finitary_def)
    moreover have "card (cq_sent st') \<le> card (cq_sent st)"
      using nm f by (intro card_mono) (auto simp: finitary_def no_more_def)
    ultimately show ?thesis
      using no_more_cmds(1) [OF nm f] no_more_finitary [OF nm f] r(1) by (auto simp: loop_work_def)
  qed
next
  case (expire i)
  obtain s cbs where s: "fire_scheduler (e_libev env) i (ml_sched (cq_ml st)) = Inr (s, cbs)"
      "foldr_res on_event_complete cbs (st\<lparr>cq_ml := (cq_ml st)\<lparr>ml_sched := s\<rparr>\<rparr>) = Inr st'"
    using expire by (auto simp: expire_scheduler_def bindr_Inr_iff)
  let ?st = "st\<lparr>cq_ml := (cq_ml st)\<lparr>ml_sched := s\<rparr>\<rparr>"
  have "no_more st' ?st" by (rule no_more_completed [OF s(2)])
  also have "no_more ?st st" by (rule no_more_same) simp_all
  finally have nm: "no_more st' st" .
  have "cq_ml st' = cq_ml ?st"
  proof (rule foldr_res_invariant [where P = "\<lambda>s. cq_ml s = cq_ml ?st", OF _ refl s(2)])
    show "cq_ml s' = cq_ml ?st" if "cq_ml s = cq_ml ?st" "on_event_complete cb s = Inr s'" for cb s s'
      using that by (cases cb) (auto simp: bindr_Inr_iff)
  qed
  then have "all_ranges st = Suc (all_ranges st')"
    using fire_takes_range [OF s(1)] by (simp add: all_ranges_def)
  then show ?thesis using no_more_cmds(1) [OF nm f] no_more_finitary [OF nm f] by (auto simp: loop_work_def)
next
  case free
  then show ?thesis using nf by simp
qed

section \<open>Property\<close>

text \<open>C8: The event loop terminates: from a state with finitely many queues and watchers, there is no
  infinite sequence of steps in which no user thread makes a call and the timer of the free
  schedulers does not fire. Every queue is served, and every range finished, finitely often.\<close>
theorem event_loop_comes_to_rest:
  assumes "finite (dom (cq_queues st))" and "finite (cq_sent st)" and "finite (cq_fed st)"
  shows "\<not> (\<exists>f. f 0 = st \<and> (\<forall>n. loop_step env (f n) (f (Suc n)) \<and> expire_free env (f n) \<noteq> Inr (f (Suc n))))"
proof
  assume "\<exists>f. f 0 = st \<and> (\<forall>n. loop_step env (f n) (f (Suc n)) \<and> expire_free env (f n) \<noteq> Inr (f (Suc n)))"
  then obtain f where f: "f 0 = st" "\<And>n. loop_step env (f n) (f (Suc n))" "\<And>n. expire_free env (f n) \<noteq> Inr (f (Suc n))"
    by blast
  have fin: "finitary (f n)" for n
  proof (induction n)
    case 0
    then show ?case using assms f(1) by (simp add: finitary_def)
  next
    case (Suc n)
    then show ?case using loop_step_works [OF f(2) _ f(3)] by blast
  qed
  have "(f (Suc n), f n) \<in> loop_work" for n using loop_step_works [OF f(2) fin f(3)] by blast
  then show False using wf_loop_work unfolding wf_iff_no_infinite_down_chain by blast
qed

theorem event_loop_comes_to_rest_witness:
  "\<exists>st cq. cq_queues st 0 = Some cq \<and>
    \<not> (\<exists>f. f 0 = st \<and> (\<forall>n. loop_step demo_ml_env (f n) (f (Suc n)) \<and> expire_free demo_ml_env (f n) \<noteq> Inr (f (Suc n))))"
proof -
  have "finite (dom (cq_queues (demo_cq undefined)))" "finite (cq_sent (demo_cq undefined))"
    "finite (cq_fed (demo_cq undefined))" by (simp_all add: demo_cq_def)
  from event_loop_comes_to_rest [OF this, of demo_ml_env] show ?thesis
    by (intro exI [of _ "demo_cq undefined"]) (simp add: demo_cq_def)
qed

end
