(* ===== verification/The_Buffer.thy ===== *)
theory The_Buffer
  imports Dispatcher
begin

text \<open>
  The buffer between the user's thread and the dispatcher (\<^verbatim>\<open>cpp/the_buffer.cc\<close>), the signal that
  tells the event loop of a new launch, and the dispatcher's side: its reading of the buffer and
  the timer that should make it read on (\<^verbatim>\<open>cpp/dispatcher.cc\<close>, \<^verbatim>\<open>cpp/ev_timer.cc\<close>). This is the
  second entrance to the routing, beside the command queues.
\<close>

section \<open>State\<close>

text \<open>
  \<open>tb_sent\<close>: the watcher of the signal is marked. \<open>ev_async_send\<close> only sets a mark, so signals
  sent before the loop comes by are served as one.
\<close>

(* src/cpp/the_buffer.h:28-55 TheBuffer *)
record buffer_state =
  tb_ml :: ml_state
  tb_ring_buffer :: "ptr circ_array"
  tb_algo_type :: sched_algo_type
  tb_read_timer :: ev_timer
  tb_sent :: bool

section \<open>The buffer\<close>

(* src/cpp/the_buffer.cc:35-38 TheBuffer::TheBuffer *)
definition new_TheBuffer :: "(nat \<Rightarrow> ptr) \<Rightarrow> ptr circ_array res" where
  "new_TheBuffer junk = ca_new junk 100"

(* src/cpp/the_buffer.cc:47-52 TheBuffer::push_back *)
definition tb_push_back :: "ptr \<Rightarrow> buffer_state \<Rightarrow> buffer_state res" where
  "tb_push_back ndrange st =
     bindr (ca_push_back (tb_ring_buffer st) ndrange False) (\<lambda>(_, c). Inr (st\<lparr>tb_ring_buffer := c\<rparr>))"

(* src/cpp/the_buffer.cc:54-66 TheBuffer::pop_front *)
definition tb_pop_front :: "buffer_state \<Rightarrow> (ptr option \<times> buffer_state) res" where
  "tb_pop_front st =
     (if ca_occupancy (tb_ring_buffer st) \<noteq> 0
      then bindr (ca_pop_front (tb_ring_buffer st)) (\<lambda>(p, c). Inr (Some p, st\<lparr>tb_ring_buffer := c\<rparr>))
      else Inr (None, st))"

(* src/cpp/the_buffer.cc:68-80 TheBuffer::peek_front *)
definition tb_peek_front :: "buffer_state \<Rightarrow> ptr option res" where
  "tb_peek_front st =
     (if ca_occupancy (tb_ring_buffer st) \<noteq> 0
      then bindr (ca_get (tb_ring_buffer st) 0) (\<lambda>p. Inr (Some p))
      else Inr None)"

(* src/cpp/the_buffer.cc:82-87 TheBuffer::is_full *)
definition tb_is_full :: "buffer_state \<Rightarrow> bool" where
  "tb_is_full st = ca_is_full (tb_ring_buffer st)"

text \<open>The comparison is the one for a full buffer.\<close>

(* src/cpp/the_buffer.cc:89-94 TheBuffer::is_empty *)
definition tb_is_empty :: "buffer_state \<Rightarrow> bool" where
  "tb_is_empty st = (ca_capacity (tb_ring_buffer st) = ca_occupancy (tb_ring_buffer st))"

section \<open>Reading the buffer\<close>

(* src/cpp/dispatcher.cc:258-270 Dispatcher::read_from_the_buffer (algorithm) *)
definition tb_try_invoke :: "ml_env \<Rightarrow> ptr \<Rightarrow> buffer_state \<Rightarrow> (RC \<times> ml_state) res" where
  "tb_try_invoke env p st =
     (case tb_algo_type st of
        ALGO_SLICING \<Rightarrow> try_invoke_algo_slicing p (tb_ml st)
      | ALGO_SIMPLE \<Rightarrow> try_invoke_algo_simple env p (tb_ml st))"

text \<open>
  The name of the kernel is read for the log line. The timer's delay is the \<open>float\<close> nearest to
  0.001.
\<close>

(* src/cpp/dispatcher.cc:243-285 Dispatcher::read_from_the_buffer *)
definition read_from_the_buffer :: "ml_env \<Rightarrow> buffer_state \<Rightarrow> buffer_state res" where
  "read_from_the_buffer env st =
     bindr (tb_peek_front st) (\<lambda>front.
     case front of
       None \<Rightarrow> Inr st
     | Some p \<Rightarrow>
         bindr (deref (ns_ndranges (ss_store (ml_sched (tb_ml st)))) p) (\<lambda>nd.
         bindr (nd_get_kernel_name (ml_objs (tb_ml st)) nd) (\<lambda>_.
         bindr (tb_try_invoke env p st) (\<lambda>(rc, w).
           let st1 = st\<lparr>tb_ml := w\<rparr>
           in if rc \<noteq> ML_SUCCESS then Inr st1
              else bindr (tb_pop_front st1) (\<lambda>(_, st2).
                   Inr (if \<not> tb_is_empty st2
                        then st2\<lparr>tb_read_timer := start_timer (e_libev env) (ss_now (ml_sched (tb_ml st2)))
                               (tb_read_timer st2) (8589935 / 2 ^ 33) 0\<rparr>
                        else st2))))))"

(* src/cpp/ev_timer.cc:98-105 TheBufferReadTimer::on_timer *)
definition read_timer_on_timer :: "ml_env \<Rightarrow> buffer_state \<Rightarrow> buffer_state res" where
  "read_timer_on_timer env st = read_from_the_buffer env st"

section \<open>The signal\<close>

(* src/cpp/the_buffer.cc:6-9 on_new_ndrange_cb *)
definition on_new_ndrange_cb :: "ml_env \<Rightarrow> buffer_state \<Rightarrow> buffer_state res" where
  "on_new_ndrange_cb env st = read_from_the_buffer env st"

(* src/cpp/the_buffer.cc:26-32 Signal::signal_new_ndrange *)
definition signal_new_ndrange :: "buffer_state \<Rightarrow> buffer_state" where
  "signal_new_ndrange st = st\<lparr>tb_sent := True\<rparr>"

definition serve_signal :: "ml_env \<Rightarrow> buffer_state \<Rightarrow> buffer_state res" where
  "serve_signal env st = on_new_ndrange_cb env (st\<lparr>tb_sent := False\<rparr>)"

text \<open>
  The read timer expires, and does so a number of times in a row. There is no result when the timer
  does not run, and none when the callback faults.
\<close>

definition fire_read_timer :: "ml_env \<Rightarrow> buffer_state \<Rightarrow> buffer_state res" where
  "fire_read_timer env st =
     read_timer_on_timer env
       (st\<lparr>tb_read_timer := lv_expire (e_libev env) (ss_now (ml_sched (tb_ml st))) (tb_read_timer st)\<rparr>)"

fun fire_reads :: "ml_env \<Rightarrow> nat \<Rightarrow> buffer_state \<Rightarrow> buffer_state option" where
  "fire_reads env 0 st = Some st"
| "fire_reads env (Suc n) st =
     (if \<not> is_active (tb_read_timer st) then None
      else case fire_read_timer env st of Inl e \<Rightarrow> None | Inr st1 \<Rightarrow> fire_reads env n st1)"

section \<open>The buffer is a queue\<close>

definition tb_deq :: "buffer_state \<Rightarrow> (ptr \<times> buffer_state) res" where
  "tb_deq st =
     bindr (tb_pop_front st) (\<lambda>(x, st1). case x of None \<Rightarrow> Inl Empty_buffer | Some p \<Rightarrow> Inr (p, st1))"

abbreviation tb_wf :: "buffer_state \<Rightarrow> bool" where
  "tb_wf st \<equiv> ca_wf (tb_ring_buffer st)"

abbreviation tb_list :: "buffer_state \<Rightarrow> ptr list" where
  "tb_list st \<equiv> ca_list (tb_ring_buffer st)"

abbreviation tb_bound :: "buffer_state \<Rightarrow> nat" where
  "tb_bound st \<equiv> ca_bound (tb_ring_buffer st)"

lemma ca_occupancy_0: "ca_occupancy c = 0 \<longleftrightarrow> ca_list c = []"
  using ca_occupancy_length [of c] by (simp add: word_unat_eq_iff)

lemma tb_pop_front_some:
  assumes "tb_wf st" and "tb_list st \<noteq> []"
  shows "\<exists>c. tb_pop_front st = Inr (Some (hd (tb_list st)), st\<lparr>tb_ring_buffer := c\<rparr>) \<and> ca_wf c \<and>
    ca_list c = tl (tb_list st) \<and> ca_bound c = tb_bound st"
  using ca_pop_front_ok [OF assms] assms(2) by (auto simp: tb_pop_front_def ca_occupancy_0)

lemma tb_pop_front_none: "tb_list st = [] \<Longrightarrow> tb_pop_front st = Inr (None, st)"
  by (simp add: tb_pop_front_def ca_occupancy_0)

lemma tb_peek_front_ok:
  assumes "tb_wf st"
  shows "tb_peek_front st = Inr (if tb_list st = [] then None else Some (hd (tb_list st)))"
  using ca_get_ok [OF assms, of 0]
  by (simp add: tb_peek_front_def ca_occupancy_0 hd_conv_nth)

interpretation tb_fifo: fifo_queue tb_wf tb_list tb_bound tb_push_back tb_deq
proof unfold_locales
  fix st :: buffer_state and p
  assume wf: "tb_wf st"
  show "length (tb_list st) \<le> tb_bound st" by (rule ca_list_length [OF wf])
  show "\<exists>st'. tb_push_back p st = Inr st' \<and> tb_wf st' \<and> tb_list st' = tb_list st @ [p] \<and>
      tb_bound st' = tb_bound st" if "length (tb_list st) < tb_bound st"
    using ca_push_back_room [OF wf that, of p False] by (auto simp: tb_push_back_def)
  show "\<exists>st'. tb_deq st = Inr (hd (tb_list st), st') \<and> tb_wf st' \<and> tb_list st' = tl (tb_list st) \<and>
      tb_bound st' = tb_bound st" if "tb_list st \<noteq> []"
    using tb_pop_front_some [OF wf that] by (auto simp: tb_deq_def)
  show "tb_deq st = Inl Empty_buffer" if "tb_list st = []"
    by (simp add: tb_deq_def tb_pop_front_none [OF that])
  show "tb_push_back p st = Inr st" if "length (tb_list st) = tb_bound st"
    using ca_push_back_full [OF wf that] by (simp add: tb_push_back_def)
qed

section \<open>Facts about reading\<close>

text \<open>
  Which timer a successful read leaves: the test for an empty buffer is false of every buffer that
  was just popped, so the timer is started whether or not a launch is left.
\<close>

lemma tb_not_empty:
  assumes "tb_wf st" and "length (tb_list st) < tb_bound st"
  shows "\<not> tb_is_empty st"
  using ca_full_iff [OF assms(1)] assms(2)
  by (auto simp: tb_is_empty_def ca_is_full_def ca_occupancy_def)

definition readable :: "nd_store \<Rightarrow> ptr \<Rightarrow> bool" where
  "readable st p \<longleftrightarrow>
     (\<exists>nd name. ns_ndranges st p = Some nd \<and> nd_get_kernel_name (ns_objs st) nd = Inr name)"

lemma read_nothing:
  "tb_wf st \<Longrightarrow> tb_list st = [] \<Longrightarrow> read_from_the_buffer env st = Inr st"
  by (simp add: read_from_the_buffer_def tb_peek_front_ok)

lemma read_refused:
  assumes "tb_wf st" and "tb_list st = p # ps" and "readable (ss_store (ml_sched (tb_ml st))) p"
    and "tb_try_invoke env p st = Inr (rc, w)" and "rc \<noteq> ML_SUCCESS"
  shows "read_from_the_buffer env st = Inr (st\<lparr>tb_ml := w\<rparr>)"
  using assms by (auto simp: read_from_the_buffer_def tb_peek_front_ok readable_def)

lemma read_routed:
  assumes wf: "tb_wf st" and l: "tb_list st = p # ps" and "readable (ss_store (ml_sched (tb_ml st))) p"
    and "tb_try_invoke env p st = Inr (ML_SUCCESS, w)"
  shows "\<exists>c. read_from_the_buffer env st = Inr (st\<lparr>tb_ml := w, tb_ring_buffer := c,
      tb_read_timer := start_timer (e_libev env) (ss_now (ml_sched w)) (tb_read_timer st) (8589935 / 2 ^ 33) 0\<rparr>) \<and>
    ca_wf c \<and> ca_list c = ps \<and> ca_bound c = tb_bound st"
proof -
  have "tb_list (st\<lparr>tb_ml := w\<rparr>) \<noteq> []" "tb_wf (st\<lparr>tb_ml := w\<rparr>)" using wf l by simp_all
  from tb_pop_front_some [OF this(2,1)] obtain c where c:
      "tb_pop_front (st\<lparr>tb_ml := w\<rparr>) = Inr (Some p, st\<lparr>tb_ml := w, tb_ring_buffer := c\<rparr>)"
      "ca_wf c" "ca_list c = ps" "ca_bound c = tb_bound st"
    using l by auto
  have "length ps < ca_bound c" using ca_list_length [OF wf] l c(4) by simp
  then have "\<not> tb_is_empty (st\<lparr>tb_ml := w, tb_ring_buffer := c\<rparr>)"
    using c by (intro tb_not_empty) simp_all
  then show ?thesis using assms c
    by (auto simp: read_from_the_buffer_def tb_peek_front_ok readable_def)
qed

text \<open>With the slicing algorithm a launch is routed as long as its ring has room.\<close>

definition slicing_ring :: "buffer_state \<Rightarrow> ptr circ_array" where
  "slicing_ring st = m_ndranges (ml_slicing (tb_ml st))"

lemma slicing_room:
  assumes "tb_algo_type st = ALGO_SLICING" and "ca_wf (slicing_ring st)"
    and "length (ca_list (slicing_ring st)) < ca_bound (slicing_ring st)"
  shows "\<exists>c. tb_try_invoke env p st =
      Inr (ML_SUCCESS, (tb_ml st)\<lparr>ml_slicing := (ml_slicing (tb_ml st))\<lparr>m_ndranges := c\<rparr>\<rparr>) \<and>
    ca_wf c \<and> ca_list c = p # ca_list (slicing_ring st) \<and> ca_bound c = ca_bound (slicing_ring st)"
proof -
  have "\<not> ca_is_full (slicing_ring st)" using ca_full_iff [OF assms(2)] assms(3) by simp
  then show ?thesis using ca_push_front_room [OF assms(2,3), of p False] assms(1)
    by (auto simp: tb_try_invoke_def try_invoke_algo_slicing_def slicing_route_ndrange_def slicing_ring_def)
qed

lemma slicing_full:
  assumes "tb_algo_type st = ALGO_SLICING" and "ca_wf (slicing_ring st)"
    and "length (ca_list (slicing_ring st)) = ca_bound (slicing_ring st)"
  shows "tb_try_invoke env p st = Inr (ML_ERROR_TOO_MANY_NDR, tb_ml st)"
proof -
  have "ca_is_full (slicing_ring st)" using ca_full_iff [OF assms(2)] assms(3) by simp
  then show ?thesis using assms(1)
    by (simp add: tb_try_invoke_def try_invoke_algo_slicing_def slicing_route_ndrange_def slicing_ring_def)
qed

text \<open>
  Reading goes on until the buffer is empty or the slicing ring full, and then once more: that
  read does nothing and leaves the timer stopped.
\<close>

lemma reads_drain:
  assumes lv: "libev_ok (e_libev env)" and al: "tb_algo_type st = ALGO_SLICING"
    and wf: "tb_wf st" "ca_wf (slicing_ring st)" and off: "\<not> t_active (tb_read_timer st)"
    and rd: "\<forall>p\<in>set (tb_list st). readable (ss_store (ml_sched (tb_ml st))) p"
    and k: "k = ca_bound (slicing_ring st) - length (ca_list (slicing_ring st))"
  shows "\<exists>st1 st'. read_from_the_buffer env st = Inr st1 \<and> fire_reads env (min (length (tb_list st)) k) st1 = Some st' \<and>
    tb_list st' = drop k (tb_list st) \<and>
    ca_list (slicing_ring st') = rev (take k (tb_list st)) @ ca_list (slicing_ring st) \<and>
    \<not> t_active (tb_read_timer st') \<and> tb_sent st' = tb_sent st"
  using assms(2-7)
proof (induction "tb_list st" arbitrary: st k)
  case Nil
  then show ?case using read_nothing [OF Nil.prems(2), of env] by simp
next
  case (Cons p ps)
  note l = Cons.hyps(2) [symmetric]
  have rd: "readable (ss_store (ml_sched (tb_ml st))) p" using Cons.prems(5) l by simp
  show ?case
  proof (cases k)
    case 0
    then have "length (ca_list (slicing_ring st)) = ca_bound (slicing_ring st)"
      using ca_list_length [OF Cons.prems(3)] Cons.prems(6) by simp
    from read_refused [OF Cons.prems(2) l rd slicing_full [OF Cons.prems(1,3) this]]
    show ?thesis using 0 Cons.prems(4) by simp
  next
    case (Suc j)
    then have "length (ca_list (slicing_ring st)) < ca_bound (slicing_ring st)"
      using Cons.prems(6) by simp
    from slicing_room [OF Cons.prems(1,3) this, of env p] obtain c where c: "tb_try_invoke env p st =
        Inr (ML_SUCCESS, (tb_ml st)\<lparr>ml_slicing := (ml_slicing (tb_ml st))\<lparr>m_ndranges := c\<rparr>\<rparr>)"
        "ca_wf c" "ca_list c = p # ca_list (slicing_ring st)" "ca_bound c = ca_bound (slicing_ring st)"
      by blast
    define w where "w = (tb_ml st)\<lparr>ml_slicing := (ml_slicing (tb_ml st))\<lparr>m_ndranges := c\<rparr>\<rparr>"
    obtain r where r: "read_from_the_buffer env st = Inr (st\<lparr>tb_ml := w, tb_ring_buffer := r,
        tb_read_timer := start_timer (e_libev env) (ss_now (ml_sched w)) (tb_read_timer st) (8589935 / 2 ^ 33) 0\<rparr>)"
        "ca_wf r" "ca_list r = ps" "ca_bound r = tb_bound st"
      using read_routed [OF Cons.prems(2) l rd c(1)] unfolding w_def by blast
    let ?t = "start_timer (e_libev env) (ss_now (ml_sched w)) (tb_read_timer st) (8589935 / 2 ^ 33) 0"
    let ?st1 = "st\<lparr>tb_ml := w, tb_ring_buffer := r,
        tb_read_timer := lv_expire (e_libev env) (ss_now (ml_sched w)) ?t\<rparr>"
    have off: "\<not> t_active (tb_read_timer ?st1)"
      using libev_okD(4) [OF lv] start_timer_repeat [OF lv] by simp
    have sr: "slicing_ring ?st1 = c" by (simp add: slicing_ring_def w_def)
    have P: "ps = tb_list ?st1" "tb_algo_type ?st1 = ALGO_SLICING" "tb_wf ?st1" "ca_wf (slicing_ring ?st1)"
      "\<forall>p\<in>set (tb_list ?st1). readable (ss_store (ml_sched (tb_ml ?st1))) p"
      "j = ca_bound (slicing_ring ?st1) - length (ca_list (slicing_ring ?st1))"
      using Cons.prems r(2,3) c(2-4) Suc l unfolding sr by (simp_all add: w_def)
    from Cons.hyps(1) [OF P(1-4) off P(5,6)] obtain st2 st' where st': "read_from_the_buffer env ?st1 = Inr st2"
        "fire_reads env (min (length (tb_list ?st1)) j) st2 = Some st'" "tb_list st' = drop j (tb_list ?st1)"
        "ca_list (slicing_ring st') = rev (take j (tb_list ?st1)) @ ca_list (slicing_ring ?st1)"
        "\<not> t_active (tb_read_timer st')" "tb_sent st' = tb_sent ?st1"
      by (elim exE conjE) (rule that)
    let ?st0 = "st\<lparr>tb_ml := w, tb_ring_buffer := r, tb_read_timer := ?t\<rparr>"
    have "is_active (tb_read_timer ?st0)" using start_timer_active [OF lv] by (simp add: is_active_def)
    moreover have "fire_read_timer env ?st0 = Inr st2" using st'(1) by (simp add: fire_read_timer_def read_timer_on_timer_def)
    moreover have "min (length (tb_list st)) k = Suc (min (length (tb_list ?st1)) j)" using r(3) Suc l by simp
    ultimately have "fire_reads env (min (length (tb_list st)) k) ?st0 = Some st'" using st'(2) by simp
    then show ?thesis using r(1) st'(3-6) r(3) Suc l c(3) unfolding sr by auto
  qed
qed

section \<open>Examples\<close>

definition demo_buffer :: "ptr list \<Rightarrow> buffer_state" where
  "demo_buffer ps = \<lparr>tb_ml = demo_ml demo_slicing, tb_ring_buffer = m_ndranges (demo_ring ps),
     tb_algo_type = ALGO_SLICING, tb_read_timer = new_EvTimerBase, tb_sent = True\<rparr>"

section \<open>Properties\<close>

text \<open>C20: One signal is enough for any number of launches in the buffer, when the slicing algorithm is
  selected, the reading timer does not run and the kernels of the launches can be named. Serving
  it hands over the oldest launch; from then on the reading timer runs again after every reading
  that handed a launch over, the last one included, because a popped buffer never counts as
  empty. So the timer, which fires only when it runs, fires once for every launch that fits the
  algorithm's ring; they are handed over from the oldest on, each in front of those before it, and
  the last firing finds nothing to read or no room and leaves the timer stopped. When the ring is full the
  rest stays in the buffer, and nothing reads it until the next signal.\<close>
theorem one_signal_reads_the_buffer:
  assumes "libev_ok (e_libev env)" and "tb_algo_type st = ALGO_SLICING"
    and "ca_wf (tb_ring_buffer st)" and "ca_wf (slicing_ring st)" and "\<not> t_active (tb_read_timer st)"
    and "\<forall>p\<in>set (ca_list (tb_ring_buffer st)). readable (ss_store (ml_sched (tb_ml st))) p"
    and "k = ca_bound (slicing_ring st) - length (ca_list (slicing_ring st))"
  shows "\<exists>st1 st'. serve_signal env st = Inr st1 \<and>
    fire_reads env (min (length (ca_list (tb_ring_buffer st))) k) st1 = Some st' \<and>
    ca_list (tb_ring_buffer st') = drop k (ca_list (tb_ring_buffer st)) \<and>
    ca_list (slicing_ring st') = rev (take k (ca_list (tb_ring_buffer st))) @ ca_list (slicing_ring st) \<and>
    \<not> t_active (tb_read_timer st') \<and> \<not> tb_sent st'"
proof -
  have "slicing_ring (st\<lparr>tb_sent := False\<rparr>) = slicing_ring st" by (simp add: slicing_ring_def)
  then show ?thesis
    using reads_drain [OF assms(1), of "st\<lparr>tb_sent := False\<rparr>" k] assms(2-7)
    by (simp add: serve_signal_def on_new_ndrange_cb_def)
qed

theorem one_signal_reads_the_buffer_witness:
  "\<exists>st1 st'. serve_signal demo_ml_env (demo_buffer [7]) = Inr st1 \<and> fire_reads demo_ml_env 1 st1 = Some st' \<and>
    ca_list (tb_ring_buffer st') = [] \<and> ca_list (slicing_ring st') = [7] \<and> \<not> t_active (tb_read_timer st')"
proof -
  have r: "ca_wf (m_ndranges (demo_ring ps))" if "ps = [] \<or> ps = [7]" for ps
    using that by (auto simp: demo_ring_def ca_wf_def max_new_def)
  have sr: "slicing_ring (demo_buffer [7]) = m_ndranges (demo_ring [])"
    by (simp add: slicing_ring_def demo_buffer_def)
  have e: "ca_list (m_ndranges (demo_ring [])) = []" "ca_bound (m_ndranges (demo_ring [])) = 10"
    by (simp_all add: demo_ring_def ca_list_empty ca_bound_def)
  have rd: "readable (ss_store (ml_sched (demo_ml demo_slicing))) 7"
    by (simp add: readable_def demo_slicing_def demo_launch_def demo_nd_def nd_get_kernel_name_def new_cl_kernel_def)
  have st: "tb_algo_type (demo_buffer [7]) = ALGO_SLICING" "ca_wf (tb_ring_buffer (demo_buffer [7]))"
      "ca_wf (slicing_ring (demo_buffer [7]))" "\<not> t_active (tb_read_timer (demo_buffer [7]))"
      "\<forall>p\<in>set (ca_list (tb_ring_buffer (demo_buffer [7]))). readable (ss_store (ml_sched (tb_ml (demo_buffer [7])))) p"
      "10 = ca_bound (slicing_ring (demo_buffer [7])) - length (ca_list (slicing_ring (demo_buffer [7])))"
    unfolding sr using r rd e demo_ring_list by (simp_all add: demo_buffer_def new_EvTimerBase_def)
  have l: "libev_ok (e_libev demo_ml_env)" by (simp add: demo_libev_ok)
  have b: "ca_list (tb_ring_buffer (demo_buffer [7])) = [7]" using demo_ring_list by (simp add: demo_buffer_def)
  have n: "min (length [7 :: ptr]) 10 = 1" "drop 10 [7 :: ptr] = []" "rev (take 10 [7 :: ptr]) @ [] = [7]" by simp_all
  show ?thesis
    using one_signal_reads_the_buffer [OF l st] unfolding b sr e(1) n by (elim exE conjE) (intro exI conjI)
qed

end
