(* ===== verification/Driver_Module.thy ===== *)
theory Driver_Module
  imports Unimem
begin

text \<open>
  Loading and unloading the driver (\<^verbatim>\<open>unimem/driver_buffer/unimem_buffer_alloc.c\<close>, from
  \<open>init_func\<close> on): what the module registers with the kernel, and what it takes back. The kernel's
  registration functions are a parameter; \<open>'k\<close> is the kernel's own state, of which only
  the set of registrations is looked at.
\<close>

section \<open>The kernel's registration functions\<close>

datatype registration = Region u32 | Cdev u32 | Sysfs_class u64 | Device_node u32

text \<open>
  \<open>mk_alloc_chrdev_region\<close> returns a code and the number it has chosen, \<open>mk_class_create\<close> and
  \<open>mk_device_create\<close> a pointer.
\<close>

record 'k module_kernel =
  mk_alloc_chrdev_region :: "'k \<Rightarrow> int \<times> u32 \<times> 'k"
  mk_unregister_chrdev_region :: "u32 \<Rightarrow> 'k \<Rightarrow> 'k"
  mk_cdev_add :: "u32 \<Rightarrow> 'k \<Rightarrow> int \<times> 'k"
  mk_cdev_del :: "u32 \<Rightarrow> 'k \<Rightarrow> 'k"
  mk_class_create :: "'k \<Rightarrow> u64 \<times> 'k"
  mk_class_destroy :: "u64 \<Rightarrow> 'k \<Rightarrow> 'k"
  mk_device_create :: "u64 \<Rightarrow> u32 \<Rightarrow> 'k \<Rightarrow> u64 \<times> 'k"
  mk_device_destroy :: "u64 \<Rightarrow> u32 \<Rightarrow> 'k \<Rightarrow> 'k"
  mk_regs :: "'k \<Rightarrow> registration set"

text \<open>A failing function returns an error number as a pointer: one of the last 4095 addresses.\<close>

definition is_err :: "u64 \<Rightarrow> bool" where
  "is_err p \<longleftrightarrow> - 4095 \<le> p"

text \<open>
  What the kernel documents: a call that fails registers nothing; a number or class handed out is
  new; a call that takes something back takes back just that. Of a class that is an error pointer
  nothing is known.
\<close>

definition chrdev_ok :: "'k module_kernel \<Rightarrow> bool" where
  "chrdev_ok mk \<longleftrightarrow>
     (\<forall>k r dev k'. mk_alloc_chrdev_region mk k = (r, dev, k') \<longrightarrow>
        (if r < 0 then mk_regs mk k' = mk_regs mk k
         else mk_regs mk k' = insert (Region dev) (mk_regs mk k) \<and>
           {Region dev, Cdev dev, Device_node dev} \<inter> mk_regs mk k = {})) \<and>
     (\<forall>dev k. mk_regs mk (mk_unregister_chrdev_region mk dev k) = mk_regs mk k - {Region dev}) \<and>
     (\<forall>dev k r k'. mk_cdev_add mk dev k = (r, k') \<longrightarrow>
        mk_regs mk k' = (if r < 0 then mk_regs mk k else insert (Cdev dev) (mk_regs mk k))) \<and>
     (\<forall>dev k. mk_regs mk (mk_cdev_del mk dev k) = mk_regs mk k - {Cdev dev})"

definition sysfs_ok :: "'k module_kernel \<Rightarrow> bool" where
  "sysfs_ok mk \<longleftrightarrow>
     (\<forall>k c k'. mk_class_create mk k = (c, k') \<longrightarrow>
        (if is_err c then mk_regs mk k' = mk_regs mk k
         else mk_regs mk k' = insert (Sysfs_class c) (mk_regs mk k) \<and> Sysfs_class c \<notin> mk_regs mk k)) \<and>
     (\<forall>c k. \<not> is_err c \<longrightarrow> mk_regs mk (mk_class_destroy mk c k) = mk_regs mk k - {Sysfs_class c}) \<and>
     (\<forall>c dev k p k'. mk_device_create mk c dev k = (p, k') \<longrightarrow>
        mk_regs mk k' = (if is_err p then mk_regs mk k else insert (Device_node dev) (mk_regs mk k))) \<and>
     (\<forall>c dev k. \<not> is_err c \<longrightarrow> mk_regs mk (mk_device_destroy mk c dev k) = mk_regs mk k - {Device_node dev})"

section \<open>The module\<close>

(* src/unimem/driver_buffer/unimem_buffer_alloc.c:40-45 static variables *)
record 'k module_state =
  s_first :: u32
  s_device_class :: u64
  s_the_device :: u64
  ms_driver :: driver
  ms_kernel :: 'k

text \<open>
  The tests of the two pointers only decide whether a line is logged.
\<close>

(* src/unimem/driver_buffer/unimem_buffer_alloc.c:197-242 init_func *)
definition init_func :: "'k module_kernel \<Rightarrow> 'k module_state \<Rightarrow> int \<times> 'k module_state" where
  "init_func mk s =
     (let (r, dev, k1) = mk_alloc_chrdev_region mk (ms_kernel s); s1 = s\<lparr>s_first := dev, ms_kernel := k1\<rparr>
      in if r < 0 then (-1, s1)
         else let (r2, k2) = mk_cdev_add mk dev k1
              in if r2 < 0 then (-1, s1\<lparr>ms_kernel := mk_unregister_chrdev_region mk dev k2\<rparr>)
                 else let (c, k3) = mk_class_create mk k2;
                          (p, k4) = mk_device_create mk c dev k3
                      in (0, s1\<lparr>s_device_class := c, s_the_device := p, ms_kernel := k4,
                             ms_driver := (ms_driver s)\<lparr>s_msg_type := 0\<rparr>\<rparr>))"

(* src/unimem/driver_buffer/unimem_buffer_alloc.c:244-257 cleanup_func *)
definition cleanup_func :: "'k module_kernel \<Rightarrow> 'k module_state \<Rightarrow> 'k module_state" where
  "cleanup_func mk s =
     (let k1 = mk_cdev_del mk (s_first s) (ms_kernel s);
          k2 = mk_device_destroy mk (s_device_class s) (s_first s) k1;
          k3 = mk_class_destroy mk (s_device_class s) k2
      in s\<lparr>ms_kernel := mk_unregister_chrdev_region mk (s_first s) k3\<rparr>)"

abbreviation module_regs :: "'k module_kernel \<Rightarrow> 'k module_state \<Rightarrow> registration set" where
  "module_regs mk s \<equiv> mk_regs mk (ms_kernel s)"

section \<open>What each registration does\<close>

lemma chrdev_alloc:
  assumes "chrdev_ok mk" and "mk_alloc_chrdev_region mk k = (r, dev, k')"
  shows "r < 0 \<Longrightarrow> mk_regs mk k' = mk_regs mk k"
    and "\<not> r < 0 \<Longrightarrow> mk_regs mk k' = insert (Region dev) (mk_regs mk k)"
    and "\<not> r < 0 \<Longrightarrow> Region dev \<notin> mk_regs mk k \<and> Cdev dev \<notin> mk_regs mk k \<and> Device_node dev \<notin> mk_regs mk k"
proof -
  have "if r < 0 then mk_regs mk k' = mk_regs mk k
      else mk_regs mk k' = insert (Region dev) (mk_regs mk k) \<and> {Region dev, Cdev dev, Device_node dev} \<inter> mk_regs mk k = {}"
    by (rule assms(1) [unfolded chrdev_ok_def, THEN conjunct1, rule_format, OF assms(2)])
  then show "r < 0 \<Longrightarrow> mk_regs mk k' = mk_regs mk k"
    and "\<not> r < 0 \<Longrightarrow> mk_regs mk k' = insert (Region dev) (mk_regs mk k)"
    and "\<not> r < 0 \<Longrightarrow> Region dev \<notin> mk_regs mk k \<and> Cdev dev \<notin> mk_regs mk k \<and> Device_node dev \<notin> mk_regs mk k"
    by simp_all
qed

lemma chrdev_regs:
  assumes "chrdev_ok mk"
  shows "mk_regs mk (mk_unregister_chrdev_region mk dev k) = mk_regs mk k - {Region dev}"
    and "mk_regs mk (mk_cdev_del mk dev k) = mk_regs mk k - {Cdev dev}"
    and "mk_cdev_add mk dev k = (r, k') \<Longrightarrow> mk_regs mk k' = (if r < 0 then mk_regs mk k else insert (Cdev dev) (mk_regs mk k))"
proof -
  note laws = assms [unfolded chrdev_ok_def, THEN conjunct2]
  show "mk_regs mk (mk_unregister_chrdev_region mk dev k) = mk_regs mk k - {Region dev}"
    by (rule laws [THEN conjunct1, rule_format])
  show "mk_regs mk (mk_cdev_del mk dev k) = mk_regs mk k - {Cdev dev}"
    by (rule laws [THEN conjunct2, THEN conjunct2, rule_format])
  show "mk_cdev_add mk dev k = (r, k') \<Longrightarrow> mk_regs mk k' = (if r < 0 then mk_regs mk k else insert (Cdev dev) (mk_regs mk k))"
    by (rule laws [THEN conjunct2, THEN conjunct1, rule_format])
qed

lemma sysfs_regs:
  assumes "sysfs_ok mk"
  shows "mk_class_create mk k = (c, k') \<Longrightarrow> if is_err c then mk_regs mk k' = mk_regs mk k
      else mk_regs mk k' = insert (Sysfs_class c) (mk_regs mk k) \<and> Sysfs_class c \<notin> mk_regs mk k"
    and "\<not> is_err c \<Longrightarrow> mk_regs mk (mk_class_destroy mk c k) = mk_regs mk k - {Sysfs_class c}"
    and "mk_device_create mk c dev k = (p, k') \<Longrightarrow>
      mk_regs mk k' = (if is_err p then mk_regs mk k else insert (Device_node dev) (mk_regs mk k))"
    and "\<not> is_err c \<Longrightarrow> mk_regs mk (mk_device_destroy mk c dev k) = mk_regs mk k - {Device_node dev}"
proof -
  note laws = assms [unfolded sysfs_ok_def]
  show "mk_class_create mk k = (c, k') \<Longrightarrow> if is_err c then mk_regs mk k' = mk_regs mk k
      else mk_regs mk k' = insert (Sysfs_class c) (mk_regs mk k) \<and> Sysfs_class c \<notin> mk_regs mk k"
    by (rule laws [THEN conjunct1, rule_format])
  show "\<not> is_err c \<Longrightarrow> mk_regs mk (mk_class_destroy mk c k) = mk_regs mk k - {Sysfs_class c}"
    by (rule laws [THEN conjunct2, THEN conjunct1, rule_format])
  show "mk_device_create mk c dev k = (p, k') \<Longrightarrow>
      mk_regs mk k' = (if is_err p then mk_regs mk k else insert (Device_node dev) (mk_regs mk k))"
    by (rule laws [THEN conjunct2, THEN conjunct2, THEN conjunct1, rule_format])
  show "\<not> is_err c \<Longrightarrow> mk_regs mk (mk_device_destroy mk c dev k) = mk_regs mk k - {Device_node dev}"
    by (rule laws [THEN conjunct2, THEN conjunct2, THEN conjunct2, rule_format])
qed

section \<open>A kernel for the examples\<close>

definition demo_module_kernel :: "registration set module_kernel" where
  "demo_module_kernel =
     \<lparr>mk_alloc_chrdev_region = (\<lambda>k. if {Region 7, Cdev 7, Device_node 7} \<inter> k = {} then (0, 7, insert (Region 7) k) else (-1, 0, k)),
      mk_unregister_chrdev_region = (\<lambda>dev k. k - {Region dev}),
      mk_cdev_add = (\<lambda>dev k. (0, insert (Cdev dev) k)),
      mk_cdev_del = (\<lambda>dev k. k - {Cdev dev}),
      mk_class_create = (\<lambda>k. if Sysfs_class 64 \<in> k then (-1, k) else (64, insert (Sysfs_class 64) k)),
      mk_class_destroy = (\<lambda>c k. k - {Sysfs_class c}),
      mk_device_create = (\<lambda>c dev k. (128, insert (Device_node dev) k)),
      mk_device_destroy = (\<lambda>c dev k. k - {Device_node dev}),
      mk_regs = (\<lambda>k. k)\<rparr>"

lemma demo_not_err [simp]: "\<not> is_err 64" "\<not> is_err 128" "is_err (-1)"
  by (simp_all add: is_err_def)

lemma demo_module_kernel_ok: "chrdev_ok demo_module_kernel" "sysfs_ok demo_module_kernel"
  by (simp_all add: chrdev_ok_def sysfs_ok_def demo_module_kernel_def)

section \<open>Properties\<close>

text \<open>C38: Loading the driver is all or nothing: when \<open>init_func\<close> fails, no registration is left behind;
  when it succeeds, the device's number and operations are registered, no return message is
  pending, and, if its class could be created, unloading takes back exactly what was registered.\<close>
theorem driver_load_all_or_nothing:
  assumes c: "chrdev_ok mk" and f: "sysfs_ok mk" and i: "init_func mk s = (rc, s')"
  shows "if rc \<noteq> 0 then module_regs mk s' = module_regs mk s
    else {Region (s_first s'), Cdev (s_first s')} \<subseteq> module_regs mk s' - module_regs mk s \<and>
      s_msg_type (ms_driver s') = 0 \<and>
      (\<not> is_err (s_device_class s') \<longrightarrow> module_regs mk (cleanup_func mk s') = module_regs mk s)"
proof -
  obtain r dev k1 where a: "mk_alloc_chrdev_region mk (ms_kernel s) = (r, dev, k1)" by (metis prod_cases3)
  obtain r2 k2 where b: "mk_cdev_add mk dev k1 = (r2, k2)" by fastforce
  obtain cl k3 where d: "mk_class_create mk k2 = (cl, k3)" by fastforce
  obtain p k4 where e: "mk_device_create mk cl dev k3 = (p, k4)" by fastforce
  note k1 = chrdev_alloc [OF c a] and k2 = chrdev_regs(3) [OF c b] and k3 = sysfs_regs(1) [OF f d] and k4 = sysfs_regs(3) [OF f e]
  show ?thesis
  proof (cases "r < 0 \<or> r2 < 0")
    case True
    have "rc = -1 \<and> (s' = s\<lparr>s_first := dev, ms_kernel := k1\<rparr> \<and> r < 0 \<or>
        s' = s\<lparr>s_first := dev, ms_kernel := mk_unregister_chrdev_region mk dev k2\<rparr> \<and> \<not> r < 0)"
      using i a b True by (auto simp: init_func_def Let_def split: if_splits)
    then show ?thesis using True k1 k2 chrdev_regs(1) [OF c] by auto
  next
    case False
    then have s': "rc = 0" "s' = s\<lparr>s_first := dev, s_device_class := cl, s_the_device := p, ms_kernel := k4,
        ms_driver := (ms_driver s)\<lparr>s_msg_type := 0\<rparr>\<rparr>"
      using i a b d e by (simp_all add: init_func_def Let_def)
    have in4: "{Region dev, Cdev dev} \<subseteq> mk_regs mk k4" using False k1 k2 k3 k4 by (auto split: if_splits)
    have "mk_regs mk (ms_kernel (cleanup_func mk s')) = mk_regs mk (ms_kernel s)" if "\<not> is_err cl"
      unfolding s'(2) cleanup_func_def using that False k1 k2 k3 k4
      by (auto simp: Let_def chrdev_regs(1,2) [OF c] sysfs_regs(2,4) [OF f] split: if_splits)
    then show ?thesis using s' in4 False k1(3) by auto
  qed
qed

theorem driver_load_all_or_nothing_witness:
  "\<exists>s'. init_func demo_module_kernel \<lparr>s_first = 0, s_device_class = 0, s_the_device = 0, ms_driver = driver_init Map.empty,
      ms_kernel = {}\<rparr> = (0, s') \<and>
    Region (s_first s') \<in> ms_kernel s' \<and> ms_kernel (cleanup_func demo_module_kernel s') = {}"
proof -
  let ?s = "\<lparr>s_first = 0, s_device_class = 0, s_the_device = 0, ms_driver = driver_init Map.empty,
      ms_kernel = {} :: registration set\<rparr>"
  obtain s' where i: "init_func demo_module_kernel ?s = (0, s')" and c: "s_device_class s' = 64"
    by (simp add: init_func_def demo_module_kernel_def)
  have "mk_regs demo_module_kernel = (\<lambda>k. k)" by (simp add: demo_module_kernel_def)
  then show ?thesis using driver_load_all_or_nothing [OF demo_module_kernel_ok i] i c by auto
qed

end
