(* ===== verification/Ocl_Props.thy ===== *)
theory Ocl_Props
  imports Runs
begin

text \<open>
  What single OpenCL calls promise and where they break it: the bitstream name of a program, the
  build log, programs released while a kernel needs them, and commands for a full queue.
\<close>

section \<open>The name of a program\<close>

definition name_char :: "char \<Rightarrow> bool" where
  "name_char c \<longleftrightarrow> c \<noteq> CHR 0x0A \<and> c \<noteq> CHR ''/'' \<and> c \<noteq> CHR '' ''"

text \<open>The loop stops at a line end, after 63 characters, or at the length it was given.\<close>

lemma copy_name_ok:
  assumes L: "L = min 63 (unat len)" and "i \<le> L"
    and "L < length src \<or> CHR 0x0A \<in> set (drop i (take L src))"
  shows "copy_name src len i acc =
    Inr (acc @ filter name_char (takeWhile (\<lambda>c. c \<noteq> CHR 0x0A) (drop i (take L src))))"
  using assms(2,3)
proof (induction "L - i" arbitrary: i acc)
  case 0
  then have i: "i = L" by simp
  then have "L < length src" using 0 by simp
  moreover have "\<not> i < 63 \<or> \<not> i < unat len" using i L by auto
  ultimately show ?case using i by (subst copy_name.simps) auto
next
  case (Suc k)
  have iL: "i < L" using Suc.hyps(2) by simp
  have il: "i < length src"
  proof (rule ccontr)
    assume "\<not> i < length src"
    then show False using Suc.prems(2) iL by auto
  qed
  then have lt: "i < length (take L src)" using iL by simp
  have d: "drop i (take L src) = src ! i # drop (Suc i) (take L src)"
    using Cons_nth_drop_Suc [OF lt] iL by simp
  have b: "i < 63" "i < unat len" using iL L by simp_all
  show ?case
  proof (cases "src ! i = CHR 0x0A")
    case True
    then show ?thesis using il d by (subst copy_name.simps) simp
  next
    case False
    have p: "L < length src \<or> CHR 0x0A \<in> set (drop (Suc i) (take L src))"
      using Suc.prems(2) False unfolding d by auto
    have h: "k = L - Suc i" "Suc i \<le> L" using Suc.hyps(2) iL by simp_all
    show ?thesis using il b False Suc.hyps(1) [OF h p]
      by (subst copy_name.simps) (simp add: d name_char_def)
  qed
qed

lemma takeWhile_take_commute: "takeWhile P (take n xs) = take n (takeWhile P xs)"
proof (induction xs arbitrary: n)
  case (Cons x xs)
  then show ?case by (cases n) simp_all
qed simp

text \<open>A source whose first line is a comment that holds the name.\<close>

lemma copy_name_line:
  assumes nm: "\<forall>c\<in>set name. name_char c" and n: "length src \<le> 2 ^ 64"
    and src: "src = ''//'' @ name @ [CHR 0x0A] @ body @ [CHR 0x00]"
  shows "copy_name src (of_nat (length src - 1)) 0 [] = Inr (take 61 name)"
proof -
  define L where "L = min 63 (length src - 1)"
  have u: "unat (of_nat (length src - 1) :: u64) = length src - 1"
    by (rule unat_of_nat_small) (use n src in simp)
  have "L < length src" using src by (simp add: L_def)
  then have c: "copy_name src (of_nat (length src - 1)) 0 [] =
      Inr (filter name_char (takeWhile (\<lambda>c. c \<noteq> CHR 0x0A) (take L src)))"
    using copy_name_ok [of L "of_nat (length src - 1)" 0 src "[]"] u by (simp add: L_def)
  have "takeWhile (\<lambda>c. c \<noteq> CHR 0x0A) src = ''//'' @ name"
    using nm unfolding src by (simp add: name_char_def takeWhile_append2 takeWhile_tail)
  then have t: "takeWhile (\<lambda>c. c \<noteq> CHR 0x0A) (take L src) = take L (''//'' @ name)"
    by (simp only: takeWhile_take_commute)
  have L2: "2 \<le> L" and m: "min (L - 2) (length name) = min 61 (length name)" using src by (simp_all add: L_def)
  have "take L (''//'' @ name) = ''//'' @ take (L - 2) name" using L2 by (simp add: take_Cons' numeral_2_eq_2)
  moreover have "take (L - 2) name = take 61 name"
    using m by (metis take_take take_all_iff min.commute order_refl take_equalityI)
  moreover have "filter name_char (take 61 name) = take 61 name"
    using nm by (auto simp: filter_id_conv dest: in_set_takeD)
  ultimately show ?thesis unfolding c t by (simp add: name_char_def)
qed

section \<open>The build log\<close>

lemma user_write_ok:
  assumes "mem_read (uw_user (ml_uni (cq_ml st))) p (length bs) \<noteq> None"
  shows "user_write p bs st = Inr (st\<lparr>cq_ml := (cq_ml st)\<lparr>ml_uni := (ml_uni (cq_ml st))
    \<lparr>uw_user := mem_write (uw_user (ml_uni (cq_ml st))) p bs\<rparr>\<rparr>\<rparr>)"
  using assms by (simp add: user_write_def Let_def)

lemma mem_readable_mono:
  assumes "mem_read m a n \<noteq> None" and "k \<le> n"
  shows "mem_read m a k \<noteq> None"
proof -
  obtain bs where "mem_read m a n = Some bs" using assms(1) by auto
  then have "mem_read m a k = Some (take k bs)" using assms(2) by (simp add: mem_read_Some_iff)
  then show ?thesis by simp
qed

text \<open>Zeros, and then a text over their beginning.\<close>

lemma mem_read_prefix:
  assumes "length bs \<le> n" and "n < 2 ^ 64"
  shows "mem_read (mem_write (mem_write m a (replicate n 0)) a bs) a n = Some (bs @ replicate (n - length bs) 0)"
proof -
  have "unat (a + of_nat i - a) = i" if "i < n" for i
    using that assms(2) by (intro offset_back) simp
  then show ?thesis using assms(1) by (auto simp: mem_read_Some_iff mem_write_def nth_append)
qed

lemma copy_log_ok:
  assumes l: "length build_log < 2 ^ 64" and n: "1 \<le> unat n" and m: "mem_read (user_mem st) p (unat n) \<noteq> None"
  shows "\<exists>st'. copy_log build_log n p st = Inr st' \<and> cq_objs st' = cq_objs st \<and>
    mem_read (user_mem st') p (unat n) =
      Some (c_bytes (take (unat n - 1) build_log) @ replicate (unat n - min (unat n - 1) (length build_log)) 0)"
proof -
  let ?k = "if (of_nat (length build_log) :: u64) > n - 1 then n - 1 else of_nat (length build_log)"
  let ?bs = "take (unat ?k) (c_bytes build_log)"
  have un: "unat (n - 1) = unat n - 1"
    using n by (metis unat_minus_one unat_eq_zero not_one_le_zero unat_0)
  have ul: "unat (of_nat (length build_log) :: u64) = length build_log" by (rule unat_of_nat_small) (use l in simp)
  have k: "unat ?k = min (unat n - 1) (length build_log)"
    using un ul by (auto simp: word_less_nat_alt)
  have bs: "?bs = c_bytes (take (unat n - 1) build_log)" unfolding k by (simp add: c_bytes_def take_map min_def)
  have len: "length ?bs = min (unat n - 1) (length build_log)" unfolding bs by (simp add: c_bytes_def)
  let ?st1 = "st\<lparr>cq_ml := (cq_ml st)\<lparr>ml_uni := (ml_uni (cq_ml st))
    \<lparr>uw_user := mem_write (user_mem st) p (replicate (unat n) 0)\<rparr>\<rparr>\<rparr>"
  have w1: "user_write p (replicate (unat n) 0) st = Inr ?st1"
    by (rule user_write_ok) (use m in simp)
  have le: "length ?bs \<le> unat n" by (rule order_trans [OF eq_refl [OF len]]) simp
  have "mem_read (user_mem ?st1) p (unat n) \<noteq> None"
    using mem_read_write_same [of "replicate (unat n) 0" "user_mem st" p] mem_read_bound [of n] by simp
  then have "mem_read (user_mem ?st1) p (length ?bs) \<noteq> None" by (rule mem_readable_mono) (rule le)
  note w2 = user_write_ok [OF this]
  have r: "mem_read (mem_write (mem_write (user_mem st) p (replicate (unat n) 0)) p ?bs) p (unat n) =
      Some (?bs @ replicate (unat n - length ?bs) 0)" using unat_bound64 [of n] le by (intro mem_read_prefix) simp_all
  have "copy_log build_log n p st = user_write p ?bs ?st1" by (simp add: copy_log_def Let_def w1)
  then show ?thesis using w2 r unfolding len unfolding bs by simp
qed

section \<open>Programs\<close>

text \<open>A source whose first line is \<open>//\<close> and a file name makes a program with that name.\<close>

lemma create_program_ok:
  assumes "\<forall>c\<in>set name. c \<notin> {CHR 0x00, CHR 0x0A, CHR ''/'', CHR '' ''}" and "CHR 0x00 \<notin> set body"
    and "src = ''//'' @ name @ [CHR 0x0A] @ body @ [CHR 0x00]" and "length src \<le> 2 ^ 64" and "count \<noteq> 0"
  shows "\<exists>prog. clCreateProgramWithSource (Some c) count (Some (Some src)) None er st =
      Inr (Some (o_next (cq_objs st)), None, with_objs ((cq_objs st)\<lparr>o_next := Suc (o_next (cq_objs st)),
        o_programs := (o_programs (cq_objs st))(o_next (cq_objs st) \<mapsto> prog)\<rparr>) st) \<and>
    m_xml_name prog = take 61 name"
proof -
  have "c \<noteq> CHR 0x00" if "c \<in> set (''//'' @ name @ [CHR 0x0A] @ body)" for c
    using assms(1,2) that by (cases "c \<in> set name \<union> set body") auto
  then have "takeWhile (\<lambda>c. c \<noteq> CHR 0x00) ((''//'' @ name @ [CHR 0x0A] @ body) @ [CHR 0x00]) =
      ''//'' @ name @ [CHR 0x0A] @ body" by (subst takeWhile_append2) simp_all
  then have "takeWhile (\<lambda>c. c \<noteq> CHR 0x00) src = ''//'' @ name @ [CHR 0x0A] @ body"
    unfolding assms(3) by simp
  then have s: "c_strlen src = Inr (of_nat (length src - 1))" by (simp add: c_strlen_def assms(3))
  have n: "\<forall>c\<in>set name. name_char c" using assms(1) by (auto simp: name_char_def)
  note cp = copy_name_line [OF n assms(4,3)]
  have "takeWhile (\<lambda>c. c \<noteq> CHR 0x00) (take 61 name) = take 61 name"
    using assms(1) by (auto simp: takeWhile_eq_all_conv dest: in_set_takeD)
  then show ?thesis using s cp assms(5)
    by (intro exI [of _ "\<lparr>m_counter = 1, m_xml_name = take 61 name, m_build_log = [], m_context = Some c\<rparr>"])
      (simp add: clCreateProgramWithSource_def fresh_def Let_def del: takeWhile_eq_all_conv)
qed

lemma build_program_ok:
  assumes "o_programs (cq_objs st) p = Some prog"
  shows "\<exists>log. clBuildProgram env (Some p) st = Inr (if m_xml_name prog \<in> set (m_xml_files_list (e_bits env)) then CL_SUCCESS
      else CL_BUILD_PROGRAM_FAILURE,
    with_objs ((cq_objs st)\<lparr>o_programs := (o_programs (cq_objs st))(p \<mapsto> prog\<lparr>m_build_log := log\<rparr>)\<rparr>) st)"
  using assms
  by (auto simp: clBuildProgram_def ml_check_bitstream_exists_def check_bitstream_exists_def new_BitstreamCheck_def Let_def)

section \<open>Properties\<close>

text \<open>C24: The name round trip: a source whose first line is \<open>//\<close> and the name of a bitstream file
  gives a program with that name, cut off after 61 characters, and building the program succeeds
  exactly when the directory of descriptions had a file of the name so cut.\<close>
theorem program_name_roundtrip:
  assumes "\<forall>c\<in>set name. c \<notin> {CHR 0x00, CHR 0x0A, CHR ''/'', CHR '' ''}" and "CHR 0x00 \<notin> set body"
    and "src = ''//'' @ name @ [CHR 0x0A] @ body @ [CHR 0x00]" and "length src \<le> 2 ^ 64" and "count \<noteq> 0"
  shows "\<exists>p prog st' st''. clCreateProgramWithSource (Some c) count (Some (Some src)) None er st = Inr (Some p, None, st') \<and>
    o_programs (cq_objs st') p = Some prog \<and> m_xml_name prog = take 61 name \<and>
    clBuildProgram env (Some p) st' =
      Inr (if take 61 name \<in> set (m_xml_files_list (e_bits env)) then CL_SUCCESS else CL_BUILD_PROGRAM_FAILURE, st'')"
proof -
  obtain prog where c: "clCreateProgramWithSource (Some c) count (Some (Some src)) None er st =
      Inr (Some (o_next (cq_objs st)), None, with_objs ((cq_objs st)\<lparr>o_next := Suc (o_next (cq_objs st)),
        o_programs := (o_programs (cq_objs st))(o_next (cq_objs st) \<mapsto> prog)\<rparr>) st)" "m_xml_name prog = take 61 name"
    using create_program_ok [OF assms] by blast
  then show ?thesis
    using build_program_ok [of "with_objs ((cq_objs st)\<lparr>o_next := Suc (o_next (cq_objs st)),
        o_programs := (o_programs (cq_objs st))(o_next (cq_objs st) \<mapsto> prog)\<rparr>) st" "o_next (cq_objs st)" prog env] by auto
qed

theorem program_name_roundtrip_witness:
  "\<exists>r p prog st'. clCreateProgramWithSource (Some 3) 1 (Some (Some (''//k.xml'' @ [CHR 0x0A] @ ''x'' @ [CHR 0x00]))) None True
      (demo_cq r) = Inr (Some p, None, st') \<and>
    o_programs (cq_objs st') p = Some prog \<and> m_xml_name prog = ''k.xml''"
  using program_name_roundtrip [of "''k.xml''" "''x''" "''//k.xml'' @ [CHR 0x0A] @ ''x'' @ [CHR 0x00]" 1 3 True
    "demo_cq undefined" demo_ml_env] by auto

text \<open>C31: The build log a caller reads into a mapped buffer of \<open>n > 0\<close> bytes is the longest prefix of
  the program's log that leaves room for a terminating zero, followed by zeros to the end of the
  buffer; no object changes. What the call returns is undefined, because the branch has no return
  statement.\<close>
theorem build_log_is_terminated_prefix:
  assumes "o_programs (cq_objs st) p = Some prog" and "length (m_build_log prog) < 2 ^ 64" and "1 \<le> unat n"
    and "mem_read (uw_user (ml_uni (cq_ml st))) a (unat n) \<noteq> None"
  shows "\<exists>st'. clGetProgramBuildInfo garbage (Some p) CL_PROGRAM_BUILD_LOG n (Some a) has_ret st = Inr (garbage, None, st') \<and>
    cq_objs st' = cq_objs st \<and>
    mem_read (uw_user (ml_uni (cq_ml st'))) a (unat n) =
      Some (c_bytes (take (unat n - 1) (m_build_log prog)) @
        replicate (unat n - min (unat n - 1) (length (m_build_log prog))) 0)"
proof -
  have "\<not> n < 1" using assms(3) by (simp add: word_less_nat_alt)
  then show ?thesis
    using copy_log_ok [OF assms(2-4)] assms(1) by (auto simp: clGetProgramBuildInfo_def)
qed

theorem build_log_is_terminated_prefix_witness:
  "\<exists>st st'. clGetProgramBuildInfo 0 (Some 2) CL_PROGRAM_BUILD_LOG 3 (Some 100) False st = Inr (0, None, st') \<and>
    mem_read (uw_user (ml_uni (cq_ml st'))) 100 3 = Some (c_bytes ''lo'' @ [0])"
proof -
  let ?prog = "\<lparr>m_counter = 1, m_xml_name = ''k'', m_build_log = ''log'', m_context = None\<rparr>"
  let ?st = "with_objs ((cq_objs (demo_cq undefined))\<lparr>o_programs := [2 \<mapsto> ?prog]\<rparr>) (demo_cq undefined)"
  have p: "o_programs (cq_objs ?st) 2 = Some ?prog" by simp
  have m: "mem_read (uw_user (ml_uni (cq_ml ?st))) 100 (unat (3 :: u64)) \<noteq> None"
    using demo_user_reads(1) by (simp add: demo_cq_def)
  show ?thesis using build_log_is_terminated_prefix [OF p _ _ m, of 0 False] by fastforce
qed

text \<open>A size of zero wraps, and the whole log is written to a buffer without room.\<close>

lemma build_log_size_zero:
  assumes "o_programs (cq_objs st) p = Some prog" and "length (m_build_log prog) < 2 ^ 64"
    and "mem_read (user_mem st) a (length (m_build_log prog)) \<noteq> None"
  shows "\<exists>st'. clGetProgramBuildInfo garbage (Some p) CL_PROGRAM_BUILD_LOG 0 (Some a) False st = Inr (garbage, None, st') \<and>
    mem_read (user_mem st') a (length (m_build_log prog)) = Some (c_bytes (m_build_log prog))"
proof -
  have ul: "unat (of_nat (length (m_build_log prog)) :: u64) = length (m_build_log prog)"
    by (rule unat_of_nat_small) (use assms(2) in simp)
  have nk: "\<not> (of_nat (length (m_build_log prog)) :: u64) > 0 - 1"
    by (simp add: not_less word_order.extremum)
  have l: "length (c_bytes (m_build_log prog)) = length (m_build_log prog)" by (simp add: c_bytes_def)
  have z: "user_write a [] st = Inr st" by (simp add: user_write_def Let_def mem_read_def mem_write_def)
  have "mem_read (user_mem st) a (length (c_bytes (m_build_log prog))) \<noteq> None" using assms(3) l by simp
  note w = user_write_ok [OF this]
  have "length (c_bytes (m_build_log prog)) \<le> 2 ^ 64" using assms(2) l by simp
  from mem_read_write_same [OF this, of "user_mem st" a] show ?thesis
    using assms(1) nk ul l z w by (simp add: clGetProgramBuildInfo_def copy_log_def Let_def)
qed

text \<open>C32: Kernels do not keep their program alive, although the interface says they do: when a program
  that was made from source is released after a kernel was created from it, every launch of the
  kernel that passes the checks of its dimensions reads the deleted program.\<close>
theorem released_program_breaks_kernel:
  assumes "clCreateProgramWithSource c count strings lengths er1 st = Inr (Some pp, code1, st1)"
    and "clCreateKernel (Some pp) er2 st1 = (Some kp, code2, st2)"
    and "clReleaseProgram g2 (Some pp) st2 = Inr (code3, st3)" and "1 \<le> l"
  shows "clEnqueueNDRangeKernel env garbage (Some q) (Some kp) 1 goff gsize (Some l) st3 = Inl Use_after_free"
proof -
  obtain prog where p: "o_programs (cq_objs st1) pp = Some prog" "m_counter prog = 1"
    using assms(1) by (auto simp: clCreateProgramWithSource_def bindr_Inr_iff fresh_def Let_def
        split: if_splits option.splits)
  have k: "o_kernels (cq_objs st2) kp = Some (new_cl_kernel (Some pp))" "o_programs (cq_objs st2) = o_programs (cq_objs st1)"
    using assms(2) by (auto simp: clCreateKernel_def fresh_def)
  have "o_programs (cq_objs st3) pp = None" "o_kernels (cq_objs st3) = o_kernels (cq_objs st2)"
    using assms(3) p k(2) ref_cnt_down_one [of prog]
    by (auto simp: clReleaseProgram_def bindr_Inr_iff heap_down_def deref_Inr_iff)
  then show ?thesis using k(1) assms(4)
    by (simp add: clEnqueueNDRangeKernel_def word_less_nat_alt word_le_nat_alt new_cl_kernel_def deref_def)
qed

theorem released_program_breaks_kernel_witness:
  "\<exists>pp kp st3. clEnqueueNDRangeKernel demo_ml_env ML_SUCCESS (Some 0) (Some kp) 1 None (Some 10) (Some 2) st3 =
      Inl Use_after_free \<and>
    clReleaseProgram 0 (Some pp) (snd (snd (clCreateKernel (Some pp) False
      (snd (snd (projr (clCreateProgramWithSource (Some 3) 1 (Some (Some [CHR 0x0A, CHR 0x00])) None False (demo_cq undefined)))))))) =
      Inr (0, st3)"
proof -
  have n: "copy_name [CHR 0x0A, CHR 0x00] 1 0 [] = Inr []" by (subst copy_name.simps) simp
  obtain pp st1 where p: "clCreateProgramWithSource (Some 3) 1 (Some (Some [CHR 0x0A, CHR 0x00])) None False (demo_cq undefined) =
      Inr (Some pp, None, st1)" "\<exists>prog. o_programs (cq_objs st1) pp = Some prog"
    using n by (simp add: clCreateProgramWithSource_def c_strlen_def fresh_def Let_def)
  obtain kp st2 where k: "clCreateKernel (Some pp) False st1 = (Some kp, None, st2)"
      "o_programs (cq_objs st2) = o_programs (cq_objs st1)"
    by (simp add: clCreateKernel_def fresh_def)
  obtain st3 where r: "clReleaseProgram 0 (Some pp) st2 = Inr (0, st3)"
    using p(2) k(2) by (auto simp: clReleaseProgram_def heap_down_def)
  have "(1 :: u64) \<le> 2" by simp
  note e = released_program_breaks_kernel [OF p(1) k(1) r this, of demo_ml_env ML_SUCCESS 0 None "Some 10"]
  have r': "clReleaseProgram 0 (Some pp) (snd (snd (clCreateKernel (Some pp) False
      (snd (snd (projr (clCreateProgramWithSource (Some 3) 1 (Some (Some [CHR 0x0A, CHR 0x00])) None False (demo_cq undefined)))))))) =
      Inr (0, st3)" using r unfolding p(1) by (simp add: k(1))
  show ?thesis by (intro exI conjI, rule e, rule r')
qed

text \<open>C29: Submitting a command to a queue: a released queue refuses it; any other queue takes a new
  number, has its watcher marked and reports success, but its ring then holds the longest prefix
  of the old commands and the new one that fits, so a full queue drops the command behind the
  caller's back. The return value of the queue's own function does not matter, as long as the
  garbage it returns is not the code for a released queue.\<close>
theorem submit_drops_when_full:
  assumes "cq_queues st q = Some cq" and "ca_wf (q_ring_buffer cq)" and "garbage \<noteq> ML_ERROR_CMDQ_RELEASED"
  shows "\<exists>rc n st'. ml_submit_cmd garbage (Some q) (Some cmd) i st = Inr (rc, n, st') \<and> n = cq_command_id st + 1 \<and>
    (if q_ref_counter cq < 1 then rc = FPML_ERR_INVALID_CMDQ \<and> st' = st\<lparr>cq_command_id := n\<rparr>
     else rc = FPML_SUCCESS \<and> q \<in> cq_sent st' \<and> (\<exists>r. cq_queues st' = (cq_queues st)(q \<mapsto> cq\<lparr>q_ring_buffer := r\<rparr>) \<and> ca_wf r \<and>
       ca_list r = take (ca_bound (q_ring_buffer cq))
         (ca_list (q_ring_buffer cq) @ [cmd\<lparr>m_command_id := sint n\<rparr>])))"
proof -
  let ?cmd = "cmd\<lparr>m_command_id := sint (cq_command_id st + 1)\<rparr>"
  obtain r where r: "ca_enq ?cmd (q_ring_buffer cq) = Inr r" "ca_wf r"
      "ca_list r = take (ca_bound (q_ring_buffer cq)) (ca_list (q_ring_buffer cq) @ [?cmd])"
    using ca_fifo.enq_total [OF assms(2)] by blast
  obtain x where x: "ca_push_back (q_ring_buffer cq) ?cmd False = Inr (x, r)"
    using r(1) by (auto simp: ca_enq_def drop_result_def bindr_Inr_iff)
  show ?thesis
    using assms(1,3) r(2,3) x
    by (auto simp: ml_submit_cmd_def cq_push_back_def set_command_id_def Let_def)
qed

theorem submit_drops_when_full_witness:
  "\<exists>r cmd st'. ml_submit_cmd ML_SUCCESS (Some 0) (Some cmd) 0 (demo_cq r) = Inr (FPML_SUCCESS, 14, st') \<and> 0 \<in> cq_sent st'"
proof -
  obtain r :: "mlcl_command circ_array" where r: "ca_wf r" "ca_list r = []" "0 < ca_bound r" using demo_ring100 by blast
  let ?cq = "\<lparr>q_ring_buffer = r, q_ref_counter = 1, q_last_event = None\<rparr>"
  have q: "cq_queues (demo_cq r) 0 = Some ?cq" by (simp add: demo_cq_def)
  have w: "ca_wf (q_ring_buffer ?cq)" using r(1) by simp
  have i: "cq_command_id (demo_cq r) + 1 = 14" by (simp add: demo_cq_def)
  show ?thesis using submit_drops_when_full [OF q w, of ML_SUCCESS undefined 0] unfolding i by auto
qed

end
