(* ===== verification/Queue_Launch.thy ===== *)
theory Queue_Launch
  imports Cmd_Queue
begin

text \<open>
  Queues and kernel launches: what happens between the moment a queue takes a kernel command and
  the moment the schedulers have worked through its groups. The launch's event carries the address
  of the queue's watcher until then.
\<close>

section \<open>The callbacks of launches\<close>

text \<open>What holds of the callback of an event, if the event is there.\<close>

definition cb_sat :: "(event_cb option \<Rightarrow> bool) \<Rightarrow> ptr \<Rightarrow> nd_store \<Rightarrow> bool" where
  "cb_sat Q e st \<longleftrightarrow> (\<forall>ev. o_events (ns_objs st) e = Some ev \<longrightarrow> Q (m_cb ev))"

text \<open>The callbacks of the events launches hold are among \<open>C\<close>.\<close>

definition callbacks_in :: "event_cb set \<Rightarrow> nd_store \<Rightarrow> bool" where
  "callbacks_in C st \<longleftrightarrow> (\<forall>p nd. ns_ndranges st p = Some nd \<longrightarrow> cb_sat (\<lambda>x. \<forall>cb. x = Some cb \<longrightarrow> cb \<in> C) (n_event nd) st)"

lemma ref_cnt_down_cb: "ref_cnt_down e = Some e' \<Longrightarrow> m_cb e' = m_cb (e :: cl_event)"
  by (auto simp: ref_cnt_down_def Let_def split: if_splits)

lemma event_down_cb:
  assumes "event_down s p = Inr s'" and "\<And>ev. o_events s e = Some ev \<Longrightarrow> Q (m_cb ev)" and "o_events s' e = Some ev'"
  shows "Q (m_cb ev')"
proof -
  obtain ev where "o_events s e = Some ev" "m_cb ev' = m_cb ev"
    using assms(1,3) by (auto simp: event_down_def heap_down_def bindr_Inr_iff deref_Inr_iff
        dest!: ref_cnt_down_cb split: if_splits)
  then show ?thesis using assms(2) by simp
qed

lemma decrement_callbacks:
  assumes d: "decrement_wgrs_counter st p = Inr (st', cbs)" and nd: "ns_ndranges st p = Some nd"
  shows "cb_sat Q e st \<Longrightarrow> cb_sat Q e st'"
    and "cbs \<noteq> [] \<Longrightarrow> \<exists>ev cb. o_events (ns_objs st) (n_event nd) = Some ev \<and> m_cb ev = Some cb \<and> cbs = [cb]"
    and "ns_ndranges st' p = None \<Longrightarrow> cbs \<noteq> []"
proof -
  show "\<exists>ev cb. o_events (ns_objs st) (n_event nd) = Some ev \<and> m_cb ev = Some cb \<and> cbs = [cb]" if "cbs \<noteq> []"
    using d nd that
    by (auto simp: decrement_wgrs_counter_def bindr_Inr_iff Let_def complete_event_def set_as_complete_def
        deref_Inr_iff split: if_splits option.splits)
  show "cbs \<noteq> []" if "ns_ndranges st' p = None"
    using d nd that by (auto simp: decrement_wgrs_counter_def bindr_Inr_iff Let_def split: if_splits)
  show "cb_sat Q e st'" if c: "cb_sat Q e st"
  proof (cases "n_wgrs_in_the_wild nd = 1")
    case False
    then show ?thesis using d nd c by (auto simp: decrement_wgrs_counter_def Let_def cb_sat_def)
  next
    case True
    then obtain s1 cb1 s2 where s: "complete_event (ns_objs st) (n_event nd) = Inr (s1, cb1)"
        "delete_NDRange (nd\<lparr>n_wgrs_in_the_wild := 0\<rparr>) s1 = Inr s2" "ns_objs st' = s2"
      using d nd by (auto simp: decrement_wgrs_counter_def bindr_Inr_iff Let_def)
    have c1: "Q (m_cb ev)" if "o_events s1 e = Some ev" for ev
      using s(1) c that by (auto simp: complete_event_def bindr_Inr_iff deref_Inr_iff set_as_complete_def cb_sat_def
          split: option.splits if_splits)
    obtain h where h: "event_down (s1\<lparr>o_kernels := h\<rparr>) (n_event nd) = Inr s2"
      using s(2) by (auto simp: delete_NDRange_def bindr_Inr_iff kernel_down_def)
    have "Q (m_cb ev)" if "o_events s2 e = Some ev" for ev
      by (rule event_down_cb [OF h _ that]) (use c1 in simp)
    then show ?thesis using s(3) by (simp add: cb_sat_def)
  qed
qed

text \<open>One expiry: the callbacks are those of launches, and the launch it ends calls back.\<close>

lemma fire_callbacks:
  assumes f: "fire_scheduler lv i w = Inr (w', cbs)"
  shows "cb_sat Q e (ss_store w) \<Longrightarrow> cb_sat Q e (ss_store w')"
    and "callbacks_in C (ss_store w) \<Longrightarrow> set cbs \<subseteq> C"
    and "callbacks_in C (ss_store w) \<Longrightarrow> callbacks_in C (ss_store w')"
    and "ns_ndranges (ss_store w) r = Some nd \<Longrightarrow> cb_sat ((=) (Some cb)) (n_event nd) (ss_store w) \<Longrightarrow>
      (\<exists>nd'. ns_ndranges (ss_store w') r = Some nd' \<and> n_event nd' = n_event nd) \<or> cb \<in> set cbs"
proof -
  obtain p ndp where p: "decrement_wgrs_counter (ss_store w) p = Inr (ss_store w', cbs)"
      "ns_ndranges (ss_store w) p = Some ndp" using fire_decrements [OF f] by blast
  note d = decrement_callbacks [OF p]
  note keep = decrement_done [OF p]
  show cbk: "cb_sat Q e (ss_store w')" if "cb_sat Q e (ss_store w)" for Q e by (rule d(1) [OF that])
  show "set cbs \<subseteq> C" if "callbacks_in C (ss_store w)"
    using d(2) that p(2) by (cases "cbs = []") (auto simp: callbacks_in_def cb_sat_def)
  show "callbacks_in C (ss_store w')" if c: "callbacks_in C (ss_store w)"
    unfolding callbacks_in_def
  proof (intro allI impI)
    fix r nd assume h: "ns_ndranges (ss_store w') r = Some nd"
    obtain nd0 where nd0: "ns_ndranges (ss_store w) r = Some nd0" "n_event nd = n_event nd0"
      using h keep(4,5) p(2) by (cases "r = p") auto
    show "cb_sat (\<lambda>x. \<forall>cb. x = Some cb \<longrightarrow> cb \<in> C) (n_event nd) (ss_store w')"
      by (rule cbk) (use c nd0 in \<open>simp add: callbacks_in_def\<close>)
  qed
  show "(\<exists>nd'. ns_ndranges (ss_store w') r = Some nd' \<and> n_event nd' = n_event nd) \<or> cb \<in> set cbs"
    if h: "ns_ndranges (ss_store w) r = Some nd" "cb_sat ((=) (Some cb)) (n_event nd) (ss_store w)"
  proof (cases "r = p \<and> ns_ndranges (ss_store w') p = None")
    case True
    then have "cbs \<noteq> []" "nd = ndp" using d(3) h(1) p(2) by auto
    then show ?thesis using d(2) h(2) by (auto simp: cb_sat_def)
  next
    case False
    then show ?thesis using keep(4,5) h(1) p(2) by (cases "r = p") auto
  qed
qed


section \<open>Timers and queues\<close>

text \<open>The callbacks of events succeed when their queues are there, and mark them.\<close>

definition live_callbacks :: "cq_state \<Rightarrow> event_cb set" where
  "live_callbacks st = On_event_complete ` dom (cq_queues st)"

lemma callbacks_ok:
  "set cbs \<subseteq> live_callbacks st \<Longrightarrow>
    foldr_res on_event_complete cbs st = Inr (st\<lparr>cq_fed := cq_fed st \<union> {q. On_event_complete q \<in> set cbs}\<rparr>)"
proof (induction cbs arbitrary: st)
  case (Cons cb cbs)
  then obtain q where q: "cb = On_event_complete q" "cq_queues st q \<noteq> None" by (auto simp: live_callbacks_def)
  have "set cbs \<subseteq> live_callbacks (st\<lparr>cq_fed := insert q (cq_fed st)\<rparr>)" using Cons.prems by (simp add: live_callbacks_def)
  note IH = Cons.IH [OF this]
  have F: "insert q (cq_fed st) \<union> {q. On_event_complete q \<in> set cbs} = cq_fed st \<union> {q. On_event_complete q \<in> set (cb # cbs)}"
    using q(1) by auto
  have "on_event_complete cb st = Inr (st\<lparr>cq_fed := insert q (cq_fed st)\<rparr>)" using q by auto
  then have "foldr_res on_event_complete (cb # cbs) st =
      Inr (st\<lparr>cq_fed := insert q (cq_fed st) \<union> {q. On_event_complete q \<in> set cbs}\<rparr>)" using IH by simp
  then show ?case unfolding F .
qed simp

lemma callbacks_fault:
  "\<not> set cbs \<subseteq> live_callbacks st \<Longrightarrow> foldr_res on_event_complete cbs st = Inl Use_after_free"
proof (induction cbs arbitrary: st)
  case (Cons cb cbs)
  obtain q where q: "cb = On_event_complete q" by (cases cb)
  show ?case
  proof (cases "cq_queues st q")
    case (Some cq)
    then have "\<not> set cbs \<subseteq> live_callbacks (st\<lparr>cq_fed := insert q (cq_fed st)\<rparr>)"
      using Cons.prems q by (auto simp: live_callbacks_def)
    then show ?thesis using Cons.IH q Some by simp
  qed (simp add: q)
qed simp

lemma expire_ok:
  assumes "fire_scheduler (e_libev env) i (ml_sched (cq_ml st)) = Inr (s, cbs)"
  shows "set cbs \<subseteq> live_callbacks st \<Longrightarrow> expire_scheduler env i st =
      Inr (st\<lparr>cq_ml := (cq_ml st)\<lparr>ml_sched := s\<rparr>, cq_fed := cq_fed st \<union> {q. On_event_complete q \<in> set cbs}\<rparr>)"
    and "\<not> set cbs \<subseteq> live_callbacks st \<Longrightarrow> expire_scheduler env i st = Inl Use_after_free"
  using assms callbacks_ok [of cbs "st\<lparr>cq_ml := (cq_ml st)\<lparr>ml_sched := s\<rparr>\<rparr>"]
    callbacks_fault [of cbs "st\<lparr>cq_ml := (cq_ml st)\<lparr>ml_sched := s\<rparr>\<rparr>"]
  by (simp_all add: expire_scheduler_def live_callbacks_def)

text \<open>
  Schedulers' timers that expire one after the other. Only a running timer expires: the result is
  \<open>None\<close> if one that is to expire does not run, and otherwise what the loop makes of the expiries.
\<close>

fun expire_timers :: "ml_env \<Rightarrow> nat list \<Rightarrow> cq_state \<Rightarrow> cq_state res option" where
  "expire_timers env [] st = Some (Inr st)"
| "expire_timers env (i # is) st =
     (if \<not> timer_runs (ml_sched (cq_ml st)) i then None
      else case expire_scheduler env i st of
             Inl e \<Rightarrow> Some (Inl e)
           | Inr st1 \<Rightarrow> expire_timers env is st1)"

text \<open>While the queues of all launches are there, the timers run and mark the queue of every launch they end.\<close>

lemma expire_all:
  assumes "run_fires (e_libev env) is (ml_sched (cq_ml st)) = Some (s, cbs)"
    and "callbacks_in (live_callbacks st) (ss_store (ml_sched (cq_ml st)))"
    and "q \<in> cq_fed st \<or> (\<exists>nd. ns_ndranges (ss_store (ml_sched (cq_ml st))) p = Some nd \<and>
      cb_sat ((=) (Some (On_event_complete q))) (n_event nd) (ss_store (ml_sched (cq_ml st))))"
  shows "\<exists>F. expire_timers env is st = Some (Inr (st\<lparr>cq_ml := (cq_ml st)\<lparr>ml_sched := s\<rparr>, cq_fed := F\<rparr>)) \<and>
    (q \<in> F \<or> ns_ndranges (ss_store s) p \<noteq> None)"
  using assms
proof (induction "is" arbitrary: st cbs)
  case Nil
  then show ?case by (intro exI [of _ "cq_fed st"]) auto
next
  case (Cons i "is")
  let ?w = "ml_sched (cq_ml st)"
  obtain w1 c1 c2 where w1: "fire_scheduler (e_libev env) i ?w = Inr (w1, c1)" "run_fires (e_libev env) is w1 = Some (s, c2)"
    and t: "timer_runs ?w i" using Cons.prems(1) by (auto simp: run_fires_Cons)
  note f = fire_callbacks [OF w1(1)]
  let ?st1 = "st\<lparr>cq_ml := (cq_ml st)\<lparr>ml_sched := w1\<rparr>, cq_fed := cq_fed st \<union> {q. On_event_complete q \<in> set c1}\<rparr>"
  have e: "expire_scheduler env i st = Inr ?st1" by (rule expire_ok(1) [OF w1(1) f(2) [OF Cons.prems(2)]])
  have live: "live_callbacks ?st1 = live_callbacks st" by (simp add: live_callbacks_def)
  have c: "callbacks_in (live_callbacks ?st1) (ss_store (ml_sched (cq_ml ?st1)))"
    using f(3) [OF Cons.prems(2)] live by simp
  have q: "q \<in> cq_fed ?st1 \<or> (\<exists>nd. ns_ndranges (ss_store (ml_sched (cq_ml ?st1))) p = Some nd \<and>
      cb_sat ((=) (Some (On_event_complete q))) (n_event nd) (ss_store (ml_sched (cq_ml ?st1))))"
    using Cons.prems(3) f(1,4) by fastforce
  have w2: "run_fires (e_libev env) is (ml_sched (cq_ml ?st1)) = Some (s, c2)" using w1(2) by simp
  show ?case using Cons.IH [OF w2 c q] e t by simp
qed

text \<open>When a launch's queue is gone, the timers cannot end the launch without a fault.\<close>

lemma expire_dead:
  assumes "cq_queues st q = None" and "ns_ndranges (ss_store (ml_sched (cq_ml st))) p = Some nd"
    and "cb_sat ((=) (Some (On_event_complete q))) (n_event nd) (ss_store (ml_sched (cq_ml st)))"
    and "run_fires (e_libev env) is (ml_sched (cq_ml st)) = Some (s, cbs)" and "ns_ndranges (ss_store s) p = None"
  shows "expire_timers env is st = Some (Inl Use_after_free)"
  using assms
proof (induction "is" arbitrary: st nd cbs)
  case Nil
  then show ?case by simp
next
  case (Cons i "is")
  let ?w = "ml_sched (cq_ml st)"
  obtain w1 c1 c2 where w1: "fire_scheduler (e_libev env) i ?w = Inr (w1, c1)" "run_fires (e_libev env) is w1 = Some (s, c2)"
    and t: "timer_runs ?w i" using Cons.prems(4) by (auto simp: run_fires_Cons)
  note f = fire_callbacks [OF w1(1)]
  show ?case
  proof (cases "set c1 \<subseteq> live_callbacks st")
    case False
    then show ?thesis using expire_ok(2) [OF w1(1)] t by simp
  next
    case True
    let ?st1 = "st\<lparr>cq_ml := (cq_ml st)\<lparr>ml_sched := w1\<rparr>, cq_fed := cq_fed st \<union> {q. On_event_complete q \<in> set c1}\<rparr>"
    have "On_event_complete q \<notin> set c1" using True Cons.prems(1) by (auto simp: live_callbacks_def)
    then obtain nd1 where nd1: "ns_ndranges (ss_store w1) p = Some nd1" "n_event nd1 = n_event nd"
      using f(4) [OF Cons.prems(2,3)] by blast
    have "cb_sat ((=) (Some (On_event_complete q))) (n_event nd1) (ss_store w1)"
      using f(1) [OF Cons.prems(3)] nd1(2) by simp
    then have "expire_timers env is ?st1 = Some (Inl Use_after_free)"
      using Cons.IH [of ?st1 nd1 c2] Cons.prems(1,5) nd1(1) w1(2) by simp
    then show ?thesis using expire_ok(1) [OF w1(1) True] t by simp
  qed
qed

section \<open>Serving a kernel command\<close>

lemma refs_ok_cong: "refs_ok P h f \<Longrightarrow> (\<And>p x. f p = Some x \<Longrightarrow> h' x = h x) \<Longrightarrow> refs_ok P h' f"
  unfolding refs_ok_def by (metis (no_types, lifting))

lemma refs_ok_insert:
  assumes ok: "refs_ok P h f" and p: "f p = None" and r: "h x = Some r" "P r" "card {q. f q = Some x} < unat (m_counter r)"
  shows "refs_ok P h (f(p \<mapsto> x))"
proof -
  have fin: "finite {q. f q = Some y}" for y
    by (rule finite_subset [of _ "dom f"]) (use ok in \<open>auto simp: refs_ok_def\<close>)
  have H: "{q. (f(p \<mapsto> x)) q = Some y} = (if y = x then insert p {q. f q = Some y} else {q. f q = Some y})" for y
    using p by auto
  have "\<exists>r. h y = Some r \<and> P r \<and> card {q. (f(p \<mapsto> x)) q = Some y} \<le> unat (m_counter r)"
    if "(f(p \<mapsto> x)) q = Some y" for q y
  proof (cases "y = x")
    case True
    then show ?thesis using r fin [of x] p unfolding H by (simp add: card_insert_if)
  next
    case False
    then have "f q = Some y" using that by (auto split: if_splits)
    then show ?thesis using ok False unfolding H by (auto simp: refs_ok_def)
  qed
  moreover have "finite (dom (f(p \<mapsto> x)))" using ok by (simp add: refs_ok_def)
  ultimately show ?thesis unfolding refs_ok_def by blast
qed

lemma held_objs [simp]:
  "kernels_held (st\<lparr>ns_objs := s\<rparr>) = kernels_held st" "events_held (st\<lparr>ns_objs := s\<rparr>) = events_held st"
  by (auto simp: kernels_held_def events_held_def)

lemma launches_inv_objs:
  assumes "launches_inv w" and "refs_ok (has_program s) (o_kernels s) (kernels_held (ss_store w))"
    and "refs_ok (\<lambda>e. m_cb e \<noteq> None) (o_events s) (events_held (ss_store w))"
  shows "launches_inv (w\<lparr>ss_store := (ss_store w)\<lparr>ns_objs := s\<rparr>\<rparr>)"
  using assms by (simp add: launches_inv_def pending_store)

lemma command_ready_events:
  assumes "E1 e = E2 e"
  shows "command_ready env kp gs ls e name (put_objs (s\<lparr>o_events := E1\<rparr>) w) \<longleftrightarrow>
    command_ready env kp gs ls e name (put_objs (s\<lparr>o_events := E2\<rparr>) w)"
  using assms by (simp add: command_ready_def put_objs_def prices_ok_store)

text \<open>A queue whose oldest command is a kernel command that can be routed.\<close>

definition kernel_queued ::
  "ml_env \<Rightarrow> ptr \<Rightarrow> cmd_queue \<Rightarrow> mlcl_command \<Rightarrow> mlcl_command list \<Rightarrow> ptr \<Rightarrow> cq_state \<Rightarrow> bool" where
  "kernel_queued env q cq c cs e st \<longleftrightarrow>
     cq_queues st q = Some cq \<and> ca_wf (q_ring_buffer cq) \<and> ca_list (q_ring_buffer cq) = c # cs \<and>
     sched_inv (ml_sched (cq_ml st)) \<and> launches_inv (ml_sched (cq_ml st)) \<and>
     (\<forall>l. q_last_event cq = Some l \<longrightarrow> l \<noteq> e \<and> event_state (cq_objs st) l = Inr CL_COMPLETE) \<and>
     (\<forall>p nd. ns_ndranges (ss_store (ml_sched (cq_ml st))) p = Some nd \<longrightarrow>
        n_event nd \<noteq> e \<and> q_last_event cq \<noteq> Some (n_event nd)) \<and>
     (\<exists>kp wdim goff gs ls ev k name. m_command_type c = NDRANGE \<and> m_body c = NDR (Some kp) wdim goff gs ls \<and>
        m_event c = Some e \<and> o_events (cq_objs st) e = Some ev \<and> m_counter ev \<notin> {0, -1} \<and> m_event_state ev \<noteq> CL_COMPLETE \<and>
        o_kernels (cq_objs st) kp = Some k \<and>
        card {p. kernels_held (ss_store (ml_sched (cq_ml st))) p = Some kp} < unat (m_counter k) \<and>
        command_ready env kp gs ls e name
          (put_objs ((cq_objs st)\<lparr>o_events := (o_events (cq_objs st))(e \<mapsto> taken q ev)\<rparr>) (cq_ml st)))"

lemma serve_kernel_command:
  assumes lv: "libev_ok (e_libev env)" and d: "kernel_queued env q cq c cs e st"
  shows "\<exists>st' nd r. on_new_cmd_cb env q st = Inr st' \<and> ca_list r = cs \<and>
    cq_queues st' = (cq_queues st)(q := if q_ref_counter cq < 1 then None
      else Some (cq\<lparr>q_ring_buffer := r, q_last_event := Some e\<rparr>)) \<and>
    sched_inv (ml_sched (cq_ml st')) \<and> launches_inv (ml_sched (cq_ml st')) \<and>
    ns_ndranges (ss_store (ml_sched (cq_ml st'))) (o_next (cq_objs st)) = Some nd \<and> n_event nd = e \<and>
    0 < pending (ml_sched (cq_ml st')) (o_next (cq_objs st)) \<and>
    kept (ss_store (ml_sched (cq_ml st'))) e \<and> cb_sat ((=) (Some (On_event_complete q))) e (ss_store (ml_sched (cq_ml st'))) \<and>
    (\<forall>C. callbacks_in C (ss_store (ml_sched (cq_ml st))) \<longrightarrow>
       callbacks_in (insert (On_event_complete q) C) (ss_store (ml_sched (cq_ml st')))) \<and>
    length (ss_schedulers (ml_sched (cq_ml st'))) = length (ss_schedulers (ml_sched (cq_ml st)))"
proof -
  let ?o = "cq_objs st" and ?w = "cq_ml st" and ?p = "o_next (cq_objs st)"
  let ?nds = "ns_ndranges (ss_store (ml_sched ?w))"
  have cq: "cq_queues st q = Some cq" "ca_wf (q_ring_buffer cq)" "ca_list (q_ring_buffer cq) = c # cs"
    and inv: "sched_inv (ml_sched ?w)" "launches_inv (ml_sched ?w)"
    and last: "\<And>l. q_last_event cq = Some l \<Longrightarrow> l \<noteq> e \<and> event_state ?o l = Inr CL_COMPLETE"
    and free: "\<And>p nd. ?nds p = Some nd \<Longrightarrow> n_event nd \<noteq> e \<and> q_last_event cq \<noteq> Some (n_event nd)"
    using d unfolding kernel_queued_def by blast+
  obtain kp wdim goff gs ls ev k name where c: "m_command_type c = NDRANGE" "m_body c = NDR (Some kp) wdim goff gs ls" "m_event c = Some e"
    and ev: "o_events ?o e = Some ev" "m_counter ev \<notin> {0, -1}" "m_event_state ev \<noteq> CL_COMPLETE"
    and k: "o_kernels ?o kp = Some k" "card {p. kernels_held (ss_store (ml_sched ?w)) p = Some kp} < unat (m_counter k)"
    and ready: "command_ready env kp gs ls e name (put_objs (?o\<lparr>o_events := (o_events ?o)(e \<mapsto> taken q ev)\<rparr>) ?w)"
    using d unfolding kernel_queued_def by blast
  obtain r where r: "ca_wf r" "ca_list r = cs"
      "on_new_cmd_cb env q st = serve_command env q c (set_queue q (cq\<lparr>q_ring_buffer := r\<rparr>) st)"
    using on_new_cmd_pops [OF cq(1-3)] last by blast
  let ?st0 = "set_queue q (cq\<lparr>q_ring_buffer := r\<rparr>) st"
  have l0: "l \<noteq> e \<and> o_events (cq_objs ?st0) l \<noteq> None" if "q_last_event (cq\<lparr>q_ring_buffer := r\<rparr>) = Some l" for l
    using last [of l] that by (auto simp: event_state_def bindr_Inr_iff deref_Inr_iff)
  obtain E where E: "set_last_event q (Some e) ?st0 = Inr (set_queue q (cq\<lparr>q_ring_buffer := r, q_last_event := Some e\<rparr>)
      (with_objs (?o\<lparr>o_events := E(e \<mapsto> taken q ev)\<rparr>) ?st0))"
      "\<And>y. q_last_event cq \<noteq> Some y \<Longrightarrow> E y = o_events ?o y"
    using set_last_event_ok [of ?st0 q "cq\<lparr>q_ring_buffer := r\<rparr>" e ev] ev l0 by auto
  let ?cq1 = "cq\<lparr>q_ring_buffer := r, q_last_event := Some e\<rparr>"
  let ?s1 = "?o\<lparr>o_events := E(e \<mapsto> taken q ev)\<rparr>"
  let ?st1 = "set_queue q ?cq1 (with_objs ?s1 ?st0)"
  let ?w1 = "put_objs ?s1 ?w"
  have mw: "ml_sched ?w1 = (ml_sched ?w)\<lparr>ss_store := (ss_store (ml_sched ?w))\<lparr>ns_objs := ?s1\<rparr>\<rparr>"
    by (simp add: put_objs_def)
  have w1: "cq_ml ?st1 = ?w1" by simp
  have ready1: "command_ready env kp gs ls e name ?w1"
    using ready command_ready_events [of "E(e \<mapsto> taken q ev)" e "(o_events ?o)(e \<mapsto> taken q ev)"] by simp
  have hp: "has_program s = has_program ?o" if "o_programs s = o_programs ?o" for s
    using that by (simp add: has_program_def fun_eq_iff)
  have refs: "refs_ok (has_program ?o) (o_kernels ?o) (kernels_held (ss_store (ml_sched ?w)))"
      "refs_ok (\<lambda>e. m_cb e \<noteq> None) (o_events ?o) (events_held (ss_store (ml_sched ?w)))"
    using inv(2) by (simp_all add: launches_inv_def)
  have same: "(E(e \<mapsto> x)) y = o_events ?o y" if "events_held (ss_store (ml_sched ?w)) p = Some y" for p x y
    using that free E(2) [of y] by (auto simp: events_held_def)
  have refs1: "refs_ok (\<lambda>e. m_cb e \<noteq> None) (E(e \<mapsto> x)) (events_held (ss_store (ml_sched ?w)))" for x
    by (rule refs_ok_cong [OF refs(2) same])
  have inv1: "sched_inv (ml_sched ?w1)" "launches_inv (ml_sched ?w1)"
    unfolding mw using inv(1) launches_inv_objs [OF inv(2), of ?s1] refs(1) refs1 hp [of ?s1] by simp_all
  have nx: "o_next (ml_objs ?w1) = ?p" by simp
  obtain w2 nd where w2: "handle_ndrange_command env (Some kp) gs ls (Some e) ?w1 = Inr w2"
      "sched_inv (ml_sched w2)" "launches_inv (ml_sched w2)"
      "ns_ndranges (ss_store (ml_sched w2)) ?p = Some nd" "n_event nd = e"
      "o_events (ml_objs w2) = (o_events (ml_objs ?w1))(e := map_option ref_cnt_up (o_events (ml_objs ?w1) e))"
      "o_kernels (ml_objs w2) = (o_kernels (ml_objs ?w1))(kp := map_option ref_cnt_up (o_kernels (ml_objs ?w1) kp))"
      "\<forall>r. r \<noteq> ?p \<longrightarrow> map_option n_event (ns_ndranges (ss_store (ml_sched w2)) r) =
         map_option n_event (ns_ndranges (ss_store (ml_sched ?w1)) r) \<and>
       map_option n_kernel (ns_ndranges (ss_store (ml_sched w2)) r) =
       map_option n_kernel (ns_ndranges (ss_store (ml_sched ?w1)) r)"
      "n_kernel nd = kp" "0 < pending (ml_sched w2) ?p"
      "length (ss_schedulers (ml_sched w2)) = length (ss_schedulers (ml_sched ?w1))"
      "o_programs (ml_objs w2) = o_programs (ml_objs ?w1)"
    using handle_ndrange_ok [OF lv inv1 ready1] unfolding nx by (elim exE conjE) (rule that)
  have hc: "handle_a_cmd env c ?w1 = Inr (w2, [])" using c w2(1) by (simp add: handle_a_cmd_def)
  let ?st3 = "?st1\<lparr>cq_ml := w2\<rparr>"
  define st4 where "st4 = (if q_ref_counter cq < 1 then delete_queue q ?st3 else ?st3)"
  have ev2: "o_events (ml_objs w2) e = Some (ref_cnt_up (taken q ev))" using w2(6) by simp
  have "m_event_state (ref_cnt_up (taken q ev)) \<noteq> CL_COMPLETE" using ev(3) by (simp add: ref_cnt_up_def taken_def)
  then have go: "go_on q ?st3 = Inr st4"
    using ev2 by (auto simp: go_on_def check_self_destroy_def event_state_def st4_def)
  let ?s5 = "(ml_objs w2)\<lparr>o_kernels := o_kernels ?o, o_events := E(e \<mapsto> taken q ev)\<rparr>"
  have kc: "m_counter k \<noteq> 0" using k(2) by auto
  have "m_counter k \<noteq> -1" using ready k(1) by (auto simp: command_ready_def)
  then have dk: "ref_cnt_down (ref_cnt_up k) = Some k" by (rule ref_cnt_down_up [OF kc])
  have "m_counter ev + 1 \<noteq> 0" using ev(2) by (metis add_eq_0_iff insertCI minus_equation_iff)
  moreover have "m_counter (taken q ev) \<noteq> -1" using ready by (auto simp: command_ready_def)
  ultimately have de: "ref_cnt_down (ref_cnt_up (taken q ev)) = Some (taken q ev)"
    by (intro ref_cnt_down_up) (simp_all add: taken_def)
  have ks: "(o_kernels ?o)(kp \<mapsto> k) = o_kernels ?o" using k(1) by (simp add: fun_upd_idem)
  have del: "delete_command c (ml_objs w2) = Inr ?s5"
    using c dk de w2(6,7) k(1) ks
    by (simp add: delete_command_def delete_derived_def kernel_down_def event_down_def heap_down_def)
  let ?st' = "with_objs ?s5 st4"
  have m4: "cq_ml st4 = w2" by (simp add: st4_def delete_queue_def)
  have run: "on_new_cmd_cb env q st = Inr ?st'"
    using r(3) E(1) hc go del c(3) m4 by (simp add: serve_command_def)
  have ms: "ml_sched (cq_ml ?st') = (ml_sched w2)\<lparr>ss_store := (ss_store (ml_sched w2))\<lparr>ns_objs := ?s5\<rparr>\<rparr>"
    by (simp add: m4) (simp add: put_objs_def)
  have kh: "kernels_held (ss_store (ml_sched w2)) = (kernels_held (ss_store (ml_sched ?w)))(?p \<mapsto> kp)"
    and eh: "events_held (ss_store (ml_sched w2)) = (events_held (ss_store (ml_sched ?w)))(?p \<mapsto> e)"
    using w2(4,5,8,9) by (auto simp: kernels_held_def events_held_def fun_eq_iff)
  have np: "?nds ?p = None" using ready by (simp add: command_ready_def)
  have nh: "kernels_held (ss_store (ml_sched ?w)) ?p = None" "events_held (ss_store (ml_sched ?w)) ?p = None"
    using np by (simp_all add: kernels_held_def events_held_def)
  have hk: "has_program ?o k" using ready k(1) by (auto simp: command_ready_def has_program_def)
  have h5: "has_program ?s5 = has_program ?o" using hp [of ?s5] w2(12) by simp
  have rk: "refs_ok (has_program ?s5) (o_kernels ?s5) (kernels_held (ss_store (ml_sched w2)))"
    unfolding kh h5 using refs_ok_insert [OF refs(1) nh(1) k(1) hk k(2)] by simp
  have z: "{x. events_held (ss_store (ml_sched ?w)) x = Some e} = {}" using free by (auto simp: events_held_def)
  have cz: "card {x. events_held (ss_store (ml_sched ?w)) x = Some e} < unat (m_counter (taken q ev))"
    unfolding z using \<open>m_counter ev + 1 \<noteq> 0\<close> by (simp add: taken_def unat_gt_0)
  have re: "refs_ok (\<lambda>e. m_cb e \<noteq> None) (o_events ?s5) (events_held (ss_store (ml_sched w2)))"
    unfolding eh using refs_ok_insert [OF refs1 [of "taken q ev"] nh(2) _ _ cz] by (simp add: taken_def)
  have sinv: "sched_inv (ml_sched (cq_ml ?st'))" "launches_inv (ml_sched (cq_ml ?st'))"
    unfolding ms using w2(2) launches_inv_objs [OF w2(3) rk re] by simp_all
  have cbs: "callbacks_in (insert (On_event_complete q) C) (ss_store (ml_sched (cq_ml ?st')))"
    if C: "callbacks_in C (ss_store (ml_sched ?w))" for C
    unfolding callbacks_in_def
  proof (intro allI impI)
    fix x nd' assume h: "ns_ndranges (ss_store (ml_sched (cq_ml ?st'))) x = Some nd'"
    then have h2: "ns_ndranges (ss_store (ml_sched w2)) x = Some nd'" unfolding ms by simp
    show "cb_sat (\<lambda>y. \<forall>cb. y = Some cb \<longrightarrow> cb \<in> insert (On_event_complete q) C) (n_event nd') (ss_store (ml_sched (cq_ml ?st')))"
    proof (cases "x = ?p")
      case True
      then show ?thesis using h2 w2(4,5) unfolding ms by (simp add: cb_sat_def taken_def)
    next
      case False
      then have "map_option n_event (?nds x) = map_option n_event (ns_ndranges (ss_store (ml_sched w2)) x)"
        using w2(8) by simp
      then obtain nd0 where nd0: "?nds x = Some nd0" "n_event nd0 = n_event nd'"
        using h2 by (cases "?nds x") auto
      have "E (n_event nd') = o_events ?o (n_event nd')" "n_event nd' \<noteq> e"
        using free [OF nd0(1)] nd0(2) E(2) by auto
      then show ?thesis using C nd0 unfolding ms by (auto simp: callbacks_in_def cb_sat_def)
    qed
  qed
  have qs: "cq_queues ?st' = (cq_queues st)(q := if q_ref_counter cq < 1 then None else Some ?cq1)"
    by (simp add: st4_def delete_queue_def)
  have ln: "length (ss_schedulers (ml_sched (cq_ml ?st'))) = length (ss_schedulers (ml_sched ?w))"
    unfolding ms using w2(11) by (simp add: mw)
  have nd': "ns_ndranges (ss_store (ml_sched (cq_ml ?st'))) ?p = Some nd" "0 < pending (ml_sched (cq_ml ?st')) ?p"
    unfolding ms using w2(4,10) by (simp_all add: pending_store)
  have fe: "finite (dom (events_held (ss_store (ml_sched ?w))))" using refs(2) by (simp add: refs_ok_def)
  have hs: "{x. events_held (ss_store (ml_sched w2)) x = Some e} = {?p}"
    unfolding eh using z by (auto split: if_splits)
  have ue: "1 < unat (m_counter (taken q ev))"
  proof -
    have "m_counter (taken q ev) \<noteq> 0" "m_counter (taken q ev) \<noteq> 1"
      using ev(2) \<open>m_counter ev + 1 \<noteq> 0\<close> by (auto simp: taken_def)
    then have "unat (m_counter (taken q ev)) \<noteq> 0" "unat (m_counter (taken q ev)) \<noteq> 1"
      by (auto simp: word_unat_eq_iff)
    then show ?thesis by linarith
  qed
  have h': "events_held (ss_store (ml_sched (cq_ml ?st'))) = events_held (ss_store (ml_sched w2))" unfolding ms by simp
  have "finite (dom (events_held (ss_store (ml_sched w2))))" unfolding eh using fe by simp
  then have ee: "kept (ss_store (ml_sched (cq_ml ?st'))) e"
    unfolding kept_def h' hs using ue unfolding ms by simp
  have cb: "cb_sat ((=) (Some (On_event_complete q))) e (ss_store (ml_sched (cq_ml ?st')))"
    unfolding ms by (simp add: cb_sat_def taken_def)
  show ?thesis
    by (intro exI [of _ ?st'] exI [of _ nd] exI [of _ r] conjI allI impI)
      (use run r(2) qs sinv nd' w2(5) ee cb cbs ln in blast)+
qed


text \<open>A served kernel command, until its launch has been worked through.\<close>

lemma kernel_served:
  assumes "libev_ok (e_libev env)" and "kernel_queued env q cq c cs e st" and "1 \<le> q_ref_counter cq"
    and "callbacks_in (live_callbacks st) (ss_store (ml_sched (cq_ml st)))"
  shows "\<exists>st1. on_new_cmd_cb env q st = Inr st1 \<and>
    (\<forall>is. set is \<subseteq> {..<length (ss_schedulers (ml_sched (cq_ml st)))} \<and>
       (\<forall>i<length (ss_schedulers (ml_sched (cq_ml st))). count_list is i = length (queues (ml_sched (cq_ml st1)) ! i)) \<longrightarrow>
       (\<exists>st2 cq2. expire_timers env is st1 = Some (Inr st2) \<and> q \<in> cq_fed st2 \<and>
          cq_queues st2 q = Some cq2 \<and> q_last_event cq2 = Some e \<and> ca_list (q_ring_buffer cq2) = cs \<and>
          ns_ndranges (ss_store (ml_sched (cq_ml st2))) (o_next (cq_objs st)) = None \<and>
          event_state (cq_objs st2) e = Inr CL_COMPLETE))"
proof -
  let ?p = "o_next (cq_objs st)" and ?n = "length (ss_schedulers (ml_sched (cq_ml st)))"
  obtain st1 nd r where s: "on_new_cmd_cb env q st = Inr st1" "ca_list r = cs"
      "cq_queues st1 = (cq_queues st)(q := if q_ref_counter cq < 1 then None
        else Some (cq\<lparr>q_ring_buffer := r, q_last_event := Some e\<rparr>))"
      "sched_inv (ml_sched (cq_ml st1))" "launches_inv (ml_sched (cq_ml st1))"
      "ns_ndranges (ss_store (ml_sched (cq_ml st1))) ?p = Some nd" "n_event nd = e" "0 < pending (ml_sched (cq_ml st1)) ?p"
      "cb_sat ((=) (Some (On_event_complete q))) e (ss_store (ml_sched (cq_ml st1)))" "kept (ss_store (ml_sched (cq_ml st1))) e"
      "\<forall>C. callbacks_in C (ss_store (ml_sched (cq_ml st))) \<longrightarrow>
         callbacks_in (insert (On_event_complete q) C) (ss_store (ml_sched (cq_ml st1)))"
      "length (ss_schedulers (ml_sched (cq_ml st1))) = ?n"
    using serve_kernel_command [OF assms(1,2)] by (elim exE conjE) (rule that)
  let ?cq2 = "cq\<lparr>q_ring_buffer := r, q_last_event := Some e\<rparr>"
  have q1: "cq_queues st1 = (cq_queues st)(q \<mapsto> ?cq2)" using s(3) assms(3) by simp
  have "insert (On_event_complete q) (live_callbacks st) = live_callbacks st1"
    using q1 by (auto simp: live_callbacks_def)
  then have cb: "callbacks_in (live_callbacks st1) (ss_store (ml_sched (cq_ml st1)))" using s(11) assms(4) by metis
  have "\<exists>st2 cq2. expire_timers env is st1 = Some (Inr st2) \<and> q \<in> cq_fed st2 \<and>
          cq_queues st2 q = Some cq2 \<and> q_last_event cq2 = Some e \<and> ca_list (q_ring_buffer cq2) = cs \<and>
          ns_ndranges (ss_store (ml_sched (cq_ml st2))) ?p = None \<and> event_state (cq_objs st2) e = Inr CL_COMPLETE"
    if h: "set is \<subseteq> {..<?n}" "\<forall>i<?n. count_list is i = length (queues (ml_sched (cq_ml st1)) ! i)" for "is"
  proof -
    have p: "?p \<in> waiting (ml_sched (cq_ml st1))" using s(8) by (simp add: waiting_def)
    obtain sw cbs where sw: "run_fires (e_libev env) is (ml_sched (cq_ml st1)) = Some (sw, cbs)"
        "\<forall>p. p \<in> waiting (ml_sched (cq_ml st1)) \<or> ns_ndranges (ss_store (ml_sched (cq_ml st1))) p = None \<longrightarrow>
           ns_ndranges (ss_store sw) p = None"
      using run_fires_drains [OF assms(1) s(4,5)] h s(12) by (metis (no_types, lifting))
    have n: "ns_ndranges (ss_store sw) ?p = None" using sw(2) p by blast
    have "event_done (ss_store sw) e" using run_fires_done [OF sw(1), of e ?p] s(6,7) n by auto
    then obtain ev where d: "o_events (ns_objs (ss_store sw)) e = Some ev" "m_event_state ev = CL_COMPLETE"
      using kept_done [OF run_fires_kept [OF sw(1) s(10)]] by blast
    obtain F where F: "expire_timers env is st1 = Some (Inr (st1\<lparr>cq_ml := (cq_ml st1)\<lparr>ml_sched := sw\<rparr>, cq_fed := F\<rparr>))"
        "q \<in> F \<or> ns_ndranges (ss_store sw) ?p \<noteq> None"
      using expire_all [OF sw(1) cb, of q ?p] s(6,7,9) by blast
    show ?thesis
      by (rule exI [of _ "st1\<lparr>cq_ml := (cq_ml st1)\<lparr>ml_sched := sw\<rparr>, cq_fed := F\<rparr>"], rule exI [of _ ?cq2])
        (use F n d q1 s(2) in \<open>simp add: event_state_def\<close>)
  qed
  then show ?thesis using s(1) by blast
qed

section \<open>Examples\<close>

definition demo_kernel_command :: mlcl_command where
  "demo_kernel_command = \<lparr>m_command_type = NDRANGE, m_command_id = 14, m_event = Some 2,
     m_body = NDR (Some 0) 1 [0, 0, 0] [10, 1, 1] [2, 0, 0]\<rparr>"

lemma demo_kernel_ring: "\<exists>r. ca_wf r \<and> ca_list r = [demo_kernel_command]"
proof -
  obtain r :: "mlcl_command circ_array" where r: "ca_new (\<lambda>_. undefined) 100 = Inr r"
    using ca_new_small [of 100] by (auto simp: max_new_def)
  have "ca_wf r" "length (ca_list r) + length [demo_kernel_command] \<le> ca_bound r"
    using ca_new_ok [OF r] by simp_all
  then show ?thesis using ca_fifo.enq_all_room [of r "[demo_kernel_command]"] ca_new_ok(2) [OF r] by auto
qed

lemma demo_kernel_queued:
  "\<exists>st cq. kernel_queued demo_ml_env 0 cq demo_kernel_command [] 2 st \<and> q_ref_counter cq = n \<and>
    callbacks_in (live_callbacks st) (ss_store (ml_sched (cq_ml st))) \<and> length (ss_schedulers (ml_sched (cq_ml st))) = 2"
proof -
  have f: "n_wgrs_in_the_wild demo_nd = 0" "n_kernel demo_nd = 0" "n_event demo_nd = 1"
    by (simp_all add: demo_nd_def)
  have K: "(0::int) \<le> 5" "(5::int) \<le> 5" by simp_all
  obtain sw where w: "sched_inv sw" "launches_inv sw" "ss_store sw = demo_launch demo_nd" "queues sw = [[], []]"
      "length (ss_schedulers sw) = 2" "pending sw 7 = 0" "prices_ok demo_tracker ''k.xml'' sw 5"
    using demo_launch_start [OF f K] by (elim exE conjE) (rule that)
  obtain r where r: "ca_wf r" "ca_list r = [demo_kernel_command]" using demo_kernel_ring by blast
  let ?s = "(ns_objs (ss_store sw))\<lparr>o_kernels := [0 \<mapsto> (new_cl_kernel (Some 2))\<lparr>m_counter := 3\<rparr>],
      o_events := (o_events (ns_objs (ss_store sw)))(2 \<mapsto> new_cl_event), o_next := 3\<rparr>"
  let ?cq = "\<lparr>q_ring_buffer = r, q_ref_counter = n, q_last_event = None\<rparr>"
  let ?w = "put_objs ?s (demo_ml sw)"
  let ?st = "\<lparr>cq_ml = ?w, cq_queues = [0 \<mapsto> ?cq, 9 \<mapsto> ?cq], cq_sent = {}, cq_fed = {0}, cq_command_id = 14\<rparr>"
  have mw: "ml_sched ?w = sw\<lparr>ss_store := (ss_store sw)\<lparr>ns_objs := ?s\<rparr>\<rparr>" by (simp add: put_objs_def)
  have held: "kernels_held (demo_launch demo_nd) = [7 \<mapsto> 0]" "events_held (demo_launch demo_nd) = [7 \<mapsto> 1]"
    by (auto simp: kernels_held_def events_held_def demo_launch_def demo_nd_def fun_eq_iff)
  have k: "refs_ok (has_program ?s) (o_kernels ?s) (kernels_held (ss_store sw))"
    and e: "refs_ok (\<lambda>e. m_cb e \<noteq> None) (o_events ?s) (events_held (ss_store sw))"
    unfolding w(3) held
    by (auto simp: refs_ok_def has_program_def demo_launch_def demo_objs_def new_cl_kernel_def new_cl_event_def split: if_splits)
  have inv: "sched_inv (ml_sched ?w)" "launches_inv (ml_sched ?w)"
    unfolding mw using w(1) launches_inv_objs [OF w(2) k e] by simp_all
  have ready: "command_ready demo_ml_env 0 [10, 1, 1] [2, 0, 0] 2 ''k.xml''
      (put_objs ((cq_objs ?st)\<lparr>o_events := (o_events (cq_objs ?st))(2 \<mapsto> taken 0 new_cl_event)\<rparr>) (cq_ml ?st))"
    using w(5,7) new_AlgoSimple_wf [of 2]
    by (simp add: command_ready_def put_objs_def w(3,4) demo_launch_def demo_objs_def prices_ok_store
        new_cl_kernel_def new_cl_event_def taken_def less_2_cases_iff Let_def)
  have ms: "ml_sched (cq_ml ?st) = sw\<lparr>ss_store := (ss_store sw)\<lparr>ns_objs := ?s\<rparr>\<rparr>" by (simp add: put_objs_def)
  have kh: "kernels_held (ss_store (ml_sched (cq_ml ?st))) = [7 \<mapsto> 0]"
    unfolding ms using held(1) by (simp add: w(3))
  have kc: "card {p. kernels_held (ss_store (ml_sched (cq_ml ?st))) p = Some 0} <
      unat (m_counter ((new_cl_kernel (Some 2))\<lparr>m_counter := 3\<rparr>))"
    unfolding kh by simp
  have cmd: "\<exists>kp wdim goff gs ls ev k name. m_command_type demo_kernel_command = NDRANGE \<and>
        m_body demo_kernel_command = NDR (Some kp) wdim goff gs ls \<and>
        m_event demo_kernel_command = Some 2 \<and> o_events (cq_objs ?st) 2 = Some ev \<and> m_counter ev \<notin> {0, -1} \<and>
        m_event_state ev \<noteq> CL_COMPLETE \<and> o_kernels (cq_objs ?st) kp = Some k \<and>
        card {p. kernels_held (ss_store (ml_sched (cq_ml ?st))) p = Some kp} < unat (m_counter k) \<and>
        command_ready demo_ml_env kp gs ls 2 name
          (put_objs ((cq_objs ?st)\<lparr>o_events := (o_events (cq_objs ?st))(2 \<mapsto> taken 0 ev)\<rparr>) (cq_ml ?st))"
    by (rule exI [of _ 0], rule exI [of _ 1], rule exI [of _ "[0, 0, 0]"], rule exI [of _ "[10, 1, 1]"],
        rule exI [of _ "[2, 0, 0]"], rule exI [of _ new_cl_event], rule exI [of _ "(new_cl_kernel (Some 2))\<lparr>m_counter := 3\<rparr>"],
        rule exI [of _ "''k.xml''"], intro conjI ready kc)
      (simp_all add: demo_kernel_command_def new_cl_event_def cl_codes)
  have "kernel_queued demo_ml_env 0 ?cq demo_kernel_command [] 2 ?st"
    unfolding kernel_queued_def
  proof (intro conjI allI impI)
    show "n_event nd \<noteq> 2" "q_last_event ?cq \<noteq> Some (n_event nd)"
      if "ns_ndranges (ss_store (ml_sched (cq_ml ?st))) p = Some nd" for p nd
      using that unfolding ms by (auto simp: w(3) demo_launch_def demo_nd_def split: if_splits)
  qed (use r inv cmd in simp_all)
  moreover have "callbacks_in (live_callbacks ?st) (ss_store (ml_sched (cq_ml ?st)))"
    unfolding ms by (auto simp: callbacks_in_def cb_sat_def live_callbacks_def w(3) demo_launch_def demo_objs_def demo_nd_def
        split: if_splits)
  moreover have "length (ss_schedulers (ml_sched (cq_ml ?st))) = 2" unfolding ms by (simp add: w(5))
  ultimately show ?thesis by (intro exI [of _ ?st] exI [of _ ?cq]) simp
qed

section \<open>Properties\<close>

text \<open>C6: A queue that has not been released goes on after a kernel command that can be routed. The callback
  of the queue takes the command and leaves its launch queued at the schedulers; in whatever order
  the schedulers' timers then expire, as often as ranges are queued for each, every timer that is
  to expire runs, nothing faults, the launch's index space is deleted, its event is still there and
  complete, and the queue is marked, so that the loop takes the next command. What else is queued
  at the schedulers must belong to live launches whose kernels still have their programs, because
  the timers name them in the log, and whose events call back queues that still exist.\<close>
theorem kernel_command_served:
  assumes "libev_ok (e_libev env)" and "kernel_queued env q cq c cs e st" and "1 \<le> q_ref_counter cq"
    and "callbacks_in (live_callbacks st) (ss_store (ml_sched (cq_ml st)))"
  shows "\<exists>st1. on_new_cmd_cb env q st = Inr st1 \<and>
    (\<forall>is. set is \<subseteq> {..<length (ss_schedulers (ml_sched (cq_ml st)))} \<and>
       (\<forall>i<length (ss_schedulers (ml_sched (cq_ml st))). count_list is i = length (queues (ml_sched (cq_ml st1)) ! i)) \<longrightarrow>
       (\<exists>st2 cq2. expire_timers env is st1 = Some (Inr st2) \<and> q \<in> cq_fed st2 \<and>
          cq_queues st2 q = Some cq2 \<and> q_last_event cq2 = Some e \<and> ca_list (q_ring_buffer cq2) = cs \<and>
          ns_ndranges (ss_store (ml_sched (cq_ml st2))) (o_next (cq_objs st)) = None \<and>
          event_state (cq_objs st2) e = Inr CL_COMPLETE))"
  by (rule kernel_served [OF assms])

theorem kernel_command_served_witness:
  "\<exists>st st1. on_new_cmd_cb demo_ml_env 0 st = Inr st1 \<and>
    (\<forall>is. set is \<subseteq> {..<2} \<and> (\<forall>i<2. count_list is i = length (queues (ml_sched (cq_ml st1)) ! i)) \<longrightarrow>
       (\<exists>st2. expire_timers demo_ml_env is st1 = Some (Inr st2) \<and> 0 \<in> cq_fed st2 \<and>
          event_state (cq_objs st2) 2 = Inr CL_COMPLETE))"
proof -
  obtain st cq where d: "kernel_queued demo_ml_env 0 cq demo_kernel_command [] 2 st" "q_ref_counter cq = 1"
      "callbacks_in (live_callbacks st) (ss_store (ml_sched (cq_ml st)))"
      "length (ss_schedulers (ml_sched (cq_ml st))) = 2"
    using demo_kernel_queued [of 1] by blast
  have l: "libev_ok (e_libev demo_ml_env)" by (simp add: demo_libev_ok)
  have n: "1 \<le> q_ref_counter cq" using d(2) by simp
  show ?thesis using kernel_command_served [OF l d(1) n d(3)] unfolding d(4) by blast
qed

text \<open>C17: Releasing a queue before its kernel command has run is an access to freed memory. The callback
  of the queue takes the command and then deletes the queue, although the launch's event still
  points to the queue's watcher; in whatever order the schedulers' timers expire, as often as ranges are
  queued for each, the completion of the event uses the deleted watcher.\<close>
theorem released_queue_is_used_after_free:
  assumes "libev_ok (e_libev env)" and "kernel_queued env q cq c cs e st" and "q_ref_counter cq < 1"
  shows "\<exists>st1. on_new_cmd_cb env q st = Inr st1 \<and> cq_queues st1 q = None \<and>
    (\<forall>is. set is \<subseteq> {..<length (ss_schedulers (ml_sched (cq_ml st)))} \<and>
       (\<forall>i<length (ss_schedulers (ml_sched (cq_ml st))). count_list is i = length (queues (ml_sched (cq_ml st1)) ! i)) \<longrightarrow>
       expire_timers env is st1 = Some (Inl Use_after_free))"
proof -
  let ?p = "o_next (cq_objs st)" and ?n = "length (ss_schedulers (ml_sched (cq_ml st)))"
  obtain st1 nd r where s: "on_new_cmd_cb env q st = Inr st1" "ca_list r = cs"
      "cq_queues st1 = (cq_queues st)(q := if q_ref_counter cq < 1 then None
        else Some (cq\<lparr>q_ring_buffer := r, q_last_event := Some e\<rparr>))"
      "sched_inv (ml_sched (cq_ml st1))" "launches_inv (ml_sched (cq_ml st1))"
      "ns_ndranges (ss_store (ml_sched (cq_ml st1))) ?p = Some nd" "n_event nd = e" "0 < pending (ml_sched (cq_ml st1)) ?p"
      "cb_sat ((=) (Some (On_event_complete q))) e (ss_store (ml_sched (cq_ml st1)))"
      "length (ss_schedulers (ml_sched (cq_ml st1))) = ?n"
    using serve_kernel_command [OF assms(1,2)] by (elim exE conjE) (rule that)
  have q1: "cq_queues st1 q = None" using s(3) assms(3) by simp
  have "expire_timers env is st1 = Some (Inl Use_after_free)"
    if h: "set is \<subseteq> {..<?n}" "\<forall>i<?n. count_list is i = length (queues (ml_sched (cq_ml st1)) ! i)" for "is"
  proof -
    have p: "?p \<in> waiting (ml_sched (cq_ml st1))" using s(8) by (simp add: waiting_def)
    obtain sw cbs where sw: "run_fires (e_libev env) is (ml_sched (cq_ml st1)) = Some (sw, cbs)"
        "\<forall>p. p \<in> waiting (ml_sched (cq_ml st1)) \<or> ns_ndranges (ss_store (ml_sched (cq_ml st1))) p = None \<longrightarrow>
           ns_ndranges (ss_store sw) p = None"
      using run_fires_drains [OF assms(1) s(4,5)] h s(10) by (metis (no_types, lifting))
    have n: "ns_ndranges (ss_store sw) ?p = None" using sw(2) p by blast
    show ?thesis by (rule expire_dead [OF q1 s(6) _ sw(1) n]) (use s(7,9) in simp)
  qed
  then show ?thesis using s(1) q1 by blast
qed


theorem released_queue_is_used_after_free_witness:
  "\<exists>st st1. on_new_cmd_cb demo_ml_env 0 st = Inr st1 \<and> cq_queues st1 0 = None \<and>
    (\<forall>is. set is \<subseteq> {..<2} \<and> (\<forall>i<2. count_list is i = length (queues (ml_sched (cq_ml st1)) ! i)) \<longrightarrow>
       expire_timers demo_ml_env is st1 = Some (Inl Use_after_free))"
proof -
  obtain st cq where d: "kernel_queued demo_ml_env 0 cq demo_kernel_command [] 2 st" "q_ref_counter cq = 0"
      "length (ss_schedulers (ml_sched (cq_ml st))) = 2"
    using demo_kernel_queued [of 0] by blast
  have l: "libev_ok (e_libev demo_ml_env)" by (simp add: demo_libev_ok)
  show ?thesis using released_queue_is_used_after_free [OF l d(1)] d(2,3) by fastforce
qed

end
