(* ===== verification/Queue_Drain.thy ===== *)
theory Queue_Drain
  imports Cmd_Queue
begin

text \<open>
  Queues of memory commands: served often enough, such a queue carries out its commands one after
  the other and completes their events.
\<close>

section \<open>Memory commands return\<close>

text \<open>A memory object holds no block, or one the allocation returned: an address structure.\<close>

definition block_ok :: "unimem_ptr \<Rightarrow> bool" where
  "block_ok p \<longleftrightarrow> up_ptr p = None \<or> (\<exists>bs. up_ptr p = Some bs \<and> length bs = 24 \<and> up_ptr_size p = 24)"

lemma ptr_bytes_block: "block_ok p \<Longrightarrow> up_ptr p \<noteq> None \<Longrightarrow> \<exists>bs. ptr_bytes p = Inr bs \<and> length bs = 24"
  by (auto simp: block_ok_def ptr_bytes_def)

lemma alloc_block_ok:
  assumes "allocate_unimem lx mo um sz w = (p, w')"
  shows "block_ok p"
proof -
  have r: "rc = 24 \<and> length bs = 24" if "read_alloc_response 100 w1 = (rc, bs, w2)" "\<not> rc < 0" for w1 rc bs w2
    using that
    by (auto simp: read_alloc_response_def sys_read_def dev_read_def msg_lens Let_def split_beta split: if_splits)
  show ?thesis
    using assms
    by (auto simp: allocate_unimem_def block_ok_def empty_unimem_ptr_def dest!: r split: if_splits prod.splits)
qed

lemma transfers_return:
  assumes "block_ok p" and "up_ptr p \<noteq> None"
  shows "\<exists>ok w'. copy_to_unimem lx p src n w = Inr (ok, w')" and "\<exists>ok w'. copy_from_unimem lx dst p n w = Inr (ok, w')"
    and "\<exists>w'. release_unimem lx p w = Inr w'"
proof -
  obtain bs where bs: "ptr_bytes p = Inr bs" "length bs = 24" using ptr_bytes_block [OF assms] by blast
  show "\<exists>ok w'. copy_to_unimem lx p src n w = Inr (ok, w')" "\<exists>ok w'. copy_from_unimem lx dst p n w = Inr (ok, w')"
    "\<exists>w'. release_unimem lx p w = Inr w'"
    using bs by (simp_all add: copy_to_unimem_def copy_from_unimem_def release_unimem_def write_destroy_request_def
        copy_user_buffer_to_unimem_def copy_unimem_buffer_to_user_def in_buffer_def split_beta)
qed

text \<open>What a handler may change: the memory object of its command and the memories.\<close>

definition mem_updated :: "ptr \<Rightarrow> cl_mem \<Rightarrow> ml_state \<Rightarrow> ml_state \<Rightarrow> bool" where
  "mem_updated m x w w' \<longleftrightarrow> (\<exists>x' u. w' = put_objs ((ml_objs w)\<lparr>o_mems := (o_mems (ml_objs w))(m \<mapsto> x')\<rparr>) (w\<lparr>ml_uni := u\<rparr>) \<and>
     m_counter x' = m_counter x \<and> block_ok (m_unimem_ptr x'))"

lemma put_objs_uni [simp]: "put_objs (ml_objs w) (w\<lparr>ml_uni := u\<rparr>) = w\<lparr>ml_uni := u\<rparr>"
  by (simp add: put_objs_def)

lemma mem_updated_uni:
  assumes "o_mems (ml_objs w) m = Some x" and "block_ok (m_unimem_ptr x)"
  shows "mem_updated m x w (w\<lparr>ml_uni := u\<rparr>)" and "mem_updated m x w w"
proof -
  have s: "(ml_objs w)\<lparr>o_mems := (o_mems (ml_objs w))(m \<mapsto> x)\<rparr> = ml_objs w" using assms(1) by (simp add: fun_upd_idem)
  show "mem_updated m x w (w\<lparr>ml_uni := u\<rparr>)"
    unfolding mem_updated_def by (rule exI [of _ x], rule exI [of _ u]) (use assms(2) s in simp)
  show "mem_updated m x w w"
    unfolding mem_updated_def by (rule exI [of _ x], rule exI [of _ "ml_uni w"]) (use assms(2) s in simp)
qed

lemma handle_write_returns:
  assumes x: "o_mems (ml_objs w) m = Some x" "block_ok (m_unimem_ptr x)"
  shows "\<exists>err w'. handle_write_command env (Some m) sz host w = Inr (err, w') \<and> mem_updated m x w w'"
proof -
  obtain p u1 where p: "allocate_unimem (e_linux env) (e_malloc_ok env) (e_unimem env) sz (ml_uni w) = (p, u1)"
    by fastforce
  have bp: "block_ok p" by (rule alloc_block_ok [OF p])
  note uni = mem_updated_uni [OF x]
  show ?thesis
  proof (cases "checked_rc (Some m) sz \<noteq> 0 \<or> up_ptr p = None")
    case True
    then show ?thesis using uni p by (auto simp: handle_write_command_def)
  next
    case False
    then have a: "checked_rc (Some m) sz = 0" "up_ptr p \<noteq> None" by auto
    obtain ok u2 where c: "(case host of None \<Rightarrow> Inr (True, u1)
        | Some h \<Rightarrow> copy_to_unimem (e_linux env) p h sz u1) = Inr (ok, u2)"
      using transfers_return(1) [OF bp a(2)] by (cases host) force+
    obtain u3 where u3: "release_unimem (e_linux env) p u2 = Inr u3" using transfers_return(3) [OF bp a(2)] by blast
    have "mem_updated m x w (put_objs ((ml_objs w)\<lparr>o_mems := (o_mems (ml_objs w))(m \<mapsto> set_unimem_ptr x p sz)\<rparr>)
        (w\<lparr>ml_uni := u2\<rparr>))"
      unfolding mem_updated_def
      by (rule exI [of _ "set_unimem_ptr x p sz"], rule exI [of _ u2]) (simp add: set_unimem_ptr_def bp)
    then show ?thesis using a p c u3 x(1) uni by (cases ok) (auto simp: handle_write_command_def)
  qed
qed

lemma handle_read_returns:
  assumes x: "o_mems (ml_objs w) m = Some x" "block_ok (m_unimem_ptr x)"
  shows "\<exists>err w'. handle_read_command env (Some m) sz host w = Inr (err, w') \<and> mem_updated m x w w'"
proof (cases "checked_rc (Some m) sz \<noteq> 0 \<or> up_ptr (m_unimem_ptr x) = None \<or> host = None \<or> sz \<noteq> m_size x")
  case True
  then show ?thesis using mem_updated_uni [OF x] x(1) by (auto simp: handle_read_command_def split: option.splits)
next
  case False
  then obtain dst where d: "checked_rc (Some m) sz = 0" "up_ptr (m_unimem_ptr x) \<noteq> None" "host = Some dst" "sz = m_size x"
    by auto
  obtain ok u where "copy_from_unimem (e_linux env) dst (m_unimem_ptr x) (m_size x) (ml_uni w) = Inr (ok, u)"
    using transfers_return(2) [OF x(2) d(2)] by blast
  then show ?thesis using mem_updated_uni [OF x] x(1) d by (auto simp: handle_read_command_def)
qed

text \<open>A command that writes or reads memory object \<open>m\<close>.\<close>

definition memory_command :: "mlcl_command \<Rightarrow> ptr \<Rightarrow> bool" where
  "memory_command c m \<longleftrightarrow>
     (\<exists>off sz p. m_command_type c = WRITE_BUFFER \<and> m_body c = WB (Some m) off sz p \<or>
        m_command_type c = READ_BUFFER \<and> m_body c = RB (Some m) off sz p)"

lemma memory_command_returns:
  assumes c: "memory_command c m" "m_event c = Some e" and x: "o_mems (ml_objs w) m = Some x" "block_ok (m_unimem_ptr x)"
    and ev: "o_events (ml_objs w) e = Some ev" "m_cb ev = Some cb"
  shows "\<exists>w1 err. mem_updated m x w w1 \<and> handle_a_cmd env c w = Inr (put_objs ((ml_objs w1)\<lparr>o_events :=
    (o_events (ml_objs w))(e \<mapsto> ev\<lparr>m_error_code := err, m_event_state := CL_COMPLETE\<rparr>)\<rparr>) w1, [cb])"
proof -
  have "\<exists>w1 err. mem_updated m x w w1 \<and> handle_a_cmd env c w = finish_command (Some e) err w1"
  proof (cases "m_command_type c = WRITE_BUFFER")
    case True
    then obtain off sz p where "m_body c = WB (Some m) off sz p" using c(1) by (auto simp: memory_command_def)
    then show ?thesis using True c(2) handle_write_returns [OF x, of env sz p] by (auto simp: handle_a_cmd_def) blast
  next
    case False
    then obtain off sz p where "m_command_type c = READ_BUFFER" "m_body c = RB (Some m) off sz p"
      using c(1) by (auto simp: memory_command_def)
    then show ?thesis using c(2) handle_read_returns [OF x, of env sz p] by (auto simp: handle_a_cmd_def) blast
  qed
  then obtain w1 err where h: "mem_updated m x w w1" "handle_a_cmd env c w = finish_command (Some e) err w1"
    by blast
  have "o_events (ml_objs w1) = o_events (ml_objs w)" using h(1) by (auto simp: mem_updated_def)
  then have "finish_command (Some e) err w1 = Inr (put_objs ((ml_objs w1)\<lparr>o_events :=
    (o_events (ml_objs w))(e \<mapsto> ev\<lparr>m_error_code := err, m_event_state := CL_COMPLETE\<rparr>)\<rparr>) w1, [cb])"
    using ev by (simp add: finish_command_def update_event_def complete_event_def set_as_complete_def set_error_def)
  then show ?thesis using h by auto
qed


section \<open>Serving a memory command\<close>

text \<open>
  A queue that can be drained: every command has an event of its own, which exists, and names a memory
  object that exists. Each command holds a reference to its object; \<open>naming m L\<close> counts them. The
  user need not hold one any more.
\<close>

definition naming :: "ptr \<Rightarrow> mlcl_command list \<Rightarrow> nat" where
  "naming m L = length (filter (\<lambda>c. memory_command c m) L)"

lemma naming_simps [simp]:
  "naming m [] = 0" "naming m (c # cs) = (if memory_command c m then Suc (naming m cs) else naming m cs)"
  by (simp_all add: naming_def)

lemma naming_pos: "d \<in> set L \<Longrightarrow> memory_command d m \<Longrightarrow> 0 < naming m L"
  by (auto simp: naming_def filter_empty_conv)

lemma memory_command_unique: "memory_command c m \<Longrightarrow> memory_command c m' \<Longrightarrow> m' = m"
  by (auto simp: memory_command_def)

definition drainable :: "ptr \<Rightarrow> mlcl_command list \<Rightarrow> cq_state \<Rightarrow> bool" where
  "drainable q L st \<longleftrightarrow>
     (\<exists>cq. cq_queues st q = Some cq \<and> ca_wf (q_ring_buffer cq) \<and> ca_list (q_ring_buffer cq) = L \<and>
        1 \<le> q_ref_counter cq \<and>
        (\<forall>l. q_last_event cq = Some l \<longrightarrow> Some l \<notin> m_event ` set L \<and>
           (\<exists>ev. o_events (cq_objs st) l = Some ev \<and> m_event_state ev = CL_COMPLETE))) \<and>
     distinct (map m_event L) \<and>
     (\<forall>m x. o_mems (cq_objs st) m = Some x \<longrightarrow> block_ok (m_unimem_ptr x)) \<and>
     (\<forall>c\<in>set L. \<exists>m x e ev. memory_command c m \<and> o_mems (cq_objs st) m = Some x \<and> naming m L \<le> unat (m_counter x) \<and>
        m_event c = Some e \<and> o_events (cq_objs st) e = Some ev \<and> m_counter ev \<noteq> 0 \<and> m_counter ev \<noteq> -1)"

lemma ref_cnt_down_block: "ref_cnt_down x = Some y \<Longrightarrow> block_ok (m_unimem_ptr x) \<Longrightarrow> block_ok (m_unimem_ptr (y :: cl_mem))"
  by (auto simp: ref_cnt_down_def Let_def split: if_splits)

lemma go_on_alive:
  assumes "cq_queues st q = Some cq" and "1 \<le> q_ref_counter cq" and "q_last_event cq = Some e"
    and "o_events (cq_objs st) e = Some ev" and "m_event_state ev = CL_COMPLETE" and "q \<in> cq_fed st"
  shows "go_on q st = Inr st"
proof -
  have "st\<lparr>cq_fed := insert q (cq_fed st)\<rparr> = st" using assms(6) by (simp add: insert_absorb)
  then show ?thesis using assms
    by (simp add: go_on_def check_self_destroy_def event_state_def)
qed


lemma serve_memory_command:
  assumes d: "drainable q (c # cs) st"
  shows "\<exists>st'. on_new_cmd_cb env q st = Inr st' \<and> drainable q cs st' \<and> q \<in> cq_fed st' \<and>
    (\<forall>e. m_event c = Some e \<longrightarrow> event_state (cq_objs st') e = Inr CL_COMPLETE)"
proof -
  let ?o = "cq_objs st"
  obtain cq where cq: "cq_queues st q = Some cq" "ca_wf (q_ring_buffer cq)" "ca_list (q_ring_buffer cq) = c # cs"
      "1 \<le> q_ref_counter cq"
    and last: "\<And>l. q_last_event cq = Some l \<Longrightarrow> Some l \<notin> m_event ` set (c # cs) \<and>
      (\<exists>ev. o_events ?o l = Some ev \<and> m_event_state ev = CL_COMPLETE)"
    using d unfolding drainable_def by blast
  have dist: "distinct (map m_event (c # cs))"
    and blocks: "\<And>m x. o_mems ?o m = Some x \<Longrightarrow> block_ok (m_unimem_ptr x)"
    and cmds: "\<And>d. d \<in> set (c # cs) \<Longrightarrow> \<exists>m x e ev. memory_command d m \<and> o_mems ?o m = Some x \<and>
      naming m (c # cs) \<le> unat (m_counter x) \<and> m_event d = Some e \<and> o_events ?o e = Some ev \<and> m_counter ev \<noteq> 0 \<and> m_counter ev \<noteq> -1"
    using d unfolding drainable_def by blast+
  obtain m x e ev where c: "memory_command c m" "m_event c = Some e" and x: "o_mems ?o m = Some x" "Suc (naming m cs) \<le> unat (m_counter x)"
    and ev: "o_events ?o e = Some ev" "m_counter ev \<noteq> 0" "m_counter ev \<noteq> -1"
    using cmds [of c] by auto
  have lastc: "event_state ?o l = Inr CL_COMPLETE" if "q_last_event cq = Some l" for l
    using last [OF that] by (auto simp: event_state_def)
  obtain r where r: "ca_wf r" "ca_list r = cs"
      "on_new_cmd_cb env q st = serve_command env q c (set_queue q (cq\<lparr>q_ring_buffer := r\<rparr>) st)"
    using on_new_cmd_pops [OF cq(1-3) lastc] by blast
  let ?st0 = "set_queue q (cq\<lparr>q_ring_buffer := r\<rparr>) st"
  have l0: "l \<noteq> e \<and> o_events (cq_objs ?st0) l \<noteq> None" if "q_last_event (cq\<lparr>q_ring_buffer := r\<rparr>) = Some l" for l
    using last [of l] that c(2) by auto
  obtain E where E: "set_last_event q (Some e) ?st0 = Inr (set_queue q (cq\<lparr>q_ring_buffer := r, q_last_event := Some e\<rparr>)
      (with_objs (?o\<lparr>o_events := E(e \<mapsto> taken q ev)\<rparr>) ?st0))"
      "\<And>y. q_last_event cq \<noteq> Some y \<Longrightarrow> E y = o_events ?o y"
      "\<And>y ev'. E y = Some ev' \<Longrightarrow> \<exists>ev0. o_events ?o y = Some ev0 \<and> m_event_state ev' = m_event_state ev0"
    using set_last_event_ok [of ?st0 q "cq\<lparr>q_ring_buffer := r\<rparr>" e ev] ev l0 by auto
  let ?cq1 = "cq\<lparr>q_ring_buffer := r, q_last_event := Some e\<rparr>"
  let ?st1 = "set_queue q ?cq1 (with_objs (?o\<lparr>o_events := E(e \<mapsto> taken q ev)\<rparr>) ?st0)"
  obtain w1 err where w1: "mem_updated m x (cq_ml ?st1) w1" "handle_a_cmd env c (cq_ml ?st1) = Inr (put_objs ((ml_objs w1)\<lparr>o_events :=
    (o_events (cq_objs ?st1))(e \<mapsto> (taken q ev)\<lparr>m_error_code := err, m_event_state := CL_COMPLETE\<rparr>)\<rparr>) w1, [On_event_complete q])"
    using memory_command_returns [OF c, of "cq_ml ?st1" x "taken q ev" "On_event_complete q" env] x(1) blocks [OF x(1)]
    by (auto simp: taken_def)
  obtain x' u where x': "w1 = put_objs ((ml_objs (cq_ml ?st1))\<lparr>o_mems := (o_mems (ml_objs (cq_ml ?st1)))(m \<mapsto> x')\<rparr>) ((cq_ml ?st1)\<lparr>ml_uni := u\<rparr>)"
      "m_counter x' = m_counter x" "block_ok (m_unimem_ptr x')"
    using w1(1) unfolding mem_updated_def by blast
  let ?dev = "(taken q ev)\<lparr>m_error_code := err, m_event_state := CL_COMPLETE\<rparr>"
  let ?s = "?o\<lparr>o_mems := (o_mems ?o)(m \<mapsto> x'), o_events := E(e \<mapsto> ?dev)\<rparr>"
  define w2 where "w2 = put_objs ((ml_objs w1)\<lparr>o_events := (o_events (cq_objs ?st1))(e \<mapsto> ?dev)\<rparr>) w1"
  have w2: "ml_objs w2 = ?s" by (simp add: w2_def x'(1))
  let ?st3 = "?st1\<lparr>cq_ml := w2, cq_fed := insert q (cq_fed st)\<rparr>"
  have f: "foldr_res on_event_complete [On_event_complete q] (?st1\<lparr>cq_ml := w2\<rparr>) = Inr ?st3" by simp
  have g: "go_on q ?st3 = Inr ?st3"
    by (rule go_on_alive [where e = e and cq = ?cq1 and ev = ?dev]) (use cq(4) w2 in simp_all)
  let ?x2 = "ref_cnt_down x'" and ?e2 = "?dev\<lparr>m_counter := m_counter ev\<rparr>"
  have x0: "m_counter x' \<noteq> 0" using x(2) x'(2) by auto
  have c1: "m_counter ev + 1 \<noteq> 0" using ev(3) by (metis add_eq_0_iff minus_equation_iff)
  then have de: "ref_cnt_down ?dev = Some ?e2" using ev(2) by (simp add: ref_cnt_down_more taken_def)
  let ?s6 = "?o\<lparr>o_mems := (o_mems ?o)(m := ?x2), o_events := E(e \<mapsto> ?e2)\<rparr>"
  have "m_body c = WB (Some m) off sz p \<or> m_body c = RB (Some m) off sz p \<Longrightarrow> delete_command c ?s = Inr ?s6" for off sz p
    using de c(2) by (auto simp: delete_command_def delete_derived_def mem_down_def event_down_def heap_down_def)
  then have del: "delete_command c (cq_objs ?st3) = Inr ?s6" using c(1) w2 by (auto simp: memory_command_def)
  let ?st' = "with_objs ?s6 ?st3"
  have run: "on_new_cmd_cb env q st = Inr ?st'"
    using r(3) E(1) w1(2) f g del c(2) by (simp add: serve_command_def w2_def)
  have obj: "cq_objs ?st' = ?s6" by simp
  have ne: "m_event d \<noteq> Some e" if "d \<in> set cs" for d using dist c(2) that by force
  then have ei: "Some e \<notin> m_event ` set cs" by (metis imageE)
  have done_e: "event_state (cq_objs ?st') e = Inr CL_COMPLETE" by (simp add: event_state_def)
  have cmds': "\<exists>m' x' e' ev'. memory_command d m' \<and> o_mems (cq_objs ?st') m' = Some x' \<and> naming m' cs \<le> unat (m_counter x') \<and>
      m_event d = Some e' \<and> o_events (cq_objs ?st') e' = Some ev' \<and> m_counter ev' \<noteq> 0 \<and> m_counter ev' \<noteq> -1"
    if dc: "d \<in> set cs" for d
  proof -
    obtain m' y e' ev' where h: "memory_command d m'" "o_mems ?o m' = Some y" "naming m' (c # cs) \<le> unat (m_counter y)"
      "m_event d = Some e'" "o_events ?o e' = Some ev'" "m_counter ev' \<noteq> 0" "m_counter ev' \<noteq> -1"
      using cmds [of d] dc by (metis list.set_intros(2))
    have "q_last_event cq \<noteq> Some e'" using last [of e'] h(4) dc by force
    then have "o_events (cq_objs ?st') e' = Some ev'" using E(2) [of e'] ne [OF dc] h(4,5) by auto
    moreover have "\<exists>y'. o_mems (cq_objs ?st') m' = Some y' \<and> naming m' cs \<le> unat (m_counter y')"
    proof (cases "m' = m")
      case True
      then have "0 < naming m cs" using naming_pos [OF dc] h(1) by simp
      then have "2 \<le> unat (m_counter x')" using x(2) x'(2) by simp
      then have "m_counter x' \<noteq> 1" by auto
      then have "?x2 = Some (x'\<lparr>m_counter := m_counter x' - 1\<rparr>)" using x0 by (rule ref_cnt_down_more [rotated])
      moreover have "unat (m_counter x' - 1) = unat (m_counter x) - 1" using x0 x'(2) by (simp add: unat_minus_one)
      ultimately show ?thesis using True x(2) by auto
    next
      case False
      then show ?thesis using h(2,3) memory_command_unique [OF c(1), of m'] by (auto split: if_splits)
    qed
    ultimately show ?thesis using h(1,4,6,7) by blast
  qed
  have blocks': "block_ok (m_unimem_ptr y)" if "o_mems (cq_objs ?st') p = Some y" for p y
    using that blocks x'(3) ref_cnt_down_block by (auto split: if_splits)
  have "drainable q cs ?st'"
    unfolding drainable_def
  proof (intro conjI ballI allI impI)
    show "\<exists>cq. cq_queues ?st' q = Some cq \<and> ca_wf (q_ring_buffer cq) \<and> ca_list (q_ring_buffer cq) = cs \<and>
        1 \<le> q_ref_counter cq \<and>
        (\<forall>l. q_last_event cq = Some l \<longrightarrow> Some l \<notin> m_event ` set cs \<and>
           (\<exists>ev. o_events (cq_objs ?st') l = Some ev \<and> m_event_state ev = CL_COMPLETE))"
      using r(1,2) cq(4) ei by (intro exI [of _ ?cq1]) simp
    show "distinct (map m_event cs)" using dist by simp
    show "block_ok (m_unimem_ptr y)" if "o_mems (cq_objs ?st') p = Some y" for p y
      by (rule blocks' [OF that])
  qed (rule cmds')
  then show ?thesis using run done_e c(2) by (intro exI [of _ ?st']) simp
qed


text \<open>The loop goes on serving the queue, one command at a time in their order, until it is empty.\<close>

lemma drain_queue:
  assumes "drainable q L st" and "q \<in> cq_fed st"
  shows "\<exists>f. f 0 = st \<and>
    (\<forall>i<length L. loop_step env (f i) (f (Suc i)) \<and>
       (\<forall>e. m_event (L ! i) = Some e \<longrightarrow> event_state (cq_objs (f (Suc i))) e = Inr CL_COMPLETE)) \<and>
    (\<forall>i\<le>length L. drainable q (drop i L) (f i))"
  using assms
proof (induction L arbitrary: st)
  case Nil
  then show ?case by (intro exI [of _ "\<lambda>_. st"]) simp
next
  case (Cons c cs)
  have "drainable q (c # cs) (st\<lparr>cq_fed := cq_fed st - {q}\<rparr>)" using Cons.prems(1) by (simp add: drainable_def)
  then obtain st1 where st1: "on_new_cmd_cb env q (st\<lparr>cq_fed := cq_fed st - {q}\<rparr>) = Inr st1" "drainable q cs st1"
      "q \<in> cq_fed st1" "\<forall>e. m_event c = Some e \<longrightarrow> event_state (cq_objs st1) e = Inr CL_COMPLETE"
    using serve_memory_command [of q c cs "st\<lparr>cq_fed := cq_fed st - {q}\<rparr>" env] by blast
  have l: "loop_step env st st1" by (rule loop_step.serve [OF Cons.prems(2)]) (simp add: serve_watcher_def st1(1))
  obtain f where f: "f 0 = st1" "\<forall>i<length cs. loop_step env (f i) (f (Suc i)) \<and>
       (\<forall>e. m_event (cs ! i) = Some e \<longrightarrow> event_state (cq_objs (f (Suc i))) e = Inr CL_COMPLETE)"
      "\<forall>i\<le>length cs. drainable q (drop i cs) (f i)"
    using Cons.IH [OF st1(2,3)] by blast
  let ?g = "case_nat st f"
  have "loop_step env (?g i) (?g (Suc i)) \<and>
       (\<forall>e. m_event ((c # cs) ! i) = Some e \<longrightarrow> event_state (cq_objs (?g (Suc i))) e = Inr CL_COMPLETE)"
    if "i < length (c # cs)" for i
    using that l f(1,2) st1(4) by (cases i) auto
  moreover have "drainable q (drop i (c # cs)) (?g i)" if "i \<le> length (c # cs)" for i
    using that Cons.prems(1) f(3) by (cases i) auto
  ultimately show ?case by (intro exI [of _ ?g]) simp
qed

section \<open>Examples\<close>

text \<open>Two buffers are written and the first is read back. The user has released the second one already.\<close>

definition demo_commands :: "mlcl_command list" where
  "demo_commands =
     [\<lparr>m_command_type = WRITE_BUFFER, m_command_id = 14, m_event = Some 2, m_body = WB (Some 5) 0 3 (Some 100)\<rparr>,
      \<lparr>m_command_type = WRITE_BUFFER, m_command_id = 15, m_event = Some 3, m_body = WB (Some 6) 0 3 (Some 100)\<rparr>,
      \<lparr>m_command_type = READ_BUFFER, m_command_id = 16, m_event = Some 4, m_body = RB (Some 5) 0 3 (Some 200)\<rparr>]"

lemma demo_commands_ring: "\<exists>r. ca_wf r \<and> ca_list r = demo_commands"
proof -
  obtain r :: "mlcl_command circ_array" where r: "ca_new (\<lambda>_. undefined) 100 = Inr r"
    using ca_new_small [of 100] by (auto simp: max_new_def)
  have "ca_wf r" "length (ca_list r) + length demo_commands \<le> ca_bound r"
    using ca_new_ok [OF r] by (simp_all add: demo_commands_def)
  then show ?thesis using ca_fifo.enq_all_room [of r demo_commands] ca_new_ok(2) [OF r] by auto
qed

definition demo_mem_queue :: "mlcl_command circ_array \<Rightarrow> cq_state" where
  "demo_mem_queue r = with_objs
     (demo_objs\<lparr>o_mems := [5 \<mapsto> new_cl_mem\<lparr>m_counter := 3\<rparr>, 6 \<mapsto> new_cl_mem],
        o_events := [2 \<mapsto> new_cl_event, 3 \<mapsto> new_cl_event, 4 \<mapsto> new_cl_event]\<rparr>)
     \<lparr>cq_ml = demo_mem_ml, cq_queues = [0 \<mapsto> \<lparr>q_ring_buffer = r, q_ref_counter = 1, q_last_event = None\<rparr>],
       cq_sent = {}, cq_fed = {0}, cq_command_id = 16\<rparr>"

lemma demo_mem_queue_drainable:
  assumes "ca_wf r" and "ca_list r = demo_commands"
  shows "drainable 0 demo_commands (demo_mem_queue r)"
  using assms
  by (simp add: drainable_def demo_mem_queue_def demo_commands_def block_ok_def new_cl_mem_def
      empty_unimem_ptr_def memory_command_def new_cl_event_def)

section \<open>Properties\<close>

text \<open>C7: A queue of write and read commands drains, whatever the transfers return: the loop serves it
  once for each command, in their order; after each serving the event of the command that was
  served is there and complete and the ring holds the commands after it, so in the end it is
  empty. The commands may name any memory objects that exist, each command holding a reference to
  its object; each has an event of its own; the command the queue took before them is complete, and
  the queue has not been released.\<close>
theorem memory_queue_drains:
  assumes "drainable q L st" and "q \<in> cq_fed st"
  shows "\<exists>f. f 0 = st \<and>
    (\<forall>i<length L. loop_step env (f i) (f (Suc i)) \<and>
       (\<forall>e. m_event (L ! i) = Some e \<longrightarrow> event_state (cq_objs (f (Suc i))) e = Inr CL_COMPLETE)) \<and>
    (\<forall>i\<le>length L. \<exists>cq. cq_queues (f i) q = Some cq \<and> ca_list (q_ring_buffer cq) = drop i L)"
proof -
  obtain f where "f 0 = st" "\<forall>i<length L. loop_step env (f i) (f (Suc i)) \<and>
       (\<forall>e. m_event (L ! i) = Some e \<longrightarrow> event_state (cq_objs (f (Suc i))) e = Inr CL_COMPLETE)"
      "\<forall>i\<le>length L. drainable q (drop i L) (f i)"
    using drain_queue [OF assms, of env] by blast
  then show ?thesis unfolding drainable_def by blast
qed

theorem memory_queue_drains_witness:
  "\<exists>r (f :: nat \<Rightarrow> cq_state) cq. ca_list r = demo_commands \<and> f 0 = demo_mem_queue r \<and>
    loop_step demo_ml_env (f 0) (f 1) \<and> event_state (cq_objs (f 1)) 2 = Inr CL_COMPLETE \<and>
    loop_step demo_ml_env (f 1) (f 2) \<and> event_state (cq_objs (f 2)) 3 = Inr CL_COMPLETE \<and>
    loop_step demo_ml_env (f 2) (f 3) \<and> event_state (cq_objs (f 3)) 4 = Inr CL_COMPLETE \<and>
    cq_queues (f 3) 0 = Some cq \<and> ca_list (q_ring_buffer cq) = []"
proof -
  obtain r where r: "ca_wf r" "ca_list r = demo_commands" using demo_commands_ring by blast
  have fed: "0 \<in> cq_fed (demo_mem_queue r)" by (simp add: demo_mem_queue_def)
  obtain f where f: "f 0 = demo_mem_queue r"
      "\<forall>i<length demo_commands. loop_step demo_ml_env (f i) (f (Suc i)) \<and>
       (\<forall>e. m_event (demo_commands ! i) = Some e \<longrightarrow> event_state (cq_objs (f (Suc i))) e = Inr CL_COMPLETE)"
      "\<forall>i\<le>length demo_commands. \<exists>cq. cq_queues (f i) 0 = Some cq \<and> ca_list (q_ring_buffer cq) = drop i demo_commands"
    using memory_queue_drains [OF demo_mem_queue_drainable [OF r] fed, of demo_ml_env] by blast
  have n: "length demo_commands = 3" "m_event (demo_commands ! 0) = Some 2" "m_event (demo_commands ! 1) = Some 3"
      "m_event (demo_commands ! 2) = Some 4" "drop 3 demo_commands = []" by (simp_all add: demo_commands_def)
  have s: "Suc 0 = 1" "Suc 1 = 2" "Suc 2 = 3" by simp_all
  obtain cq where "cq_queues (f 3) 0 = Some cq" "ca_list (q_ring_buffer cq) = []"
    using f(3) [rule_format, of 3] n(1,5) by auto
  moreover have "loop_step demo_ml_env (f 0) (f 1)" "event_state (cq_objs (f 1)) 2 = Inr CL_COMPLETE"
    using f(2) [rule_format, of 0] n(1,2) unfolding s by simp_all
  moreover have "loop_step demo_ml_env (f 1) (f 2)" "event_state (cq_objs (f 2)) 3 = Inr CL_COMPLETE"
    using f(2) [rule_format, of 1] n(1,3) unfolding s by simp_all
  moreover have "loop_step demo_ml_env (f 2) (f 3)" "event_state (cq_objs (f 3)) 4 = Inr CL_COMPLETE"
    using f(2) [rule_format, of 2] n(1,4) unfolding s by simp_all
  ultimately show ?thesis using r(2) f(1)
    by (intro exI [of _ r] exI [of _ f] exI [of _ cq] conjI)
qed

end
