(* ===== verification/Blocking_Calls.thy ===== *)
theory Blocking_Calls
  imports Runs Queue_Drain
begin

text \<open>
  Calls that wait, from the caller's side: a blocking write or read of a memory object returns
  once the event loop has served its command, and its bytes are then where they belong. Every
  layer takes part: the OpenCL call, the command queue and its watcher, the event loop, the
  dispatcher, the manager of unified memory and the driver.
\<close>

section \<open>How a call ends\<close>

text \<open>
  \<open>returns env c x st\<close>: the call \<open>c\<close> ends with \<open>x\<close> in state \<open>st\<close>, when the event loop makes the
  steps that its waits need. \<open>completes\<close> says the same of a call that may fault at once.
\<close>

inductive returns :: "ml_env \<Rightarrow> 'a call \<Rightarrow> 'a \<Rightarrow> cq_state \<Rightarrow> bool" for env where
  at_once: "returns env (Done x st) x st"
| waits: "(loop_step env)\<^sup>*\<^sup>* st st1 \<Longrightarrow> o_events (cq_objs st1) e = Some ev \<Longrightarrow> wait_is_over ev \<Longrightarrow>
    k st1 = Inr c \<Longrightarrow> returns env c x st2 \<Longrightarrow> returns env (Blocked e st k) x st2"

definition completes :: "ml_env \<Rightarrow> 'a call res \<Rightarrow> 'a \<Rightarrow> cq_state \<Rightarrow> bool" where
  "completes env r x st \<longleftrightarrow> (\<exists>c. r = Inr c \<and> returns env c x st)"

lemma completes_bind_call:
  assumes "returns env c x st1" and "completes env (f x st1) y st2"
  shows "completes env (bind_call c f) y st2"
  using assms
proof (induction rule: returns.induct)
  case (at_once x st)
  then show ?case by simp
next
  case (waits st st1 e ev k c x st2')
  then obtain d where "bind_call c f = Inr d" "returns env d y st2" unfolding completes_def by blast
  with waits.hyps show ?case
    unfolding completes_def by (auto intro!: returns.waits)
qed

lemma completes_bindr:
  assumes "completes env r x st1" and "completes env (f x st1) y st2"
  shows "completes env (bindr r (\<lambda>c. bind_call c f)) y st2"
  using assms completes_bind_call [of env _ x st1 f y st2] unfolding completes_def [of env r] by auto

section \<open>Memory of the kernel\<close>

text \<open>The kernel's memory when \<open>bs\<close>, or nothing, was written to a new block at \<open>a\<close>.\<close>

definition filled :: "mem \<Rightarrow> u64 \<Rightarrow> byte list option \<Rightarrow> mem" where
  "filled km a bs = (case bs of None \<Rightarrow> km | Some b \<Rightarrow> mem_write km a b)"

definition host_bytes :: "mem \<Rightarrow> u64 option \<Rightarrow> u64 \<Rightarrow> byte list option \<Rightarrow> bool" where
  "host_bytes um host sz bs \<longleftrightarrow>
     (case host of None \<Rightarrow> bs = None | Some h \<Rightarrow> mem_read um h (unat sz) = bs \<and> bs \<noteq> None)"

text \<open>A block that is handed out and filled leaves what was mapped before as it was.\<close>

lemma vmalloc_frame:
  fixes n :: u64
  assumes lx: "linux_ok lx" and vm: "lx_vmalloc lx km n = (a, km')" "a \<noteq> 0"
    and h: "host_bytes um host n bs" and r: "mem_read km b k = Some cs"
  shows "mem_read (filled km' a bs) b k = Some cs"
proof -
  note v = linux_vmalloc [OF lx vm]
  have "filled km' a bs (b + of_nat i) = km (b + of_nat i)" if i: "i < k" for i
  proof -
    let ?x = "b + of_nat i"
    have mapped: "km ?x \<noteq> None" using r i by (auto simp: mem_read_Some_iff)
    have far: "unat n \<le> unat (?x - a)"
    proof (rule ccontr)
      assume "\<not> unat n \<le> unat (?x - a)"
      then have "km (a + of_nat (unat (?x - a))) = None" using v(1) not_le by blast
      moreover have "a + of_nat (unat (?x - a)) = ?x" by simp
      ultimately show False using mapped by simp
    qed
    have "length b' = unat n" if "bs = Some b'" for b'
      using h that mem_read_length by (auto simp: host_bytes_def split: option.splits)
    then show ?thesis using v(3) far by (auto simp: filled_def mem_write_def split: option.splits)
  qed
  then show ?thesis using r by (auto simp: mem_read_Some_iff)
qed

section \<open>A queue with nothing to do\<close>

definition idle_queue :: "ptr \<Rightarrow> cq_state \<Rightarrow> bool" where
  "idle_queue q st \<longleftrightarrow>
     (\<exists>cq. cq_queues st q = Some cq \<and> ca_wf (q_ring_buffer cq) \<and> ca_list (q_ring_buffer cq) = [] \<and>
        0 < ca_bound (q_ring_buffer cq) \<and> 1 \<le> q_ref_counter cq \<and>
        (\<forall>l. q_last_event cq = Some l \<longrightarrow> l < o_next (cq_objs st) \<and>
           (\<exists>ev. o_events (cq_objs st) l = Some ev \<and> m_event_state ev = CL_COMPLETE)))"

text \<open>
  What a write or read command does to its memory object \<open>m\<close> and to the two memories, told of every
  state with the same memories and the same object.
\<close>

definition transfers ::
  "ml_env \<Rightarrow> mlcl_command \<Rightarrow> ptr \<Rightarrow> int \<Rightarrow> cl_mem \<Rightarrow> cl_mem \<Rightarrow> unimem_world \<Rightarrow> unimem_world \<Rightarrow> bool" where
  "transfers env c m err x x' u u' \<longleftrightarrow>
     (\<forall>w. ml_uni w = u \<and> o_mems (ml_objs w) m = Some x \<longrightarrow> handle_a_cmd env c w =
        finish_command (m_event c) err
          (put_objs ((ml_objs w)\<lparr>o_mems := (o_mems (ml_objs w))(m \<mapsto> x')\<rparr>) (w\<lparr>ml_uni := u'\<rparr>))) \<and>
     (\<forall>s. delete_derived (m_body c) s = mem_down s m)"

lemma transfers_nothing:
  assumes "\<And>w. ml_uni w = u \<Longrightarrow> o_mems (ml_objs w) m = Some x \<Longrightarrow> handle_a_cmd env c w = finish_command (m_event c) err w"
    and "\<And>s. delete_derived (m_body c) s = mem_down s m"
  shows "transfers env c m err x x u u"
proof -
  have "put_objs ((ml_objs w)\<lparr>o_mems := (o_mems (ml_objs w))(m \<mapsto> x)\<rparr>) (w\<lparr>ml_uni := u\<rparr>) = w"
    if "ml_uni w = u" "o_mems (ml_objs w) m = Some x" for w
    using that(2) unfolding that(1) [symmetric] by (simp add: fun_upd_idem)
  then show ?thesis using assms unfolding transfers_def by metis
qed

definition after_transfer :: "ptr \<Rightarrow> cmd_queue \<Rightarrow> objs \<Rightarrow> unimem_world \<Rightarrow> cq_state \<Rightarrow> cq_state" where
  "after_transfer q cq s u st =
     (set_queue q cq (with_objs s (st\<lparr>cq_ml := (cq_ml st)\<lparr>ml_uni := u\<rparr>\<rparr>)))\<lparr>cq_fed := insert q (cq_fed st)\<rparr>"

lemma after_transfer_simps [simp]:
  "cq_objs (after_transfer q cq s u st) = s" "cq_queues (after_transfer q cq s u st) = (cq_queues st)(q \<mapsto> cq)"
  "ml_uni (cq_ml (after_transfer q cq s u st)) = u" "cq_sent (after_transfer q cq s u st) = cq_sent st"
  by (simp_all add: after_transfer_def)

lemma serve_transfer:
  assumes cq: "cq_queues st q = Some cq" "ca_wf (q_ring_buffer cq)" "ca_list (q_ring_buffer cq) = [c]" "1 \<le> q_ref_counter cq"
    and last: "\<forall>l. q_last_event cq = Some l \<longrightarrow> l \<noteq> e \<and>
      (\<exists>evl. o_events (cq_objs st) l = Some evl \<and> m_event_state evl = CL_COMPLETE)"
    and c: "m_event c = Some e" "transfers env c m err x x' (ml_uni (cq_ml st)) u"
    and ev: "o_events (cq_objs st) e = Some ev" "m_counter ev = 2"
    and x: "o_mems (cq_objs st) m = Some x" "m_counter x' \<notin> {0, 1}"
  shows "\<exists>r E. ca_wf r \<and> ca_list r = [] \<and> ca_bound r = ca_bound (q_ring_buffer cq) \<and>
    E e = Some ((taken q ev)\<lparr>m_error_code := err, m_event_state := CL_COMPLETE, m_counter := 2\<rparr>) \<and>
    on_new_cmd_cb env q st = Inr (after_transfer q (cq\<lparr>q_ring_buffer := r, q_last_event := Some e\<rparr>)
      ((cq_objs st)\<lparr>o_mems := (o_mems (cq_objs st))(m \<mapsto> x'\<lparr>m_counter := m_counter x' - 1\<rparr>), o_events := E\<rparr>) u st)"
proof -
  let ?o = "cq_objs st"
  have lastc: "event_state ?o l = Inr CL_COMPLETE" if "q_last_event cq = Some l" for l
    using last that by (auto simp: event_state_def)
  obtain r where r: "ca_wf r" "ca_list r = []" "ca_bound r = ca_bound (q_ring_buffer cq)"
      "on_new_cmd_cb env q st = serve_command env q c (set_queue q (cq\<lparr>q_ring_buffer := r\<rparr>) st)"
    using on_new_cmd_pops [OF cq(1-3) lastc] by blast
  let ?st0 = "set_queue q (cq\<lparr>q_ring_buffer := r\<rparr>) st"
  have l0: "l \<noteq> e \<and> o_events (cq_objs ?st0) l \<noteq> None" if "q_last_event (cq\<lparr>q_ring_buffer := r\<rparr>) = Some l" for l
    using last that by auto
  obtain E where E: "set_last_event q (Some e) ?st0 = Inr (set_queue q (cq\<lparr>q_ring_buffer := r, q_last_event := Some e\<rparr>)
      (with_objs (?o\<lparr>o_events := E(e \<mapsto> taken q ev)\<rparr>) ?st0))"
    using set_last_event_ok [of ?st0 q "cq\<lparr>q_ring_buffer := r\<rparr>" e ev] ev l0 by auto
  let ?cq1 = "cq\<lparr>q_ring_buffer := r, q_last_event := Some e\<rparr>"
  let ?w1 = "put_objs (?o\<lparr>o_events := E(e \<mapsto> taken q ev)\<rparr>) (cq_ml st)"
  let ?dev = "(taken q ev)\<lparr>m_error_code := err, m_event_state := CL_COMPLETE\<rparr>"
  let ?s2 = "?o\<lparr>o_mems := (o_mems ?o)(m \<mapsto> x'), o_events := E(e \<mapsto> ?dev)\<rparr>"
  define w2 where "w2 = put_objs ?s2 ((cq_ml st)\<lparr>ml_uni := u\<rparr>)"
  have h: "handle_a_cmd env c ?w1 = Inr (w2, [On_event_complete q])"
    using c x(1) unfolding transfers_def
    by (simp add: finish_command_def update_event_def complete_event_def set_as_complete_def set_error_def taken_def w2_def
        put_objs_def)
  let ?st1 = "set_queue q ?cq1 (with_objs (?o\<lparr>o_events := E(e \<mapsto> taken q ev)\<rparr>) ?st0)"
  let ?st3 = "?st1\<lparr>cq_ml := w2, cq_fed := insert q (cq_fed st)\<rparr>"
  have w2: "ml_objs w2 = ?s2" by (simp add: w2_def)
  have g: "go_on q ?st3 = Inr ?st3"
    by (rule go_on_alive [where e = e and cq = ?cq1 and ev = ?dev]) (use cq(4) w2 in simp_all)
  let ?e2 = "?dev\<lparr>m_counter := 2\<rparr>" and ?x2 = "x'\<lparr>m_counter := m_counter x' - 1\<rparr>"
  let ?s6 = "?o\<lparr>o_mems := (o_mems ?o)(m \<mapsto> ?x2), o_events := E(e \<mapsto> ?e2)\<rparr>"
  have "ref_cnt_down x' = Some ?x2" "ref_cnt_down ?dev = Some ?e2"
    using x(2) ev(2) by (simp_all add: ref_cnt_down_more taken_def)
  then have del: "delete_command c ?s2 = Inr ?s6"
    using c unfolding transfers_def by (simp add: delete_command_def mem_down_def event_down_def heap_down_def)
  have "with_objs ?s6 ?st3 = after_transfer q ?cq1 ?s6 u st"
    by (simp add: after_transfer_def w2_def with_objs_def set_queue_def put_objs_def)
  then have "on_new_cmd_cb env q st = Inr (after_transfer q ?cq1 ?s6 u st)"
    using r(4) E h g del c(1) w2 by (simp add: serve_command_def)
  then show ?thesis using r(1-3) by (intro exI [of _ r] exI [of _ "E(e \<mapsto> ?e2)"]) simp
qed

section \<open>A call that moves memory\<close>

text \<open>What the rest of the program sees of a call that made one command for \<open>q\<close> and \<open>m\<close>.\<close>

definition only_moved :: "ptr \<Rightarrow> ptr \<Rightarrow> cq_state \<Rightarrow> cq_state \<Rightarrow> bool" where
  "only_moved q m st st' \<longleftrightarrow>
     (\<forall>p. p \<noteq> q \<longrightarrow> cq_queues st' p = cq_queues st p) \<and>
     (\<forall>p. p \<noteq> m \<longrightarrow> o_mems (cq_objs st') p = o_mems (cq_objs st) p) \<and>
     map_option q_ref_counter (cq_queues st' q) = map_option q_ref_counter (cq_queues st q) \<and>
     o_contexts (cq_objs st') = o_contexts (cq_objs st) \<and> o_programs (cq_objs st') = o_programs (cq_objs st) \<and>
     o_kernels (cq_objs st') = o_kernels (cq_objs st) \<and> o_next (cq_objs st') = Suc (o_next (cq_objs st))"

lemma submit_and_wait_moves:
  assumes idle: "idle_queue q st0" and g: "g \<noteq> ML_ERROR_CMDQ_RELEASED"
    and x: "o_mems (cq_objs st0) m = Some x" "m_counter x' = m_counter x + 1" "m_counter x \<notin> {0, -1}"
    and cmd: "new_mlcl_command t b (cq_objs st0) = (cmd, s0)"
    and tr: "\<And>n. transfers env (cmd\<lparr>m_command_id := n\<rparr>) m err (ref_cnt_up x) x' (ml_uni (cq_ml st0)) u"
  shows "\<exists>st'. completes env (submit_and_wait g (Some q) cmd True False
        (with_objs (s0\<lparr>o_mems := (o_mems s0)(m \<mapsto> ref_cnt_up x)\<rparr>) st0)) (err, None) st' \<and>
    idle_queue q st' \<and> only_moved q m st0 st' \<and> ml_uni (cq_ml st') = u \<and>
    o_mems (cq_objs st') m = Some (x'\<lparr>m_counter := m_counter x\<rparr>)"
proof -
  let ?o = "cq_objs st0" and ?e = "o_next (cq_objs st0)"
  obtain cq where cq: "cq_queues st0 q = Some cq" "ca_wf (q_ring_buffer cq)" "ca_list (q_ring_buffer cq) = []"
      "0 < ca_bound (q_ring_buffer cq)" "1 \<le> q_ref_counter cq"
    and last: "\<And>l. q_last_event cq = Some l \<Longrightarrow> l < ?e \<and>
      (\<exists>ev. o_events ?o l = Some ev \<and> m_event_state ev = CL_COMPLETE)"
    using idle unfolding idle_queue_def by blast
  have c: "cmd = \<lparr>m_command_type = t, m_command_id = 0, m_event = Some ?e, m_body = b\<rparr>"
    and s0: "s0 = ?o\<lparr>o_next := Suc ?e, o_events := (o_events ?o)(?e \<mapsto> new_cl_event)\<rparr>"
    using cmd by (auto simp: new_mlcl_command_def fresh_def)
  let ?n = "cq_command_id st0 + 1"
  define c1 where "c1 = cmd\<lparr>m_command_id := sint ?n\<rparr>"
  have "length (ca_list (q_ring_buffer cq)) < ca_bound (q_ring_buffer cq)" using cq(3,4) by simp
  then obtain y r where r: "ca_push_back (q_ring_buffer cq) c1 False = Inr (y, r)" "ca_wf r" "ca_list r = [c1]"
      "ca_bound r = ca_bound (q_ring_buffer cq)"
    using ca_push_back_room [OF cq(2), of c1 False] cq(3) by auto
  let ?ev = "new_cl_event\<lparr>m_counter := 2\<rparr>"
  let ?s1 = "?o\<lparr>o_next := Suc ?e, o_events := (o_events ?o)(?e \<mapsto> ?ev), o_mems := (o_mems ?o)(m \<mapsto> ref_cnt_up x)\<rparr>"
  define st1 where "st1 = (set_queue q (cq\<lparr>q_ring_buffer := r\<rparr>) (with_objs ?s1 st0))
    \<lparr>cq_command_id := ?n, cq_sent := insert q (cq_sent st0)\<rparr>"
  define k where "k = (\<lambda>st. bindr (deref (o_events (cq_objs st)) ?e) (\<lambda>ev. bindr (event_down (cq_objs st) ?e) (\<lambda>s.
        Inr (Done (m_error_code ev, None :: ptr option) (with_objs s st)))))"
  have blk: "handle_blocking_non_blocking True ?e False st = Inr (Blocked ?e st k)" for st
    by (simp add: handle_blocking_non_blocking_def k_def)
  have k: "submit_and_wait g (Some q) cmd True False (with_objs (s0\<lparr>o_mems := (o_mems s0)(m \<mapsto> ref_cnt_up x)\<rparr>) st0) =
      Inr (Blocked ?e st1 k)"
    using cq(1,5) r(1) g
    by (simp add: submit_and_wait_def s0 c event_up_def heap_up_def ref_cnt_up_def new_cl_event_def ml_submit_cmd_def
        cq_push_back_def set_command_id_def c1_def [unfolded c] st1_def Let_def blk with_objs_def set_queue_def put_objs_def)
  let ?cq = "cq\<lparr>q_ring_buffer := r\<rparr>"
  define st2 where "st2 = st1\<lparr>cq_sent := cq_sent st1 - {q}, cq_fed := insert q (cq_fed st1)\<rparr>"
  let ?st3 = "st2\<lparr>cq_fed := cq_fed st2 - {q}\<rparr>"
  have st1: "cq_objs st1 = ?s1" "cq_queues st1 = (cq_queues st0)(q \<mapsto> ?cq)" "ml_uni (cq_ml st1) = ml_uni (cq_ml st0)"
    "q \<in> cq_sent st1" by (simp_all add: st1_def)
  have s2: "cq_objs st2 = ?s1" "cq_queues st2 = (cq_queues st0)(q \<mapsto> ?cq)" "ml_uni (cq_ml st2) = ml_uni (cq_ml st0)"
    using st1 by (simp_all add: st2_def)
  have st3: "cq_objs ?st3 = ?s1" "cq_queues ?st3 = (cq_queues st0)(q \<mapsto> ?cq)" "ml_uni (cq_ml ?st3) = ml_uni (cq_ml st0)"
    using s2 by simp_all
  have mx: "m_counter x' \<notin> {0, 1}" using x(2,3) word_inc_nonzero [of "m_counter x"] by auto
  have last3: "\<forall>l. q_last_event ?cq = Some l \<longrightarrow> l \<noteq> ?e \<and>
      (\<exists>evl. o_events (cq_objs ?st3) l = Some evl \<and> m_event_state evl = CL_COMPLETE)"
    using last unfolding st3(1) by fastforce
  have p: "cq_queues ?st3 q = Some ?cq" "ca_wf (q_ring_buffer ?cq)" "ca_list (q_ring_buffer ?cq) = [c1]"
    "1 \<le> q_ref_counter ?cq" "m_event c1 = Some ?e" "transfers env c1 m err (ref_cnt_up x) x' (ml_uni (cq_ml ?st3)) u"
    "o_events (cq_objs ?st3) ?e = Some ?ev" "m_counter ?ev = 2" "o_mems (cq_objs ?st3) m = Some (ref_cnt_up x)"
    using r(2,3) cq(5) tr [of "sint ?n"] by (simp_all add: s2 c1_def c)
  obtain r' E where f: "ca_wf r'" "ca_list r' = []" "ca_bound r' = ca_bound (q_ring_buffer ?cq)"
      "E ?e = Some ((taken q ?ev)\<lparr>m_error_code := err, m_event_state := CL_COMPLETE, m_counter := 2\<rparr>)"
      "on_new_cmd_cb env q ?st3 = Inr (after_transfer q (?cq\<lparr>q_ring_buffer := r', q_last_event := Some ?e\<rparr>)
        ((cq_objs ?st3)\<lparr>o_mems := (o_mems (cq_objs ?st3))(m \<mapsto> x'\<lparr>m_counter := m_counter x' - 1\<rparr>), o_events := E\<rparr>) u ?st3)"
    using serve_transfer [OF p(1-4) last3 p(5-9) mx] by (elim exE conjE) (rule that)
  define st4 where "st4 = after_transfer q (?cq\<lparr>q_ring_buffer := r', q_last_event := Some ?e\<rparr>)
        ((cq_objs ?st3)\<lparr>o_mems := (o_mems (cq_objs ?st3))(m \<mapsto> x'\<lparr>m_counter := m_counter x' - 1\<rparr>), o_events := E\<rparr>) u ?st3"
  have "loop_step env st1 st2" unfolding st2_def by (rule loop_step.collect [OF st1(4)])
  moreover have "loop_step env st2 st4"
    by (rule loop_step.serve [of q]) (simp add: st2_def, unfold serve_watcher_def st4_def, rule f(5))
  ultimately have steps: "(loop_step env)\<^sup>*\<^sup>* st1 st4" by auto
  let ?done = "(taken q ?ev)\<lparr>m_error_code := err, m_event_state := CL_COMPLETE, m_counter := 2\<rparr>"
  have e4: "o_events (cq_objs st4) ?e = Some ?done" using f(4) by (simp add: st4_def)
  have "wait_is_over ?done" by (simp add: wait_is_over_def)
  define st5 where "st5 = with_objs ((cq_objs st4)\<lparr>o_events := (o_events (cq_objs st4))(?e \<mapsto> ?done\<lparr>m_counter := 1\<rparr>)\<rparr>) st4"
  have "k st4 = Inr (Done (err, None) st5)"
    using e4 by (simp add: k_def event_down_def heap_down_def ref_cnt_down_more st5_def)
  then have "returns env (Blocked ?e st1 k) (err, None) st5"
    by (rule returns.waits [OF steps e4 \<open>wait_is_over ?done\<close> _ returns.at_once])
  then have ret: "completes env (submit_and_wait g (Some q) cmd True False
      (with_objs (s0\<lparr>o_mems := (o_mems s0)(m \<mapsto> ref_cnt_up x)\<rparr>) st0)) (err, None) st5"
    unfolding completes_def k by blast
  have s5: "cq_objs st5 = ?s1\<lparr>o_mems := (o_mems ?s1)(m \<mapsto> x'\<lparr>m_counter := m_counter x' - 1\<rparr>),
      o_events := E(?e \<mapsto> ?done\<lparr>m_counter := 1\<rparr>)\<rparr>"
    unfolding st5_def st4_def by (simp add: s2)
  have q5: "cq_queues st5 = (cq_queues st0)(q \<mapsto> cq\<lparr>q_ring_buffer := r', q_last_event := Some ?e\<rparr>)"
    unfolding st5_def st4_def by (simp add: s2)
  have "idle_queue q st5" using f(1-3) cq(4,5) r(4) unfolding idle_queue_def s5 q5 by simp
  moreover have "only_moved q m st0 st5" using cq(1) unfolding only_moved_def s5 q5 by simp
  moreover have "ml_uni (cq_ml st5) = u" unfolding st5_def st4_def by simp
  moreover have "o_mems (cq_objs st5) m = Some (x'\<lparr>m_counter := m_counter x\<rparr>)" unfolding s5 using x(2) by simp
  ultimately show ?thesis using ret by blast
qed

section \<open>Writing and reading\<close>

definition unimem_ready :: "ml_env \<Rightarrow> bool" where
  "unimem_ready env \<longleftrightarrow> linux_ok (e_linux env) \<and> 0 < m_fd (e_unimem env) \<and> e_malloc_ok env"

abbreviation kernel_mem :: "cq_state \<Rightarrow> mem" where
  "kernel_mem st \<equiv> d_kmem (uw_driver (ml_uni (cq_ml st)))"

text \<open>A memory object whose block holds some bytes.\<close>

definition buffer_holds :: "ptr \<Rightarrow> byte list \<Rightarrow> cq_state \<Rightarrow> bool" where
  "buffer_holds m bs st \<longleftrightarrow>
     (\<exists>x A. o_mems (cq_objs st) m = Some x \<and> m_counter x \<notin> {0, -1} \<and> m_unimem_ptr x = ptr_of A \<and>
        unat (m_size x) = length bs \<and> 1 \<le> m_size x \<and>
        mem_read (kernel_mem st) (m_kernel_virt_addr A) (length bs) = Some bs)"

text \<open>The address structure of a new block.\<close>

definition block_at :: "u64 \<Rightarrow> u64 \<Rightarrow> unimem_addr" where
  "block_at a sz = \<lparr>m_kernel_virt_addr = a, m_bus_addr = 13, ua_size = sz\<rparr>"

lemma transfers_write:
  assumes "unimem_ready env" and "lx_vmalloc (e_linux env) (d_kmem (uw_driver u)) sz = (a, km)" and "a \<noteq> 0"
    and "1 \<le> sz" and "host_bytes (uw_user u) host sz bs"
  shows "transfers env \<lparr>m_command_type = WRITE_BUFFER, m_command_id = n, m_event = e, m_body = WB (Some m) off sz host\<rparr>
    m CL_SUCCESS x (set_unimem_ptr x (ptr_of (block_at a sz)) sz) u
    (u\<lparr>uw_driver := (uw_driver u)\<lparr>s_unidress := block_at a sz, s_msg_type := 0, d_kmem := filled km a bs\<rparr>\<rparr>)"
proof -
  have "handle_write_command env (Some m) sz host w = Inr (CL_SUCCESS, written w km m x a sz bs)"
    if "ml_uni w = u" "o_mems (ml_objs w) m = Some x" for w
    by (rule handle_write_ok)
      (use assms that in \<open>auto simp: unimem_ready_def host_bytes_def split: option.splits\<close>)
  then show ?thesis
    by (auto simp: transfers_def handle_a_cmd_def written_def delete_derived_def block_at_def filled_def put_objs_def)
qed

lemma transfers_read:
  assumes "unimem_ready env" and "m_unimem_ptr x = ptr_of A" and "1 \<le> m_size x" and "unat (m_size x) = length bs"
    and "mem_read (d_kmem (uw_driver u)) (m_kernel_virt_addr A) (length bs) = Some bs"
    and "mem_read (uw_user u) dst (length bs) \<noteq> None"
  shows "transfers env \<lparr>m_command_type = READ_BUFFER, m_command_id = n, m_event = e, m_body = RB (Some m) off (m_size x) (Some dst)\<rparr>
    m CL_SUCCESS x x u (u\<lparr>uw_user := mem_write (uw_user u) dst bs\<rparr>)"
proof -
  have "handle_read_command env (Some m) (m_size x) (Some dst) w =
      Inr (CL_SUCCESS, w\<lparr>ml_uni := u\<lparr>uw_user := mem_write (uw_user u) dst bs\<rparr>\<rparr>)"
    if w: "ml_uni w = u" "o_mems (ml_objs w) m = Some x" for w
  proof -
    have lx: "linux_ok (e_linux env)" using assms(1) by (simp add: unimem_ready_def)
    have k: "mem_read (d_kmem (uw_driver (ml_uni w))) (m_kernel_virt_addr A) (unat (m_size x)) = Some bs"
      and d: "mem_read (uw_user (ml_uni w)) dst (unat (m_size x)) \<noteq> None"
      using assms(4-6) w(1) by simp_all
    show ?thesis using handle_read_ok [OF lx w(2) assms(2) refl assms(3) k d] w(1) by simp
  qed
  moreover have "(ml_objs w)\<lparr>o_mems := (o_mems (ml_objs w))(m \<mapsto> x)\<rparr> = ml_objs w"
    if "o_mems (ml_objs w) m = Some x" for w
    using that by (simp add: fun_upd_idem)
  ultimately show ?thesis
    by (auto simp: transfers_def handle_a_cmd_def delete_derived_def)
qed

lemma blocking_write_ok:
  assumes env: "unimem_ready env" and q: "idle_queue q st" and g: "g \<noteq> ML_ERROR_CMDQ_RELEASED"
    and x: "o_mems (cq_objs st) m = Some x" "m_counter x \<notin> {0, -1}" and sz: "1 \<le> sz"
    and vm: "lx_vmalloc (e_linux env) (kernel_mem st) sz = (a, km)" "a \<noteq> 0"
    and h: "host_bytes (user_mem st) host sz bs"
  shows "\<exists>st'. completes env (clEnqueueWriteBuffer g (Some q) (Some m) True off sz host False st) (CL_SUCCESS, None) st' \<and>
    idle_queue q st' \<and> only_moved q m st st' \<and> user_mem st' = user_mem st \<and> kernel_mem st' = filled km a bs \<and>
    o_mems (cq_objs st') m = Some (set_unimem_ptr x (ptr_of (block_at a sz)) sz)"
proof -
  let ?u = "ml_uni (cq_ml st)" and ?x' = "set_unimem_ptr (ref_cnt_up x) (ptr_of (block_at a sz)) sz"
  obtain cmd s where c: "new_mlcl_command WRITE_BUFFER (WB (Some m) off sz host) (cq_objs st) = (cmd, s)" by fastforce
  have cmd: "cmd\<lparr>m_command_id := n\<rparr> = \<lparr>m_command_type = WRITE_BUFFER, m_command_id = n,
      m_event = Some (o_next (cq_objs st)), m_body = WB (Some m) off sz host\<rparr>"
    and s: "o_mems s = o_mems (cq_objs st)" for n
    using c by (auto simp: new_mlcl_command_def fresh_def)
  note tr = transfers_write [OF env vm sz h, of _ "Some (o_next (cq_objs st))" m off "ref_cnt_up x", folded cmd]
  have n: "m_counter ?x' = m_counter x + 1" by (simp add: set_unimem_ptr_def ref_cnt_up_def)
  have "clEnqueueWriteBuffer g (Some q) (Some m) True off sz host False st =
      submit_and_wait g (Some q) cmd True False (with_objs (s\<lparr>o_mems := (o_mems s)(m \<mapsto> ref_cnt_up x)\<rparr>) st)"
    using x(1) c by (simp add: clEnqueueWriteBuffer_def new_MLCLCommandWB_def mem_up_def heap_up_def s)
  then show ?thesis
    using submit_and_wait_moves [OF q g x(1) n x(2) c tr] by (auto simp: set_unimem_ptr_def ref_cnt_up_def)
qed

lemma blocking_read_ok:
  assumes env: "unimem_ready env" and q: "idle_queue q st" and g: "g \<noteq> ML_ERROR_CMDQ_RELEASED"
    and b: "buffer_holds m bs st" and d: "mem_read (user_mem st) dst (length bs) \<noteq> None"
  shows "\<exists>st'. completes env (clEnqueueReadBuffer g (Some q) (Some m) True off (of_nat (length bs)) (Some dst) False st)
      (CL_SUCCESS, None) st' \<and>
    idle_queue q st' \<and> only_moved q m st st' \<and> o_mems (cq_objs st') m = o_mems (cq_objs st) m \<and>
    kernel_mem st' = kernel_mem st \<and> user_mem st' = mem_write (user_mem st) dst bs"
proof -
  obtain x A where x: "o_mems (cq_objs st) m = Some x" "m_counter x \<notin> {0, -1}" "m_unimem_ptr x = ptr_of A"
      "unat (m_size x) = length bs" "1 \<le> m_size x"
      "mem_read (kernel_mem st) (m_kernel_virt_addr A) (length bs) = Some bs"
    using b unfolding buffer_holds_def by blast
  have sz: "of_nat (length bs) = m_size x" by (simp flip: x(4))
  let ?u = "ml_uni (cq_ml st)" and ?x' = "ref_cnt_up x"
  obtain cmd s where c: "new_mlcl_command READ_BUFFER (RB (Some m) off (m_size x) (Some dst)) (cq_objs st) = (cmd, s)" by fastforce
  have cmd: "cmd\<lparr>m_command_id := n\<rparr> = \<lparr>m_command_type = READ_BUFFER, m_command_id = n,
      m_event = Some (o_next (cq_objs st)), m_body = RB (Some m) off (m_size x) (Some dst)\<rparr>"
    and s: "o_mems s = o_mems (cq_objs st)" for n
    using c by (auto simp: new_mlcl_command_def fresh_def)
  have x': "m_unimem_ptr ?x' = ptr_of A" "m_size ?x' = m_size x" "m_counter ?x' = m_counter x + 1"
    using x(3) by (simp_all add: ref_cnt_up_def)
  have tr: "transfers env (cmd\<lparr>m_command_id := n\<rparr>) m CL_SUCCESS ?x' ?x' ?u (?u\<lparr>uw_user := mem_write (uw_user ?u) dst bs\<rparr>)" for n
    unfolding cmd using transfers_read [OF env x'(1), of bs ?u dst] x(4-6) d unfolding x'(2) by blast
  have "clEnqueueReadBuffer g (Some q) (Some m) True off (m_size x) (Some dst) False st =
      submit_and_wait g (Some q) cmd True False (with_objs (s\<lparr>o_mems := (o_mems s)(m \<mapsto> ref_cnt_up x)\<rparr>) st)"
    using x(1) c by (simp add: clEnqueueReadBuffer_def new_MLCLCommandRB_def mem_up_def heap_up_def s)
  then show ?thesis
    using submit_and_wait_moves [OF q g x(1) x'(3) x(2) c tr] x(1) unfolding sz by (auto simp: ref_cnt_up_def)
qed

text \<open>A read of another size than the last write's is refused.\<close>

lemma blocking_read_refused:
  assumes q: "idle_queue q st" and g: "g \<noteq> ML_ERROR_CMDQ_RELEASED"
    and x: "o_mems (cq_objs st) m = Some x" "m_counter x \<notin> {0, -1}" "up_ptr (m_unimem_ptr x) \<noteq> None"
    and sz: "1 \<le> sz" "sz \<noteq> m_size x"
  shows "\<exists>st'. completes env (clEnqueueReadBuffer g (Some q) (Some m) True off sz (Some dst) False st)
      (CL_INVALID_VALUE, None) st' \<and>
    idle_queue q st' \<and> only_moved q m st st' \<and> o_mems (cq_objs st') m = Some x \<and> ml_uni (cq_ml st') = ml_uni (cq_ml st)"
proof -
  let ?u = "ml_uni (cq_ml st)" and ?x' = "ref_cnt_up x"
  obtain cmd s where c: "new_mlcl_command READ_BUFFER (RB (Some m) off sz (Some dst)) (cq_objs st) = (cmd, s)" by fastforce
  have cmd: "cmd\<lparr>m_command_id := n\<rparr> = \<lparr>m_command_type = READ_BUFFER, m_command_id = n,
      m_event = Some (o_next (cq_objs st)), m_body = RB (Some m) off sz (Some dst)\<rparr>"
    and s: "o_mems s = o_mems (cq_objs st)" for n
    using c by (auto simp: new_mlcl_command_def fresh_def)
  have x': "m_unimem_ptr ?x' = m_unimem_ptr x" "m_size ?x' = m_size x" "m_counter ?x' = m_counter x + 1"
    by (simp_all add: ref_cnt_up_def)
  have "\<not> sz < 1" using sz(1) by (simp only: not_less)
  then have "handle_read_command env (Some m) sz (Some dst) w = Inr (CL_INVALID_VALUE, w)"
    if "o_mems (ml_objs w) m = Some ?x'" for w
    using that x(3) sz(2) x'(1,2) by (auto simp: handle_read_command_def)
  then have tr: "transfers env (cmd\<lparr>m_command_id := n\<rparr>) m CL_INVALID_VALUE ?x' ?x' ?u ?u" for n
    unfolding cmd by (intro transfers_nothing) (simp_all add: handle_a_cmd_def delete_derived_def)
  have "clEnqueueReadBuffer g (Some q) (Some m) True off sz (Some dst) False st =
      submit_and_wait g (Some q) cmd True False (with_objs (s\<lparr>o_mems := (o_mems s)(m \<mapsto> ref_cnt_up x)\<rparr>) st)"
    using x(1) c by (simp add: clEnqueueReadBuffer_def new_MLCLCommandRB_def mem_up_def heap_up_def s)
  then show ?thesis
    using submit_and_wait_moves [OF q g x(1) x'(3) x(2) c tr] x(1) by (auto simp: ref_cnt_up_def)
qed

section \<open>What buffers hold\<close>

lemma buffer_written:
  assumes x: "o_mems (cq_objs st') m = Some (set_unimem_ptr x (ptr_of (block_at a sz)) sz)" "m_counter x \<notin> {0, -1}"
    and k: "kernel_mem st' = filled km a (Some bs)" and l: "length bs = unat sz" and sz: "1 \<le> sz"
  shows "buffer_holds m bs st'"
proof -
  have "length bs \<le> 2 ^ 64" unfolding l by (rule less_imp_le [OF unat_bound64])
  then have "mem_read (kernel_mem st') a (length bs) = Some bs"
    unfolding k filled_def by (simp add: mem_read_write_same)
  then show ?thesis using x l sz
    by (auto simp: buffer_holds_def set_unimem_ptr_def block_at_def intro!: exI [of _ "block_at a sz"])
qed

lemma buffer_kept:
  assumes "unimem_ready env" and "lx_vmalloc (e_linux env) (kernel_mem st) sz = (a, km)" and "a \<noteq> 0"
    and "host_bytes (user_mem st) host sz bs" and "only_moved q m st st'" and "kernel_mem st' = filled km a bs"
    and "m' \<noteq> m" and b: "buffer_holds m' cs st"
  shows "buffer_holds m' cs st'"
proof -
  have lx: "linux_ok (e_linux env)" using assms(1) by (simp add: unimem_ready_def)
  note f = vmalloc_frame [OF lx assms(2-4)]
  have "o_mems (cq_objs st') m' = o_mems (cq_objs st) m'" using assms(5,7) by (simp add: only_moved_def)
  then show ?thesis using b f unfolding buffer_holds_def assms(6) by metis
qed

lemma buffer_kept_read:
  assumes "only_moved q m st st'" and "kernel_mem st' = kernel_mem st" and "o_mems (cq_objs st') m = o_mems (cq_objs st) m"
    and "buffer_holds m' cs st"
  shows "buffer_holds m' cs st'"
proof -
  have "o_mems (cq_objs st') m' = o_mems (cq_objs st) m'" using assms(1,3) by (cases "m' = m") (simp_all add: only_moved_def)
  then show ?thesis using assms(2,4) by (simp add: buffer_holds_def)
qed

section \<open>Examples\<close>

lemma demo_mem_queue_idle:
  assumes "ca_wf r" and "ca_list r = []" and "0 < ca_bound r"
  shows "idle_queue 0 (demo_mem_queue r)"
  using assms by (simp add: idle_queue_def demo_mem_queue_def)

lemma demo_unimem_ready: "unimem_ready demo_ml_env"
  using demo_linux_ok by (simp add: unimem_ready_def)

lemma demo_mem_queue_memory:
  "kernel_mem (demo_mem_queue r) = Map.empty" "user_mem (demo_mem_queue r) = demo_user"
  "o_mems (cq_objs (demo_mem_queue r)) 5 = Some (new_cl_mem\<lparr>m_counter := 3\<rparr>)"
  by (simp_all add: demo_mem_queue_def demo_mem_ml_def with_objs_def put_objs_def)

section \<open>Properties\<close>

text \<open>C3: A blocking write of \<open>sz\<close> bytes through an idle queue and then a blocking read of the same
  size both return success once the event loop has done its steps, and the user's second buffer
  then holds the bytes of the first. The offsets play no part. The queue is idle again, and what
  every other memory object holds is as it was.\<close>
theorem blocking_write_read:
  assumes env: "unimem_ready env" and q: "idle_queue q st" and g: "g \<noteq> ML_ERROR_CMDQ_RELEASED"
    and x: "o_mems (cq_objs st) m = Some x" "m_counter x \<notin> {0, -1}" and sz: "1 \<le> sz"
    and vm: "lx_vmalloc (e_linux env) (kernel_mem st) sz = (a, km)" "a \<noteq> 0"
    and src: "mem_read (user_mem st) src (unat sz) = Some bs" and dst: "mem_read (user_mem st) dst (unat sz) \<noteq> None"
  shows "\<exists>st1 st2.
    completes env (clEnqueueWriteBuffer g (Some q) (Some m) True off1 sz (Some src) False st) (CL_SUCCESS, None) st1 \<and>
    completes env (clEnqueueReadBuffer g (Some q) (Some m) True off2 sz (Some dst) False st1) (CL_SUCCESS, None) st2 \<and>
    mem_read (user_mem st2) dst (unat sz) = Some bs \<and> idle_queue q st2 \<and>
    (\<forall>m' cs. m' \<noteq> m \<longrightarrow> buffer_holds m' cs st \<longrightarrow> buffer_holds m' cs st2)"
proof -
  have h: "host_bytes (user_mem st) (Some src) sz (Some bs)" using src by (simp add: host_bytes_def)
  have l: "length bs = unat sz" using src mem_read_length by blast
  obtain st1 where w: "completes env (clEnqueueWriteBuffer g (Some q) (Some m) True off1 sz (Some src) False st) (CL_SUCCESS, None) st1"
      "idle_queue q st1" "only_moved q m st st1" "user_mem st1 = user_mem st" "kernel_mem st1 = filled km a (Some bs)"
      "o_mems (cq_objs st1) m = Some (set_unimem_ptr x (ptr_of (block_at a sz)) sz)"
    using blocking_write_ok [OF env q g x sz vm h, of off1] by (elim exE conjE) (rule that)
  note b = buffer_written [OF w(6) x(2) w(5) l sz]
  have "mem_read (user_mem st1) dst (length bs) \<noteq> None" using dst w(4) l by simp
  from blocking_read_ok [OF env w(2) g b this, of off2]
  obtain st2 where r: "completes env (clEnqueueReadBuffer g (Some q) (Some m) True off2 (of_nat (length bs)) (Some dst) False st1)
        (CL_SUCCESS, None) st2" "idle_queue q st2" "only_moved q m st1 st2" "o_mems (cq_objs st2) m = o_mems (cq_objs st1) m"
      "kernel_mem st2 = kernel_mem st1" "user_mem st2 = mem_write (user_mem st1) dst bs"
    by (elim exE conjE) (rule that)
  have "mem_read (user_mem st2) dst (unat sz) = Some bs"
    unfolding r(6) l [symmetric] by (rule mem_read_write_same) (use mem_read_bound [of sz] l in simp)
  moreover have "buffer_holds m' cs st2" if "m' \<noteq> m" "buffer_holds m' cs st" for m' cs
    by (rule buffer_kept_read [OF r(3,5,4)], rule buffer_kept [OF env vm h w(3,5) that])
  ultimately show ?thesis using w(1) r(1,2) l by (intro exI [of _ st1] exI [of _ st2]) simp
qed

theorem blocking_write_read_witness:
  "\<exists>r st1 st2. completes demo_ml_env (clEnqueueWriteBuffer ML_SUCCESS (Some 0) (Some 5) True 0 3 (Some 100) False (demo_mem_queue r))
      (CL_SUCCESS, None) st1 \<and>
    completes demo_ml_env (clEnqueueReadBuffer ML_SUCCESS (Some 0) (Some 5) True 1 3 (Some 200) False st1) (CL_SUCCESS, None) st2 \<and>
    mem_read (user_mem st2) 200 3 = Some [1, 2, 3]"
proof -
  obtain r :: "mlcl_command circ_array" where r: "ca_wf r" "ca_list r = []" "0 < ca_bound r" using demo_ring100 by blast
  have "m_counter (new_cl_mem\<lparr>m_counter := 3\<rparr>) \<notin> {0, -1}" by simp
  note p = blocking_write_read [OF demo_unimem_ready demo_mem_queue_idle [OF r] _ demo_mem_queue_memory(3) this]
  show ?thesis
    using p [of ML_SUCCESS 3 4096 "mem_write Map.empty 4096 (replicate (unat (3 :: u64)) 0)" 100 "[1, 2, 3]" 200 0 1]
    unfolding demo_mem_queue_memory by (simp add: demo_user_reads demo_vmalloc) blast
qed

text \<open>C37: A write of another size than the buffer's contents replaces the whole buffer, whatever its
  offset: the write succeeds, but a read of the old size is then refused with \<open>CL_INVALID_VALUE\<close>
  and leaves the user's memory alone. The old block is never given back: its bytes are still mapped
  in the kernel, and the memory object has forgotten where.\<close>
theorem short_write_loses_buffer:
  assumes env: "unimem_ready env" and q: "idle_queue q st" and g: "g \<noteq> ML_ERROR_CMDQ_RELEASED"
    and b: "buffer_holds m cs st" and sz: "1 \<le> sz" "unat sz \<noteq> length cs"
    and vm: "lx_vmalloc (e_linux env) (kernel_mem st) sz = (a, km)" "a \<noteq> 0"
    and src: "mem_read (user_mem st) src (unat sz) = Some bs"
  shows "\<exists>A st1 st2. m_unimem_ptr (the (o_mems (cq_objs st) m)) = ptr_of A \<and>
    completes env (clEnqueueWriteBuffer g (Some q) (Some m) True off1 sz (Some src) False st) (CL_SUCCESS, None) st1 \<and>
    completes env (clEnqueueReadBuffer g (Some q) (Some m) True off2 (of_nat (length cs)) (Some dst) False st1)
      (CL_INVALID_VALUE, None) st2 \<and>
    user_mem st2 = user_mem st \<and> buffer_holds m bs st2 \<and>
    mem_read (kernel_mem st2) (m_kernel_virt_addr A) (length cs) = Some cs"
proof -
  have h: "host_bytes (user_mem st) (Some src) sz (Some bs)" using src by (simp add: host_bytes_def)
  have l: "length bs = unat sz" using src mem_read_length by blast
  obtain x A where x: "o_mems (cq_objs st) m = Some x" "m_counter x \<notin> {0, -1}"
    and A: "m_unimem_ptr x = ptr_of A" "unat (m_size x) = length cs" "1 \<le> m_size x"
      "mem_read (kernel_mem st) (m_kernel_virt_addr A) (length cs) = Some cs"
    using b unfolding buffer_holds_def by blast
  let ?y = "set_unimem_ptr x (ptr_of (block_at a sz)) sz"
  obtain st1 where w: "completes env (clEnqueueWriteBuffer g (Some q) (Some m) True off1 sz (Some src) False st) (CL_SUCCESS, None) st1"
      "idle_queue q st1" "only_moved q m st st1" "user_mem st1 = user_mem st" "kernel_mem st1 = filled km a (Some bs)"
      "o_mems (cq_objs st1) m = Some ?y"
    using blocking_write_ok [OF env q g x sz(1) vm h, of off1] by (elim exE conjE) (rule that)
  have n: "of_nat (length cs) = m_size x" by (simp flip: A(2))
  have ne: "m_size x \<noteq> sz" using sz(2) A(2) by blast
  have y: "m_counter ?y \<notin> {0, -1}" "up_ptr (m_unimem_ptr ?y) \<noteq> None" "m_size x \<noteq> m_size ?y"
    using x(2) ne by (simp_all add: set_unimem_ptr_def)
  obtain st2 where r: "completes env (clEnqueueReadBuffer g (Some q) (Some m) True off2 (m_size x) (Some dst) False st1)
        (CL_INVALID_VALUE, None) st2" "o_mems (cq_objs st2) m = Some ?y" "ml_uni (cq_ml st2) = ml_uni (cq_ml st1)"
    using blocking_read_refused [OF w(2) g w(6) y(1,2) A(3) y(3), of env off2 dst] by (elim exE conjE) (rule that)
  have "kernel_mem st2 = filled km a (Some bs)" "user_mem st2 = user_mem st" using w(4,5) r(3) by simp_all
  moreover have "buffer_holds m bs st2" by (rule buffer_written [OF r(2) x(2) calculation(1) l sz(1)])
  moreover have "linux_ok (e_linux env)" using env by (simp add: unimem_ready_def)
  ultimately show ?thesis
    using vmalloc_frame [OF _ vm h A(4)] w(1) r(1) x(1) A(1) n
    by (intro exI [of _ A] exI [of _ st1] exI [of _ st2]) simp
qed

theorem short_write_loses_buffer_witness:
  "\<exists>st st1 st2. buffer_holds 5 [7, 8, 9] st \<and>
    completes demo_ml_env (clEnqueueWriteBuffer ML_SUCCESS (Some 0) (Some 5) True 1 2 (Some 100) False st) (CL_SUCCESS, None) st1 \<and>
    completes demo_ml_env (clEnqueueReadBuffer ML_SUCCESS (Some 0) (Some 5) True 0 3 (Some 200) False st1)
      (CL_INVALID_VALUE, None) st2"
proof -
  obtain r :: "mlcl_command circ_array" where r: "ca_wf r" "ca_list r = []" "0 < ca_bound r" using demo_ring100 by blast
  let ?x = "set_unimem_ptr (new_cl_mem\<lparr>m_counter := 3\<rparr>) (ptr_of (block_at 9000 3)) 3" and ?d = "demo_mem_queue r"
  let ?u = "\<lparr>uw_driver = driver_init (mem_write Map.empty 9000 [7, 8, 9]), uw_user = demo_user\<rparr>"
  let ?st = "with_objs ((cq_objs ?d)\<lparr>o_mems := [5 \<mapsto> ?x]\<rparr>) (?d\<lparr>cq_ml := (cq_ml ?d)\<lparr>ml_uni := ?u\<rparr>\<rparr>)"
  have k: "kernel_mem ?st = mem_write Map.empty 9000 [7, 8, 9]" and u: "user_mem ?st = demo_user"
    by (simp_all add: driver_init_def)
  have rd: "mem_read (mem_write Map.empty 9000 [7, 8, 9]) 9000 3 = Some [7, 8, 9 :: byte]"
    by (simp add: mem_read_def mem_write_def upt_rec)
  have l3: "length [7, 8, 9 :: byte] = 3" by simp
  have b: "buffer_holds 5 [7, 8, 9] ?st"
    unfolding buffer_holds_def k l3 using rd
    by (intro exI [of _ ?x] exI [of _ "block_at 9000 3"])
      (simp add: set_unimem_ptr_def block_at_def new_cl_mem_def)
  have q: "idle_queue 0 ?st" using demo_mem_queue_idle [OF r] by (simp add: idle_queue_def demo_mem_queue_def)
  have "mem_write Map.empty 9000 [7, 8, 9 :: byte] (4096 + of_nat i) = None" if "i < 2" for i
    using that by (auto simp: less_2_cases_iff mem_write_def)
  then have free: "list_all (\<lambda>i. kernel_mem ?st (4096 + of_nat i) = None) [0..<unat (2 :: u64)]"
    unfolding k by (simp add: list_all_iff)
  obtain km where vm: "lx_vmalloc (e_linux demo_ml_env) (kernel_mem ?st) 2 = (4096, km)"
    using free by (simp add: demo_linux_def)
  have src: "mem_read (user_mem ?st) 100 (unat (2 :: u64)) = Some [1, 2]"
    unfolding u by (simp add: demo_user_def mem_read_def mem_write_def upt_rec)
  show ?thesis
    using short_write_loses_buffer [OF demo_unimem_ready q _ b _ _ vm _ src, of ML_SUCCESS 1 0 200] b by fastforce
qed

end
