(* ===== verification/Sessions.thy ===== *)
theory Sessions
  imports Blocking_Calls Queue_Launch Centrum
begin

text \<open>
  Whole sessions of an application, from start-up to results: the calls of the OpenCL layer one
  after the other, each in the state the one before has left, with the event loop working in
  between. The properties compose start-up, the object model, the command queues, the dispatcher,
  unified memory, and the schedulers.
\<close>

section \<open>Creating queues and buffers\<close>

lemma create_queue_ok:
  "\<exists>r. clCreateCommandQueue junk st = Inr (o_next (cq_objs st), set_queue (o_next (cq_objs st))
      \<lparr>q_ring_buffer = r, q_ref_counter = 1, q_last_event = None\<rparr>
      (with_objs ((cq_objs st)\<lparr>o_next := Suc (o_next (cq_objs st))\<rparr>) st)) \<and>
    ca_wf r \<and> ca_list r = [] \<and> ca_bound r = 100"
proof -
  obtain r where r: "ca_new junk 100 = Inr r" using ca_new_small [of 100 junk] by (auto simp: max_new_def)
  then show ?thesis using ca_new_ok [OF r]
    by (intro exI [of _ r]) (simp add: clCreateCommandQueue_def ml_create_cmd_q_def create_new_def new_cmd_queue_def fresh_def)
qed

lemma create_queue_idle:
  "\<exists>q st'. clCreateCommandQueue junk st = Inr (q, st') \<and> idle_queue q st' \<and> o_mems (cq_objs st') = o_mems (cq_objs st) \<and>
    ml_uni (cq_ml st') = ml_uni (cq_ml st)"
proof -
  obtain r where r: "clCreateCommandQueue junk st = Inr (o_next (cq_objs st), set_queue (o_next (cq_objs st))
      \<lparr>q_ring_buffer = r, q_ref_counter = 1, q_last_event = None\<rparr>
      (with_objs ((cq_objs st)\<lparr>o_next := Suc (o_next (cq_objs st))\<rparr>) st))" "ca_wf r" "ca_list r = []" "ca_bound r = 100"
    using create_queue_ok [of junk st] by blast
  then show ?thesis by (simp add: idle_queue_def)
qed

lemma buffer_holds_cong:
  assumes "o_mems (cq_objs st') m = o_mems (cq_objs st) m" and "ml_uni (cq_ml st') = ml_uni (cq_ml st)"
  shows "buffer_holds m bs st' \<longleftrightarrow> buffer_holds m bs st"
  by (simp add: buffer_holds_def assms)

lemma release_idle_queue:
  assumes "idle_queue q st"
  shows "\<exists>cq. clReleaseCommandQueue g (Some q) st = Inr (g, set_queue q cq st)"
  using assms by (auto simp: idle_queue_def clReleaseCommandQueue_def ml_cmd_q_ref_cnt_down_def)

text \<open>The write with which a buffer is created goes through a queue of its own.\<close>

lemma write_through_ok:
  assumes env: "unimem_ready env" and g: "g \<noteq> ML_ERROR_CMDQ_RELEASED"
    and x: "o_mems (cq_objs st) m = Some x" "m_counter x \<notin> {0, -1}" and sz: "1 \<le> sz"
    and vm: "lx_vmalloc (e_linux env) (kernel_mem st) sz = (a, km)" "a \<noteq> 0"
    and h: "host_bytes (user_mem st) host sz bs"
  shows "\<exists>st'. completes env (write_through junk g m sz host er st) (Some m, if er then Some CL_SUCCESS else None) st' \<and>
    user_mem st' = user_mem st \<and> kernel_mem st' = filled km a bs \<and>
    o_mems (cq_objs st') m = Some (set_unimem_ptr x (ptr_of (block_at a sz)) sz)"
proof -
  obtain q st1 where q: "clCreateCommandQueue junk st = Inr (q, st1)" "idle_queue q st1"
      "o_mems (cq_objs st1) = o_mems (cq_objs st)" "ml_uni (cq_ml st1) = ml_uni (cq_ml st)"
    using create_queue_idle [of junk st] by blast
  have p: "o_mems (cq_objs st1) m = Some x" "lx_vmalloc (e_linux env) (kernel_mem st1) sz = (a, km)"
    "host_bytes (user_mem st1) host sz bs" using x(1) vm(1) h by (simp_all add: q(3,4))
  obtain st2 where w: "completes env (clEnqueueWriteBuffer g (Some q) (Some m) True 0 sz host False st1) (CL_SUCCESS, None) st2"
      "idle_queue q st2" "user_mem st2 = user_mem st1" "kernel_mem st2 = filled km a bs"
      "o_mems (cq_objs st2) m = Some (set_unimem_ptr x (ptr_of (block_at a sz)) sz)"
    using blocking_write_ok [OF env q(2) g p(1) x(2) sz p(2) vm(2) p(3), of 0] by (elim exE conjE) (rule that)
  obtain cq where r: "clReleaseCommandQueue 0 (Some q) st2 = Inr (0, set_queue q cq st2)"
    using release_idle_queue [OF w(2)] by blast
  define F where "F = (\<lambda>(rc :: int, _ :: ptr option) st2. bindr (clReleaseCommandQueue 0 (Some q) st2) (\<lambda>(_, st3).
      Inr (Done (Some m, if er then Some rc else None) st3)))"
  have "completes env (F (CL_SUCCESS, None) st2) (Some m, if er then Some CL_SUCCESS else None) (set_queue q cq st2)"
    using r by (auto simp: completes_def F_def intro: returns.at_once)
  from completes_bindr [of env _ "(CL_SUCCESS, None)" st2 F, OF w(1) this]
  have "completes env (write_through junk g m sz host er st) (Some m, if er then Some CL_SUCCESS else None) (set_queue q cq st2)"
    unfolding write_through_def q(1) F_def by simp
  then show ?thesis using w(3-5) q(4) by (intro exI [of _ "set_queue q cq st2"]) simp
qed

text \<open>A buffer created over the user's bytes holds them.\<close>

lemma create_buffer_ok:
  assumes env: "unimem_ready env" and g: "g \<noteq> ML_ERROR_CMDQ_RELEASED"
    and c: "o_contexts (cq_objs st) ctx = Some c" and sz: "1 \<le> sz"
    and fl: "fl AND CL_MEM_USE_HOST_PTR \<noteq> 0" "fl AND CL_MEM_ALLOC_HOST_PTR = 0"
    and vm: "lx_vmalloc (e_linux env) (kernel_mem st) sz = (a, km)" "a \<noteq> 0"
    and src: "mem_read (user_mem st) src (unat sz) = Some bs"
  shows "\<exists>m st'. completes env (clCreateBuffer junk g (Some ctx) fl sz (Some src) True st) (Some m, Some CL_SUCCESS) st' \<and>
    buffer_holds m bs st' \<and> user_mem st' = user_mem st"
proof -
  let ?o = "cq_objs st" and ?m = "o_next (cq_objs st)"
  let ?s2 = "?o\<lparr>o_next := Suc ?m, o_mems := (o_mems ?o)(?m \<mapsto> new_cl_mem), o_contexts := (o_contexts ?o)(ctx \<mapsto> snd (add_mem_obj c ?m))\<rparr>"
  let ?st2 = "with_objs ?s2 st"
  have "with_objs s (with_objs s' st) = with_objs s st" for s s' by (simp add: with_objs_def put_objs_def)
  then have e: "clCreateBuffer junk g (Some ctx) fl sz (Some src) True st = write_through junk g ?m sz (Some src) True ?st2"
    using c fl by (simp add: clCreateBuffer_def new_mem_obj_def fresh_def)
  have h: "host_bytes (user_mem ?st2) (Some src) sz (Some bs)" using src by (simp add: host_bytes_def)
  have x: "o_mems (cq_objs ?st2) ?m = Some new_cl_mem" "m_counter new_cl_mem \<notin> {0, -1}" by (simp_all add: new_cl_mem_def)
  have v: "lx_vmalloc (e_linux env) (kernel_mem ?st2) sz = (a, km)" using vm(1) by simp
  obtain st' where w: "completes env (write_through junk g ?m sz (Some src) True ?st2) (Some ?m, Some CL_SUCCESS) st'"
      "user_mem st' = user_mem ?st2" "kernel_mem st' = filled km a (Some bs)"
      "o_mems (cq_objs st') ?m = Some (set_unimem_ptr new_cl_mem (ptr_of (block_at a sz)) sz)"
    using write_through_ok [OF env g x sz v vm(2) h, of junk True] by auto
  have l: "length bs = unat sz" using src mem_read_length by blast
  have "buffer_holds ?m bs st'" by (rule buffer_written [OF w(4) x(2) w(3) l sz])
  then show ?thesis using w(1,2) unfolding e by (intro exI [of _ ?m] exI [of _ st']) simp
qed

section \<open>Start-up\<close>

lemma new_Global_services:
  "new_Global e st u = Inr g \<Longrightarrow> e_linux (g_env g) = se_linux e \<and> e_malloc_ok (g_env g) = se_malloc_ok e"
  by (auto simp: new_Global_def bindr_Inr_iff Let_def)

lemma first_cq_state_simps [simp]:
  "cq_ml (first_cq_state w) = w" "cq_queues (first_cq_state w) = Map.empty" "cq_sent (first_cq_state w) = {}"
  "cq_fed (first_cq_state w) = {}"
  by (simp_all add: first_cq_state_def)

lemma start_unimem:
  assumes "libev_ok (se_libev e)" and "can_start e config prs names" and "linux_ok (se_linux e)" and "se_malloc_ok e"
  shows "\<exists>g. new_Global e st u = Inr g \<and> unimem_ready (g_env g) \<and> ml_uni (g_ml g) = u \<and> e_linux (g_env g) = se_linux e"
proof -
  obtain g where g: "new_Global e st u = Inr g" "ml_uni (g_ml g) = u" "0 < m_fd (e_unimem (g_env g))"
    using new_Global_ok [OF assms(1,2), of st u] by (elim exE conjE) (rule that)
  then show ?thesis using new_Global_services [OF g(1)] assms(3,4) by (simp add: unimem_ready_def)
qed

section \<open>Properties\<close>

text \<open>C2: A session that moves memory, from start-up on: with a configuration the program can start
  from, an application creates a context, a buffer over its own bytes (\<open>CL_MEM_USE_HOST_PTR\<close>) and a
  command queue, and reads the buffer back with a blocking read. Every call returns success once
  the event loop has done its steps, and the bytes it reads are the bytes it gave.\<close>
theorem session_reads_back_host_bytes:
  assumes "libev_ok (se_libev e)" and "can_start e config prs names" and "linux_ok (se_linux e)" and "se_malloc_ok e"
    and g: "gb \<noteq> ML_ERROR_CMDQ_RELEASED" and sz: "1 \<le> sz"
    and fl: "fl AND CL_MEM_USE_HOST_PTR \<noteq> 0" "fl AND CL_MEM_ALLOC_HOST_PTR = 0"
    and vm: "lx_vmalloc (se_linux e) (d_kmem (uw_driver u)) sz = (a, km)" "a \<noteq> 0"
    and src: "mem_read (uw_user u) src (unat sz) = Some bs" and dst: "mem_read (uw_user u) dst (unat sz) \<noteq> None"
  shows "\<exists>g ctx st1 m st2 q st3 st4. new_Global e st u = Inr g \<and>
    clCreateContext True (first_cq_state (g_ml g)) = (ctx, Some CL_SUCCESS, st1) \<and>
    completes (g_env g) (clCreateBuffer junk gb (Some ctx) fl sz (Some src) True st1) (Some m, Some CL_SUCCESS) st2 \<and>
    clCreateCommandQueue junk st2 = Inr (q, st3) \<and>
    completes (g_env g) (clEnqueueReadBuffer gb (Some q) (Some m) True off sz (Some dst) False st3) (CL_SUCCESS, None) st4 \<and>
    mem_read (user_mem st4) dst (unat sz) = Some bs"
proof -
  obtain gl where gl: "new_Global e st u = Inr gl" "unimem_ready (g_env gl)" "ml_uni (g_ml gl) = u"
      "e_linux (g_env gl) = se_linux e"
    using start_unimem [OF assms(1-4), of st u] by blast
  let ?st0 = "first_cq_state (g_ml gl)"
  obtain ctx st1 c where ctx: "clCreateContext True ?st0 = (ctx, Some CL_SUCCESS, st1)" "o_contexts (cq_objs st1) ctx = Some c"
      "ml_uni (cq_ml st1) = u"
    by (simp add: clCreateContext_def fresh_def gl(3))
  have vm1: "lx_vmalloc (e_linux (g_env gl)) (kernel_mem st1) sz = (a, km)" using vm(1) by (simp add: gl(4) ctx(3))
  have src1: "mem_read (user_mem st1) src (unat sz) = Some bs" using src by (simp add: ctx(3))
  obtain m st2 where b: "completes (g_env gl) (clCreateBuffer junk gb (Some ctx) fl sz (Some src) True st1) (Some m, Some CL_SUCCESS) st2"
      "buffer_holds m bs st2" "user_mem st2 = user_mem st1"
    using create_buffer_ok [OF gl(2) g ctx(2) sz fl vm1 vm(2) src1, of junk] by (elim exE conjE) (rule that)
  obtain q st3 where q: "clCreateCommandQueue junk st2 = Inr (q, st3)" "idle_queue q st3"
      "o_mems (cq_objs st3) = o_mems (cq_objs st2)" "ml_uni (cq_ml st3) = ml_uni (cq_ml st2)"
    using create_queue_idle [of junk st2] by blast
  have b3: "buffer_holds m bs st3" using b(2) buffer_holds_cong [OF _ q(4)] q(3) by simp
  have l: "length bs = unat sz" using src mem_read_length by blast
  have d: "mem_read (user_mem st3) dst (length bs) \<noteq> None" using dst l by (simp add: q(4) b(3) ctx(3))
  obtain st4 where r: "completes (g_env gl) (clEnqueueReadBuffer gb (Some q) (Some m) True off (of_nat (length bs)) (Some dst) False st3)
      (CL_SUCCESS, None) st4" "user_mem st4 = mem_write (user_mem st3) dst bs"
    using blocking_read_ok [OF gl(2) q(2) g b3 d, of off] by (elim exE conjE) (rule that)
  have "mem_read (user_mem st4) dst (unat sz) = Some bs"
    unfolding r(2) l [symmetric] by (rule mem_read_write_same) (use mem_read_bound [of sz] l in simp)
  moreover have "of_nat (length bs) = sz" by (simp add: l)
  note r(1) [unfolded this]
  ultimately show ?thesis using gl(1) ctx(1) b(1) q(1) by blast
qed

theorem session_reads_back_host_bytes_witness:
  "\<exists>g st2 st4 m q st3. new_Global demo_start_env demo_store demo_uw = Inr g \<and>
    clCreateCommandQueue (\<lambda>_. undefined) st2 = Inr (q, st3) \<and>
    completes (g_env g) (clEnqueueReadBuffer ML_SUCCESS (Some q) (Some m) True 0 3 (Some 200) False st3) (CL_SUCCESS, None) st4 \<and>
    mem_read (user_mem st4) 200 3 = Some [1, 2, 3]"
proof -
  have p: "libev_ok (se_libev demo_start_env)" "linux_ok (se_linux demo_start_env)" "se_malloc_ok demo_start_env"
    by (simp_all add: demo_start_env_def demo_libev_ok demo_linux_ok)
  have fl: "(8 :: u64) AND CL_MEM_USE_HOST_PTR \<noteq> 0" "(8 :: u64) AND CL_MEM_ALLOC_HOST_PTR = 0"
    by (simp_all add: CL_MEM_USE_HOST_PTR_def CL_MEM_ALLOC_HOST_PTR_def)
  have vm: "lx_vmalloc (se_linux demo_start_env) (d_kmem (uw_driver demo_uw)) 3 =
      (4096, mem_write Map.empty 4096 (replicate (unat (3 :: u64)) 0))"
    by (simp add: demo_start_env_def demo_vmalloc)
  have rd: "mem_read (uw_user demo_uw) 100 (unat (3 :: u64)) = Some [1, 2, 3]" "mem_read (uw_user demo_uw) 200 (unat (3 :: u64)) \<noteq> None"
    using demo_user_reads by simp_all
  show ?thesis
    using session_reads_back_host_bytes [OF p(1) demo_can_start p(2,3) _ _ fl vm _ rd,
        of ML_SUCCESS demo_store "\<lambda>_. undefined" 0] by fastforce
qed

end
