(* ===== verification/Launch_Session.thy ===== *)
theory Launch_Session
  imports Ocl_Props Queue_Launch Sessions
begin

text \<open>
  A whole session that launches a kernel, from start-up to the completed event: the calls that make
  the program, the kernel and the queue, the launch, the queue's callback, and the timers of the
  schedulers in any order.
\<close>

section \<open>Enqueueing a launch\<close>

lemma enqueue_kernel_ok:
  assumes q: "cq_queues st q = Some cq" "ca_wf (q_ring_buffer cq)" "ca_list (q_ring_buffer cq) = []"
      "0 < ca_bound (q_ring_buffer cq)" "1 \<le> q_ref_counter cq"
    and g: "gb \<noteq> ML_ERROR_CMDQ_RELEASED"
    and k: "o_kernels (cq_objs st) kp = Some k" "k_program k = Some pp" "o_programs (cq_objs st) pp = Some prog"
    and l: "ml_check_wg_size env (m_xml_name prog) l = FPML_SUCCESS" "1 \<le> l" "gs mod l = 0"
  shows "\<exists>st' r n. clEnqueueNDRangeKernel env gb (Some q) (Some kp) 1 goff (Some gs) (Some l) st = Inr (CL_SUCCESS, st') \<and>
    cq_ml st' = put_objs ((cq_objs st)\<lparr>o_next := Suc (o_next (cq_objs st)),
      o_events := (o_events (cq_objs st))(o_next (cq_objs st) \<mapsto> new_cl_event),
      o_kernels := (o_kernels (cq_objs st))(kp \<mapsto> ref_cnt_up k)\<rparr>) (cq_ml st) \<and>
    cq_queues st' = (cq_queues st)(q \<mapsto> cq\<lparr>q_ring_buffer := r\<rparr>) \<and> ca_wf r \<and>
    ca_list r = [\<lparr>m_command_type = NDRANGE, m_command_id = n, m_event = Some (o_next (cq_objs st)),
      m_body = NDR (Some kp) 1 (case goff of None \<Rightarrow> [0, 0, 0] | Some x \<Rightarrow> [x, 0, 0]) [gs, 1, 1] [l, 0, 0]\<rparr>] \<and>
    q \<in> cq_sent st'"
proof -
  let ?o = "cq_objs st" and ?e = "o_next (cq_objs st)" and ?n = "cq_command_id st + 1"
  define c where "c = \<lparr>m_command_type = NDRANGE, m_command_id = sint ?n, m_event = Some ?e,
      m_body = NDR (Some kp) 1 (case goff of None \<Rightarrow> [0, 0, 0] | Some x \<Rightarrow> [x, 0, 0]) [gs, 1, 1] [l, 0, 0]\<rparr>"
  let ?s = "?o\<lparr>o_next := Suc ?e, o_events := (o_events ?o)(?e \<mapsto> new_cl_event), o_kernels := (o_kernels ?o)(kp \<mapsto> ref_cnt_up k)\<rparr>"
  have new: "new_MLCLCommandNDR (Some kp) 1 goff (Some gs) (Some l) ?o = Inr (c\<lparr>m_command_id := 0\<rparr>, ?s)"
    using k(1) by (simp add: new_MLCLCommandNDR_def new_mlcl_command_def fresh_def kernel_up_def heap_up_def c_def)
  obtain y r where r: "ca_push_back (q_ring_buffer cq) c False = Inr (y, r)" "ca_wf r" "ca_list r = [c]"
    using ca_push_back_room [OF q(2), of c False] q(3,4) by auto
  have id: "set_command_id (c\<lparr>m_command_id := 0\<rparr>) (sint ?n) = c" by (simp add: set_command_id_def c_def)
  have "\<not> l < 1" using l(2) by (simp only: not_less)
  then have "\<exists>st'. clEnqueueNDRangeKernel env gb (Some q) (Some kp) 1 goff (Some gs) (Some l) st = Inr (CL_SUCCESS, st') \<and>
      cq_ml st' = put_objs ?s (cq_ml st) \<and> cq_queues st' = (cq_queues st)(q \<mapsto> cq\<lparr>q_ring_buffer := r\<rparr>) \<and> q \<in> cq_sent st'"
    using k l(1,3) new id r(1) q(1,5) g
    by (simp add: clEnqueueNDRangeKernel_def ml_submit_cmd_def cq_push_back_def with_objs_def set_queue_def Let_def)
  then show ?thesis using r(2,3) c_def by blast
qed

section \<open>The first launch\<close>

text \<open>
  What start-up leaves to launches: \<open>start_ready env name K w\<close> says that no launch is under way and
  a launch of \<open>K\<close> groups can be priced.
\<close>

definition start_ready :: "ml_env \<Rightarrow> string \<Rightarrow> nat \<Rightarrow> ml_state \<Rightarrow> bool" where
  "start_ready env name K w \<longleftrightarrow>
     sched_inv (ml_sched w) \<and> ns_ndranges (ss_store (ml_sched w)) = Map.empty \<and> concat (queues (ml_sched w)) = [] \<and>
     prices_ok (e_tracker env) name (ml_sched w) (int K) \<and>
     algo_wf (ml_simple w) (length (ss_schedulers (ml_sched w))) \<and>
     0 < length (ss_schedulers (ml_sched w)) \<and> length (ss_schedulers (ml_sched w)) \<le> 89"

lemma start_ready_put_objs [simp]: "start_ready env name K (put_objs s w) \<longleftrightarrow> start_ready env name K w"
  by (simp add: start_ready_def put_objs_def prices_ok_store)

lemma first_kernel_queued:
  assumes w: "start_ready env name K (cq_ml st)" and K: "K = unat (ucast (gs div l) :: u32)" "0 < K" "int K < int_max" "l \<noteq> 0"
    and q: "cq_queues st q = Some cq" "ca_wf (q_ring_buffer cq)" "ca_list (q_ring_buffer cq) = [c]" "q_last_event cq = None"
    and c: "c = \<lparr>m_command_type = NDRANGE, m_command_id = n, m_event = Some e, m_body = NDR (Some kp) wd off [gs, 1, 1] [l, 0, 0]\<rparr>"
    and o: "o_kernels (cq_objs st) kp = Some k" "m_counter k \<notin> {0, -1}" "k_program k = Some pp"
      "o_programs (cq_objs st) pp = Some prog" "m_xml_name prog = name" "o_events (cq_objs st) e = Some new_cl_event"
  shows "kernel_queued env q cq c [] e st"
proof -
  let ?w = "ml_sched (cq_ml st)"
  have nd: "ns_ndranges (ss_store ?w) = Map.empty" and qs: "concat (queues ?w) = []" and inv: "sched_inv ?w"
    using w by (simp_all add: start_ready_def)
  have li: "launches_inv ?w" by (rule launches_inv_start [OF nd qs])
  have held: "kernels_held (ss_store ?w) = Map.empty" by (simp add: kernels_held_def nd fun_eq_iff)
  have "unat (m_counter k) \<noteq> 0" using o(2) by (metis insert_iff unat_eq_zero)
  then have kc: "card {p. kernels_held (ss_store ?w) p = Some kp} < unat (m_counter k)" by (simp add: held)
  have ln: "length (queues ?w ! i) < 100" if "i < length (ss_schedulers ?w)" for i
  proof -
    have "queues ?w ! i \<in> set (queues ?w)" using that by (intro nth_mem) (simp add: queues_def)
    then have "queues ?w ! i = []" using qs by (simp only: concat_eq_Nil_conv)
    then show ?thesis by simp
  qed
  have ready: "command_ready env kp [gs, 1, 1] [l, 0, 0] e name
      (put_objs ((cq_objs st)\<lparr>o_events := (o_events (cq_objs st))(e \<mapsto> taken q new_cl_event)\<rparr>) (cq_ml st))"
    using w K o ln unfolding start_ready_def command_ready_def Let_def
    by (simp add: put_objs_def prices_ok_store taken_def new_cl_event_def nd)
  show ?thesis
    unfolding kernel_queued_def
  proof (intro conjI allI impI)
    show "\<exists>kp wdim goff gs ls ev k name. m_command_type c = NDRANGE \<and> m_body c = NDR (Some kp) wdim goff gs ls \<and>
        m_event c = Some e \<and> o_events (cq_objs st) e = Some ev \<and> m_counter ev \<notin> {0, -1} \<and> m_event_state ev \<noteq> CL_COMPLETE \<and>
        o_kernels (cq_objs st) kp = Some k \<and> card {p. kernels_held (ss_store ?w) p = Some kp} < unat (m_counter k) \<and>
        command_ready env kp gs ls e name
          (put_objs ((cq_objs st)\<lparr>o_events := (o_events (cq_objs st))(e \<mapsto> taken q ev)\<rparr>) (cq_ml st))"
      by (rule exI [of _ kp], rule exI [of _ wd], rule exI [of _ off], rule exI [of _ "[gs, 1, 1]"], rule exI [of _ "[l, 0, 0]"],
          rule exI [of _ new_cl_event], rule exI [of _ k], rule exI [of _ name], intro conjI ready kc)
        (simp_all add: c o new_cl_event_def cl_codes)
  qed (use q inv li nd in simp_all)
qed

section \<open>Start-up\<close>

lemma start_bits:
  assumes c: "can_start e config prs names" and b: "new_BitstreamManager (se_bs e) config = Inr bits"
  shows "smap_wf (m_kernel_bitstream_struct_map bits)"
    and "map_of (m_kernel_bitstream_struct_map bits) name = Some d \<Longrightarrow> name \<in> set (m_xml_files_list bits)"
proof -
  obtain dir mmap where d: "snd (get_value_for_key_str config ''BitstreamsPath'' None) = Some dir"
      "snd (get_value_for_key_bool config ''EnableBitstreamMmap'' False) = mmap"
      "env_readdir (se_bs e) dir = Some names" "names_ok names"
      "\<forall>s\<in>set names. is_description s \<longrightarrow> document (se_bs e) mmap (dir @ ''/'' @ s) \<noteq> None"
    using c unfolding can_start_def by (elim conjE exE) (rule that)
  obtain m where m: "read_xml_files (se_bs e) (empty_manager dir mmap) = Inr (ML_SUCCESS, m)"
      "m_xml_files_list m = filter is_description names" "smap_wf (m_kernel_bitstream_struct_map m)"
      "\<forall>f. map_of (m_kernel_bitstream_struct_map m) f =
        (if f \<in> set (filter is_description names)
         then Some (extract_bitstream mmap (the (document (se_bs e) mmap (dir @ ''/'' @ f)))) else None)"
    using read_xml_files_ok [OF d(3-5)] by (elim exE conjE) (rule that)
  have e: "bits = m" using b m(1) new_BitstreamManager_read [OF d(1,2), of "se_bs e"] by simp
  show "smap_wf (m_kernel_bitstream_struct_map bits)" using m(3) e by simp
  show "name \<in> set (m_xml_files_list bits)" if "map_of (m_kernel_bitstream_struct_map bits) name = Some d"
  proof (rule ccontr)
    assume "name \<notin> set (m_xml_files_list bits)"
    then show False using that m(2,4) unfolding e by (auto split: if_splits)
  qed
qed

lemma new_Global_bits:
  assumes "new_Global e st u = Inr g" and "can_start e config prs names" and "new_BitstreamManager (se_bs e) config = Inr bits"
  shows "e_bits (g_env g) = bits"
proof -
  have "new_WeeConfig (se_load_file e) (se_getenv e ''FPGAML_CONFIG_PATH'') (Some ''ConfigParams'') = Inr config"
    using assms(2) by (simp add: can_start_def)
  then show ?thesis using assms(1,3) by (auto simp: new_Global_def bindr_Inr_iff Let_def)
qed

text \<open>
  What the user of a session relies on: enough is configured for a launch of \<open>gs\<close> items in groups of
  \<open>l\<close>, and the kernel's description is in the directory.
\<close>

definition can_launch :: "start_env \<Rightarrow> wee_config \<Rightarrow> tuple_3 list \<Rightarrow> string list \<Rightarrow> string \<Rightarrow> u64 \<Rightarrow> u64 \<Rightarrow> bool" where
  "can_launch e config prs names name gs l \<longleftrightarrow>
     libev_ok (se_libev e) \<and> can_start e config prs names \<and> prs \<noteq> [] \<and> length prs \<le> 89 \<and> se_junk_end e \<le> se_now e \<and>
     gs mod l = 0 \<and> 1 \<le> l \<and>
     (let K = unat (ucast (gs div l) :: u32) in 0 < K \<and> int K < int_max \<and>
       (\<exists>bits d. new_BitstreamManager (se_bs e) config = Inr bits \<and>
          map_of (m_kernel_bitstream_struct_map bits) name = Some d \<and> ucast (wgroup_size d) = l \<and>
          int K * int (top_price bits name) < 2 ^ 31))"

lemma start_for_launch:
  assumes l: "can_launch e config prs names name gs l" and nd: "ns_ndranges st = Map.empty"
  shows "\<exists>g. new_Global e st u = Inr g \<and> start_ready (g_env g) name (unat (ucast (gs div l) :: u32)) (g_ml g) \<and>
    length (ss_schedulers (ml_sched (g_ml g))) = length prs \<and> e_libev (g_env g) = se_libev e \<and>
    name \<in> set (m_xml_files_list (e_bits (g_env g))) \<and> ml_check_wg_size (g_env g) name l = FPML_SUCCESS"
proof -
  let ?K = "unat (ucast (gs div l) :: u32)"
  obtain bits d where b: "new_BitstreamManager (se_bs e) config = Inr bits" "map_of (m_kernel_bitstream_struct_map bits) name = Some d"
      "ucast (wgroup_size d) = l" "int ?K * int (top_price bits name) < 2 ^ 31"
    and c: "libev_ok (se_libev e)" "can_start e config prs names" "prs \<noteq> []" "length prs \<le> 89" "se_junk_end e \<le> se_now e"
      "1 \<le> l" "0 < ?K"
    using l unfolding can_launch_def Let_def by blast
  obtain g where g: "new_Global e st u = Inr g" "sched_inv (ml_sched (g_ml g))"
      "ss_store (ml_sched (g_ml g)) = st" "queues (ml_sched (g_ml g)) = map (\<lambda>_. []) prs"
      "map s_id (ss_schedulers (ml_sched (g_ml g))) = map (\<lambda>(b, f, p). scheduler_id b f p) prs"
      "algo_wf (ml_simple (g_ml g)) (length prs)" "e_libev (g_env g) = se_libev e"
      "e_tracker (g_env g) = new_Tracker (e_bits (g_env g)) (map (\<lambda>(b, f, p). b = 0 \<and> f = 1) prs)"
      "ss_now (ml_sched (g_ml g)) = se_now e"
      "free_ids (ss_free (ml_sched (g_ml g))) = map (\<lambda>(b, f, p). scheduler_id b f p) prs"
      "\<forall>s\<in>set (ss_schedulers (ml_sched (g_ml g))). s_end_time s = se_junk_end e \<and> \<not> s_mock_would_need_reconf s"
    using new_Global_ok [OF c(1,2), of st u] by (elim exE conjE) (rule that)
  let ?w = "ml_sched (g_ml g)"
  note wf = start_bits(1) [OF c(2) b(1)]
  have bits: "e_bits (g_env g) = bits" by (rule new_Global_bits [OF g(1) c(2) b(1)])
  have n: "length (ss_schedulers ?w) = length prs" using g(5) by (metis length_map)
  have "prices_ok (e_tracker (g_env g)) name ?w (int ?K)"
    unfolding g(8) bits by (rule start_prices [OF wf]) (use g(9,11) c b(4) n in auto)
  then have r: "start_ready (g_env g) name ?K (g_ml g)"
    using g(2,3,4,6) nd n c(3,4) by (simp add: start_ready_def)
  have "l \<noteq> 0" using c(6) by auto
  then have "check_wg_size (new_WorkGroupSizeCheck (m_kernel_bitstream_struct_map bits)) name l"
    using wg_size_table [OF wf, of name] b(2,3) by (auto simp: check_wg_size_def wg_size_pos split: option.splits if_splits)
  then have "ml_check_wg_size (g_env g) name l = FPML_SUCCESS" by (simp add: ml_check_wg_size_def bits)
  then show ?thesis using g(1,7) r n start_bits(2) [OF c(2) b(1,2)] bits by blast
qed

section \<open>Making a kernel\<close>

lemma with_objs_twice: "with_objs s (with_objs t st) = with_objs s st"
  by (simp add: with_objs_def put_objs_def)

lemma make_kernel_ok:
  assumes src: "\<forall>c\<in>set name. c \<notin> {CHR 0x00, CHR 0x0A, CHR ''/'', CHR '' ''}" "CHR 0x00 \<notin> set body"
      "src = ''//'' @ name @ [CHR 0x0A] @ body @ [CHR 0x00]" "length src \<le> 2 ^ 64" and n: "length name \<le> 61"
    and f: "name \<in> set (m_xml_files_list (e_bits env))"
  shows "\<exists>pp st1 st2 kp st3 s prog. clCreateProgramWithSource (Some ctx) 1 (Some (Some src)) None True st = Inr (Some pp, None, st1) \<and>
    clBuildProgram env (Some pp) st1 = Inr (CL_SUCCESS, st2) \<and> clCreateKernel (Some pp) True st2 = (Some kp, None, st3) \<and>
    st3 = with_objs s st \<and> o_kernels s kp = Some (new_cl_kernel (Some pp)) \<and> o_programs s pp = Some prog \<and> m_xml_name prog = name"
proof -
  let ?pp = "o_next (cq_objs st)"
  obtain prog where c: "clCreateProgramWithSource (Some ctx) 1 (Some (Some src)) None True st = Inr (Some ?pp, None,
        with_objs ((cq_objs st)\<lparr>o_next := Suc ?pp, o_programs := (o_programs (cq_objs st))(?pp \<mapsto> prog)\<rparr>) st)"
      "m_xml_name prog = name"
    using create_program_ok [OF src, of 1 ctx True st] n by auto
  let ?s1 = "(cq_objs st)\<lparr>o_next := Suc ?pp, o_programs := (o_programs (cq_objs st))(?pp \<mapsto> prog)\<rparr>"
  have p1: "o_programs (cq_objs (with_objs ?s1 st)) ?pp = Some prog" by simp
  obtain log where b: "clBuildProgram env (Some ?pp) (with_objs ?s1 st) = Inr (CL_SUCCESS,
      with_objs (?s1\<lparr>o_programs := (o_programs ?s1)(?pp \<mapsto> prog\<lparr>m_build_log := log\<rparr>)\<rparr>) st)"
    using build_program_ok [OF p1, of env] f c(2) by (auto simp: with_objs_twice)
  let ?s2 = "?s1\<lparr>o_programs := (o_programs ?s1)(?pp \<mapsto> prog\<lparr>m_build_log := log\<rparr>)\<rparr>"
  let ?s3 = "?s2\<lparr>o_next := Suc (o_next ?s2), o_kernels := (o_kernels ?s2)(o_next ?s2 \<mapsto> new_cl_kernel (Some ?pp))\<rparr>"
  have k: "clCreateKernel (Some ?pp) True (with_objs ?s2 st) = (Some (o_next ?s2), None, with_objs ?s3 st)"
    by (simp add: clCreateKernel_def fresh_def with_objs_twice)
  show ?thesis
    by (rule exI [of _ ?pp], rule exI [of _ "with_objs ?s1 st"], rule exI [of _ "with_objs ?s2 st"], rule exI [of _ "o_next ?s2"],
        rule exI [of _ "with_objs ?s3 st"], rule exI [of _ ?s3], rule exI [of _ "prog\<lparr>m_build_log := log\<rparr>"],
        intro conjI c(1) b k) (simp_all add: c(2))
qed

section \<open>From the enqueued launch to its end\<close>

lemma launch_loop:
  assumes lv: "libev_ok (e_libev env)" and d: "kernel_queued env q cq c [] e st" and r: "1 \<le> q_ref_counter cq"
    and nd: "ns_ndranges (ss_store (ml_sched (cq_ml st))) = Map.empty" and sent: "q \<in> cq_sent st"
  shows "\<exists>st'. (loop_step env ^^ 2) st st' \<and>
    (\<forall>is. set is \<subseteq> {..<length (ss_schedulers (ml_sched (cq_ml st)))} \<and>
       (\<forall>i<length (ss_schedulers (ml_sched (cq_ml st))). count_list is i = length (queues (ml_sched (cq_ml st')) ! i)) \<longrightarrow>
       (\<exists>st2. expire_timers env is st' = Some (Inr st2) \<and> q \<in> cq_fed st2 \<and>
          ns_ndranges (ss_store (ml_sched (cq_ml st2))) (o_next (cq_objs st)) = None \<and>
          event_state (cq_objs st2) e = Inr CL_COMPLETE))"
proof -
  define sta where "sta = st\<lparr>cq_sent := cq_sent st - {q}, cq_fed := insert q (cq_fed st)\<rparr>"
  define stb where "stb = sta\<lparr>cq_fed := cq_fed sta - {q}\<rparr>"
  have b: "cq_ml stb = cq_ml st" "cq_queues stb = cq_queues st" by (simp_all add: stb_def sta_def)
  have kq: "kernel_queued env q cq c [] e stb" using d by (simp add: kernel_queued_def b)
  have cb: "callbacks_in (live_callbacks stb) (ss_store (ml_sched (cq_ml stb)))" by (simp add: callbacks_in_def b nd)
  obtain st1 where s: "on_new_cmd_cb env q stb = Inr st1"
    "\<forall>is. set is \<subseteq> {..<length (ss_schedulers (ml_sched (cq_ml st)))} \<and>
       (\<forall>i<length (ss_schedulers (ml_sched (cq_ml st))). count_list is i = length (queues (ml_sched (cq_ml st1)) ! i)) \<longrightarrow>
       (\<exists>st2 cq2. expire_timers env is st1 = Some (Inr st2) \<and> q \<in> cq_fed st2 \<and>
          cq_queues st2 q = Some cq2 \<and> q_last_event cq2 = Some e \<and> ca_list (q_ring_buffer cq2) = [] \<and>
          ns_ndranges (ss_store (ml_sched (cq_ml st2))) (o_next (cq_objs st)) = None \<and>
          event_state (cq_objs st2) e = Inr CL_COMPLETE)"
    using kernel_served [OF lv kq r cb] unfolding b by blast
  have "loop_step env st sta" unfolding sta_def by (rule loop_step.collect [OF sent])
  moreover have "loop_step env sta st1"
    by (rule loop_step.serve [of q]) (simp add: sta_def, unfold serve_watcher_def, fold stb_def, rule s(1))
  ultimately have "(loop_step env ^^ 2) st st1" unfolding numeral_2_eq_2 by auto
  then show ?thesis using s(2) by blast
qed

section \<open>Examples\<close>

text \<open>The shipped configuration with one bitstream description in its directory.\<close>

definition demo_names :: "string list" where
  "demo_names = [''.'', ''..'', ''k.xml'', ''notes'']"

definition demo_launch_env :: start_env where
  "demo_launch_env = demo_start_env\<lparr>se_bs := \<lparr>env_readdir = (\<lambda>_. Some demo_names), env_mmap = (\<lambda>_. Some ''text''),
     env_load_file = (\<lambda>_. Some demo_doc), env_load_string = (\<lambda>_. Some demo_doc)\<rparr>\<rparr>"

abbreviation demo_config_top :: wee_config where
  "demo_config_top \<equiv> \<lparr>m_top_node = Some demo_config_node\<rparr>"

lemma demo_directory:
  "snd (get_value_for_key_str demo_config_top ''BitstreamsPath'' None) = Some ''/home/bitstreams''"
  "env_readdir (se_bs demo_launch_env) ''/home/bitstreams'' = Some demo_names" "names_ok demo_names"
  "\<forall>s\<in>set demo_names. is_description s \<longrightarrow> document (se_bs demo_launch_env) mmap (''/home/bitstreams'' @ ''/'' @ s) \<noteq> None"
  using demo_env_facts(5)
  by (simp_all add: demo_config_node_def default_config_xml_def get_value_for_key_str_def demo_launch_env_def demo_names_def
      document_def)

lemma demo_can_start_launch: "can_start demo_launch_env demo_config_top demo_regions demo_names"
proof -
  have f: "se_load_file demo_launch_env = se_load_file demo_start_env" "se_getenv demo_launch_env = se_getenv demo_start_env"
    "se_open_dev demo_launch_env = se_open_dev demo_start_env"
    by (simp_all add: demo_launch_env_def)
  show ?thesis
    using demo_can_start demo_directory unfolding can_start_def f by blast
qed

lemma demo_can_launch: "can_launch demo_launch_env demo_config_top demo_regions demo_names ''k.xml'' 32 16"
proof -
  let ?mmap = "snd (get_value_for_key_bool demo_config_top ''EnableBitstreamMmap'' False)"
  obtain m where m: "read_xml_files (se_bs demo_launch_env) (empty_manager ''/home/bitstreams'' ?mmap) = Inr (ML_SUCCESS, m)"
      "\<forall>f. map_of (m_kernel_bitstream_struct_map m) f =
        (if f \<in> set (filter is_description demo_names)
         then Some (extract_bitstream ?mmap (the (document (se_bs demo_launch_env) ?mmap (''/home/bitstreams'' @ ''/'' @ f)))) else None)"
    using read_xml_files_ok [OF demo_directory(2,3,4)] by blast
  have b: "new_BitstreamManager (se_bs demo_launch_env) demo_config_top = Inr m"
    using new_BitstreamManager_read [OF demo_directory(1) refl] m(1) by simp
  have d: "document (se_bs demo_launch_env) ?mmap f = Some demo_doc" for f
    by (simp add: document_def demo_launch_env_def)
  have "set (filter is_description demo_names) = {''k.xml''}" using demo_env_facts(6) by (simp add: demo_names_def)
  then have k: "map_of (m_kernel_bitstream_struct_map m) ''k.xml'' = Some (extract_bitstream ?mmap demo_doc)"
    using m(2) d by simp
  have p: "wgroup_size (extract_bitstream ?mmap demo_doc) = 16" "local_cost (extract_bitstream ?mmap demo_doc) = 5"
    "remote_cost (extract_bitstream ?mmap demo_doc) = 9"
    by (simp_all add: extract_bitstream_def demo_doc_def data_header_def atoi_def read_integer_def c_space_def digit_val_def digits_nat_def)
  have t: "top_price m ''k.xml'' = 9" using k p(2,3) by (simp add: top_price_def)
  have e: "libev_ok (se_libev demo_launch_env)" "se_junk_end demo_launch_env \<le> se_now demo_launch_env"
    by (simp_all add: demo_launch_env_def demo_start_env_def demo_libev_ok)
  have r: "demo_regions \<noteq> []" "length demo_regions \<le> 89" by (simp_all add: demo_regions_def)
  show ?thesis
    unfolding can_launch_def Let_def
    by (intro conjI e demo_can_start_launch r exI [of _ m] exI [of _ "extract_bitstream ?mmap demo_doc"] b k)
      (simp_all add: p(1) t)
qed

section \<open>Properties\<close>

text \<open>C1: A session that runs a kernel, from start-up on. It needs what \<open>can_launch\<close> lists: start-up
  succeeds with 1 to 89 regions; the bitstream directory has the kernel's description; the number
  of items is a multiple of its group size and gives at least one group; the price of all
  groups at the higher of the two costs fits an \<open>int\<close>; and the end times of the schedulers, which
  their constructor leaves uninitialised, happen not to lie in the future. Then an application
  makes a program from a source that names the description, builds it, creates a kernel and a
  queue, and enqueues a launch; every call returns success. Two steps of the loop collect the
  queue's signal and serve the command; then, in whatever order the schedulers' timers expire, as
  often as ranges are queued for each, every timer that is to expire runs, nothing faults, and
  in the end the launch's event is complete, its index space is deleted and the queue is marked
  to go on.\<close>
theorem session_runs_kernel:
  assumes launch: "can_launch e config prs names name gs l" and nd: "ns_ndranges st = Map.empty"
    and g: "gb \<noteq> ML_ERROR_CMDQ_RELEASED"
    and src: "\<forall>c\<in>set name. c \<notin> {CHR 0x00, CHR 0x0A, CHR ''/'', CHR '' ''}" "CHR 0x00 \<notin> set body"
      "src = ''//'' @ name @ [CHR 0x0A] @ body @ [CHR 0x00]" "length src \<le> 2 ^ 64" "length name \<le> 61"
  shows "\<exists>gl pp st1 st2 kp st3 q st4 st5 st6. new_Global e st u = Inr gl \<and>
    clCreateProgramWithSource (Some ctx) 1 (Some (Some src)) None True (first_cq_state (g_ml gl)) = Inr (Some pp, None, st1) \<and>
    clBuildProgram (g_env gl) (Some pp) st1 = Inr (CL_SUCCESS, st2) \<and>
    clCreateKernel (Some pp) True st2 = (Some kp, None, st3) \<and>
    clCreateCommandQueue junk st3 = Inr (q, st4) \<and>
    clEnqueueNDRangeKernel (g_env gl) gb (Some q) (Some kp) 1 goff (Some gs) (Some l) st4 = Inr (CL_SUCCESS, st5) \<and>
    (loop_step (g_env gl) ^^ 2) st5 st6 \<and>
    (\<forall>is. set is \<subseteq> {..<length prs} \<and> (\<forall>i<length prs. count_list is i = length (queues (ml_sched (cq_ml st6)) ! i)) \<longrightarrow>
       (\<exists>st7. expire_timers (g_env gl) is st6 = Some (Inr st7) \<and> q \<in> cq_fed st7 \<and>
          ns_ndranges (ss_store (ml_sched (cq_ml st7))) (o_next (cq_objs st5)) = None \<and>
          event_state (cq_objs st7) (o_next (cq_objs st4)) = Inr CL_COMPLETE))"
proof -
  let ?K = "unat (ucast (gs div l) :: u32)"
  have K: "0 < ?K" "int ?K < int_max" "1 \<le> l" "gs mod l = 0" and lv: "libev_ok (se_libev e)"
    using launch unfolding can_launch_def Let_def by blast+
  have l0: "l \<noteq> 0" using K(3) by auto
  obtain gl where gl: "new_Global e st u = Inr gl" "start_ready (g_env gl) name ?K (g_ml gl)"
      "length (ss_schedulers (ml_sched (g_ml gl))) = length prs" "e_libev (g_env gl) = se_libev e"
      "name \<in> set (m_xml_files_list (e_bits (g_env gl)))" "ml_check_wg_size (g_env gl) name l = FPML_SUCCESS"
    using start_for_launch [OF launch nd, of u] by (elim exE conjE) (rule that)
  let ?st0 = "first_cq_state (g_ml gl)"
  obtain pp st1 st2 kp st3 s prog where p: "clCreateProgramWithSource (Some ctx) 1 (Some (Some src)) None True ?st0 = Inr (Some pp, None, st1)"
      "clBuildProgram (g_env gl) (Some pp) st1 = Inr (CL_SUCCESS, st2)" "clCreateKernel (Some pp) True st2 = (Some kp, None, st3)"
    and k: "st3 = with_objs s ?st0" "o_kernels s kp = Some (new_cl_kernel (Some pp))" "o_programs s pp = Some prog" "m_xml_name prog = name"
    using make_kernel_ok [OF src gl(5), of ctx ?st0] by (elim exE conjE) (rule that)
  let ?q = "o_next (cq_objs st3)"
  obtain r where q: "clCreateCommandQueue junk st3 = Inr (?q, set_queue ?q \<lparr>q_ring_buffer = r, q_ref_counter = 1, q_last_event = None\<rparr>
      (with_objs ((cq_objs st3)\<lparr>o_next := Suc ?q\<rparr>) st3))" "ca_wf r" "ca_list r = []" "ca_bound r = 100"
    using create_queue_ok [of junk st3] by blast
  let ?cq = "\<lparr>q_ring_buffer = r, q_ref_counter = 1, q_last_event = None\<rparr>"
  define st4 where "st4 = set_queue ?q ?cq (with_objs ((cq_objs st3)\<lparr>o_next := Suc ?q\<rparr>) st3)"
  let ?e = "o_next (cq_objs st4)"
  have q4: "cq_queues st4 ?q = Some ?cq" "ca_wf (q_ring_buffer ?cq)" "ca_list (q_ring_buffer ?cq) = []" "0 < ca_bound (q_ring_buffer ?cq)"
      "1 \<le> q_ref_counter ?cq" using q(2-4) by (simp_all add: st4_def)
  have k4: "o_kernels (cq_objs st4) kp = Some (new_cl_kernel (Some pp))" "k_program (new_cl_kernel (Some pp)) = Some pp"
      "o_programs (cq_objs st4) pp = Some prog" using k by (simp_all add: st4_def new_cl_kernel_def)
  have wg: "ml_check_wg_size (g_env gl) (m_xml_name prog) l = FPML_SUCCESS" using gl(6) k(4) by simp
  obtain st5 r5 n where enq: "clEnqueueNDRangeKernel (g_env gl) gb (Some ?q) (Some kp) 1 goff (Some gs) (Some l) st4 = Inr (CL_SUCCESS, st5)"
    and w5: "cq_ml st5 = put_objs ((cq_objs st4)\<lparr>o_next := Suc ?e, o_events := (o_events (cq_objs st4))(?e \<mapsto> new_cl_event),
      o_kernels := (o_kernels (cq_objs st4))(kp \<mapsto> ref_cnt_up (new_cl_kernel (Some pp)))\<rparr>) (cq_ml st4)"
    and q5: "cq_queues st5 = (cq_queues st4)(?q \<mapsto> ?cq\<lparr>q_ring_buffer := r5\<rparr>)" "ca_wf r5"
      "ca_list r5 = [\<lparr>m_command_type = NDRANGE, m_command_id = n, m_event = Some ?e,
      m_body = NDR (Some kp) 1 (case goff of None \<Rightarrow> [0, 0, 0] | Some x \<Rightarrow> [x, 0, 0]) [gs, 1, 1] [l, 0, 0]\<rparr>]" "?q \<in> cq_sent st5"
    using enqueue_kernel_ok [OF q4 g k4 wg K(3,4), of goff] by (elim exE conjE) (rule that)
  have w0: "\<exists>s. cq_ml st5 = put_objs s (g_ml gl)" unfolding w5 by (simp add: st4_def k(1)) blast
  have ready: "start_ready (g_env gl) name ?K (cq_ml st5)" using w0 gl(2) by auto
  have sch: "length (ss_schedulers (ml_sched (cq_ml st5))) = length prs" using w0 gl(3) by (auto simp: put_objs_def)
  let ?cq5 = "?cq\<lparr>q_ring_buffer := r5\<rparr>"
  have kq: "kernel_queued (g_env gl) ?q ?cq5 (hd (ca_list r5)) [] ?e st5"
    by (rule first_kernel_queued [OF ready refl K(1,2) l0, where k = "ref_cnt_up (new_cl_kernel (Some pp))" and pp = pp and prog = prog])
      (use q5 k4 k(4) in \<open>auto simp: w5 ref_cnt_up_def new_cl_kernel_def\<close>)
  have "libev_ok (e_libev (g_env gl))" "1 \<le> q_ref_counter ?cq5" "ns_ndranges (ss_store (ml_sched (cq_ml st5))) = Map.empty"
    using lv gl(4) ready by (simp_all add: start_ready_def)
  note loop = launch_loop [OF this(1) kq this(2,3) q5(4), unfolded sch]
  show ?thesis using gl(1) p q(1) [folded st4_def] enq loop by blast
qed

theorem session_runs_kernel_witness:
  "\<exists>gl kp q st4 st5 st6. new_Global demo_launch_env (demo_store\<lparr>ns_ndranges := Map.empty\<rparr>) demo_uw = Inr gl \<and>
    clEnqueueNDRangeKernel (g_env gl) ML_SUCCESS (Some q) (Some kp) 1 None (Some 32) (Some 16) st4 = Inr (CL_SUCCESS, st5) \<and>
    (loop_step (g_env gl) ^^ 2) st5 st6 \<and>
    (\<forall>is. set is \<subseteq> {..<2} \<and> (\<forall>i<2. count_list is i = length (queues (ml_sched (cq_ml st6)) ! i)) \<longrightarrow>
       (\<exists>st7. expire_timers (g_env gl) is st6 = Some (Inr st7) \<and> q \<in> cq_fed st7 \<and>
          ns_ndranges (ss_store (ml_sched (cq_ml st7))) (o_next (cq_objs st5)) = None \<and>
          event_state (cq_objs st7) (o_next (cq_objs st4)) = Inr CL_COMPLETE))"
proof -
  have n: "ns_ndranges (demo_store\<lparr>ns_ndranges := Map.empty\<rparr>) = Map.empty" "length demo_regions = 2"
    by (simp_all add: demo_regions_def)
  have "\<forall>c\<in>set ''k.xml''. c \<notin> {CHR 0x00, CHR 0x0A, CHR ''/'', CHR '' ''}" "CHR 0x00 \<notin> set ''x''"
    "length (''//'' @ ''k.xml'' @ [CHR 0x0A] @ ''x'' @ [CHR 0x00]) \<le> 2 ^ 64" "length ''k.xml'' \<le> 61" by simp_all
  note c = this
  have "ML_SUCCESS \<noteq> ML_ERROR_CMDQ_RELEASED" by simp
  from session_runs_kernel [OF demo_can_launch n(1) this c(1,2) refl c(3,4), of demo_uw 3 "\<lambda>_. undefined" None, unfolded n(2)]
  obtain gl kp q st4 st5 st6 where "new_Global demo_launch_env (demo_store\<lparr>ns_ndranges := Map.empty\<rparr>) demo_uw = Inr gl"
      "clEnqueueNDRangeKernel (g_env gl) ML_SUCCESS (Some q) (Some kp) 1 None (Some 32) (Some 16) st4 = Inr (CL_SUCCESS, st5)"
      "(loop_step (g_env gl) ^^ 2) st5 st6"
      "\<forall>is. set is \<subseteq> {..<2} \<and> (\<forall>i<2. count_list is i = length (queues (ml_sched (cq_ml st6)) ! i)) \<longrightarrow>
       (\<exists>st7. expire_timers (g_env gl) is st6 = Some (Inr st7) \<and> q \<in> cq_fed st7 \<and>
          ns_ndranges (ss_store (ml_sched (cq_ml st7))) (o_next (cq_objs st5)) = None \<and>
          event_state (cq_objs st7) (o_next (cq_objs st4)) = Inr CL_COMPLETE)"
    by (elim exE conjE) (rule that)
  then show ?thesis by (intro exI conjI)
qed

end
