(* ===== verification/Queue_Threads.thy ===== *)
theory Queue_Threads
  imports Cmd_Queue
begin

text \<open>
  The callback of a queue in small steps. \<^const>\<open>on_new_cmd_cb\<close> is one step of the model's runs, but the
  mutex of \<^verbatim>\<open>cpp/cmd_q.cc\<close> guards only the single operations on the ring, so that a thread that
  enqueues a command can get in between two of them. Here the callback is a sequence of the steps
  between which the mutex is free. Two things are shown: steps that nobody disturbs make up
  \<^const>\<open>on_new_cmd_cb\<close>; and a command pushed between any two of them has the effect it has
  when pushed before the callback or after it. A release in between does not: it can delete a queue
  that holds a command.
\<close>

section \<open>The steps\<close>

text \<open>Where the callback is: before one of its uses of the queue, with the command it has taken.\<close>

datatype cb_point =
    At_is_empty | At_last_event | At_pop | At_dispatch mlcl_command | At_is_empty_again mlcl_command
  | At_destroy_after mlcl_command | At_delete mlcl_command | At_destroy | At_return

(* src/cpp/cmd_q.cc:7-62 on_new_cmd_cb (steps) *)
fun cb_step :: "ml_env \<Rightarrow> ptr \<Rightarrow> cb_point \<times> cq_state \<Rightarrow> (cb_point \<times> cq_state) res" where
  "cb_step env q (At_is_empty, st) =
     bindr (deref (cq_queues st) q) (\<lambda>cq.
       Inr (if cq_is_empty cq then At_destroy else At_last_event, st))"
| "cb_step env q (At_destroy, st) = bindr (check_self_destroy q st) (\<lambda>st1. Inr (At_return, st1))"
| "cb_step env q (At_last_event, st) =
     bindr (deref (cq_queues st) q) (\<lambda>cq.
     bindr (case q_last_event cq of None \<Rightarrow> Inr CL_COMPLETE | Some l \<Rightarrow> event_state (cq_objs st) l) (\<lambda>last.
       Inr (if last \<noteq> CL_COMPLETE then At_return else At_pop, st)))"
| "cb_step env q (At_pop, st) =
     bindr (deref (cq_queues st) q) (\<lambda>cq.
     bindr (cq_pop_front cq) (\<lambda>(c, cq1).
       case c of None \<Rightarrow> Inl Null_deref | Some cmd \<Rightarrow> Inr (At_dispatch cmd, set_queue q cq1 st)))"
| "cb_step env q (At_dispatch cmd, st) =
     bindr (set_last_event q (m_event cmd) st) (\<lambda>st1.
     bindr (handle_a_cmd env cmd (cq_ml st1)) (\<lambda>(w2, cbs).
     bindr (foldr_res on_event_complete cbs (st1\<lparr>cq_ml := w2\<rparr>)) (\<lambda>st3.
       Inr (At_is_empty_again cmd, st3))))"
| "cb_step env q (At_is_empty_again cmd, st) =
     bindr (deref (cq_queues st) q) (\<lambda>cq.
       if cq_is_empty cq then Inr (At_destroy_after cmd, st)
       else bindr (nonnull (q_last_event cq)) (\<lambda>l. bindr (event_state (cq_objs st) l) (\<lambda>s.
              Inr (if s = CL_COMPLETE then (At_delete cmd, st\<lparr>cq_fed := insert q (cq_fed st)\<rparr>)
                   else (At_destroy_after cmd, st)))))"
| "cb_step env q (At_destroy_after cmd, st) = bindr (check_self_destroy q st) (\<lambda>st1. Inr (At_delete cmd, st1))"
| "cb_step env q (At_delete cmd, st) =
     bindr (delete_command cmd (cq_objs st)) (\<lambda>s. Inr (At_return, with_objs s st))"
| "cb_step env q (At_return, st) = Inr (At_return, st)"

fun cb_run :: "ml_env \<Rightarrow> ptr \<Rightarrow> nat \<Rightarrow> cb_point \<times> cq_state \<Rightarrow> (cb_point \<times> cq_state) res" where
  "cb_run env q 0 x = Inr x"
| "cb_run env q (Suc n) x = bindr (cb_step env q x) (cb_run env q n)"

lemma cb_run_add: "cb_run env q (m + n) x = bindr (cb_run env q m x) (cb_run env q n)"
proof (induction m arbitrary: x)
  case (Suc m)
  show ?case by (cases "cb_step env q x") (simp_all add: Suc.IH)
qed simp

lemma cb_run_return: "cb_run env q n (At_return, st) = Inr (At_return, st)"
  by (induction n) simp_all

lemma cb_run_first:
  "cb_run env q 7 x = bindr (cb_step env q x) (cb_run env q 6)" "cb_run env q 6 x = bindr (cb_step env q x) (cb_run env q 5)"
  "cb_run env q 5 x = bindr (cb_step env q x) (cb_run env q 4)" "cb_run env q 4 x = bindr (cb_step env q x) (cb_run env q 3)"
  using cb_run.simps(2) [of env q 6 x] cb_run.simps(2) [of env q 5 x] cb_run.simps(2) [of env q 4 x] cb_run.simps(2) [of env q 3 x]
  by simp_all

section \<open>Undisturbed, the steps make up the callback\<close>

lemma cb_run_dispatched:
  "cb_run env q 4 (At_dispatch cmd, st) = bindr (serve_command env q cmd st) (\<lambda>st'. Inr (At_return, st'))"
proof -
  have tail: "cb_run env q 3 (At_is_empty_again cmd, st3) =
      bindr (go_on q st3) (\<lambda>st4. bindr (delete_command cmd (cq_objs st4)) (\<lambda>s. Inr (At_return, with_objs s st4)))" for st3
    by (cases "cq_queues st3 q")
      (auto simp: numeral_3_eq_3 go_on_def bindr_assoc deref_def check_self_destroy_def intro!: bindr_cong)
  show ?thesis
    by (auto simp: cb_run_first serve_command_def bindr_assoc split_beta tail simp del: cb_step.simps(6) intro!: bindr_cong)
qed

lemma cb_run_whole: "cb_run env q 7 (At_is_empty, st) = bindr (on_new_cmd_cb env q st) (\<lambda>st'. Inr (At_return, st'))"
proof (cases "cq_queues st q")
  case None
  then show ?thesis by (simp add: cb_run_first on_new_cmd_cb_def)
next
  case (Some cq)
  show ?thesis
  proof (cases "cq_is_empty cq")
    case True
    then show ?thesis using Some
      by (simp add: cb_run_first(1,2) on_new_cmd_cb_def bindr_assoc cb_run_return)
  next
    case False
    have pop: "cb_run env q 5 (At_pop, st) = bindr (bindr (cq_pop_front cq) (\<lambda>(c, cq1). case c of None \<Rightarrow> Inl Null_deref
          | Some cmd \<Rightarrow> serve_command env q cmd (set_queue q cq1 st))) (\<lambda>st'. Inr (At_return, st'))"
      using Some by (auto simp: cb_run_first(3) bindr_assoc split_beta cb_run_dispatched intro!: bindr_cong split: option.split)
    show ?thesis using Some False
      by (auto simp: cb_run_first(1,2) on_new_cmd_cb_def bindr_assoc pop cb_run_return intro!: bindr_cong)
  qed
qed

theorem undisturbed_steps_are_callback:
  assumes "cb_run env q n (At_is_empty, st) = Inr (At_return, st')"
  shows "on_new_cmd_cb env q st = Inr st'"
proof -
  have "cb_run env q (n + 7) (At_is_empty, st) = Inr (At_return, st')"
    using assms by (simp add: cb_run_add cb_run_return)
  then have "cb_run env q (7 + n) (At_is_empty, st) = Inr (At_return, st')" by (simp only: add.commute)
  then show ?thesis unfolding cb_run_add cb_run_whole by (auto simp: bindr_Inr_iff cb_run_return)
qed

section \<open>A push between two steps\<close>

text \<open>Pushing and popping commute on a ring that is neither empty nor full.\<close>

lemma pop_push_commute:
  assumes wf: "ca_wf c" and ne: "ca_list c \<noteq> []" and room: "length (ca_list c) < ca_bound c"
    and pop: "ca_pop_front c = Inr (x, c1)" and push: "ca_push_back c v False = Inr (r, c')"
  shows "\<exists>c1'. ca_pop_front c' = Inr (x, c1') \<and> ca_push_back c1 v False = Inr (r, c1')"
proof -
  note D = ca_wfD [OF wf]
  let ?s = "unat (ca_start c)" and ?n = "unat (ca_size c)" and ?b = "ca_bound c"
  define k where "k = (ca_start c + ca_size c) mod ca_capacity c"
  define s' where "s' = (ca_start c + 1) mod ca_capacity c"
  have pos: "0 < ?b" using room by simp
  have n: "0 < ?n" "?n < ?b" "?s < ?b"
    using ne room D(2) D(4) [OF pos] by (simp_all flip: length_greater_0_conv)
  have cap: "ca_capacity c \<noteq> 0" using pos by (simp add: ca_capacity_nonzero)
  have k: "unat k = (?s + ?n) mod ?b" using ca_slot_unat [OF wf _ pos] D by (simp add: k_def)
  have s': "unat s' = (?s + 1) mod ?b" using ca_slot_unat [OF wf _ pos, of 1] pos D by (simp add: s'_def)
  have nz: "ca_size c \<noteq> 0" "ca_size c \<noteq> ca_capacity c" using n by (auto simp: ca_bound_def)
  have n1: "unat (ca_size c - 1) = ?n - 1" by (rule unat_dec [OF nz(1)])
  have ks: "unat k \<noteq> ?s"
  proof
    assume "unat k = ?s"
    moreover have "(?s + ?n) mod ?b = (if ?s + ?n < ?b then ?s + ?n else ?s + ?n - ?b)"
      using n by (simp add: mod_if)
    ultimately show False using n k by (simp split: if_splits)
  qed
  have kl: "unat k < length (ca_array c)" using k pos D by simp
  have c1: "c1 = c\<lparr>ca_size := ca_size c - 1, ca_start := s'\<rparr>" "x = ca_array c ! ?s"
    using pop nz cap by (auto simp: ca_pop_front_def popped_or_throw_def ca_pop_front_ref_def bindr_Inr_iff arr_load_def
        u64_mod_def s'_def split: if_splits)
  have c': "c' = c\<lparr>ca_array := (ca_array c)[unat k := v], ca_size := ca_size c + 1\<rparr>" "r = SUCCESS"
    using push nz cap kl by (auto simp: ca_push_back_def ca_store_back_def bindr_Inr_iff arr_store_def u64_mod_def k_def [symmetric])
  have wf1: "ca_wf c1" using wf n1 s' pos D by (intro ca_wfI) (simp_all add: c1(1) ca_bound_def)
  have "unat ((s' + (ca_size c - 1)) mod ca_capacity c) = (unat s' + unat (ca_size c - 1)) mod ?b"
    using ca_slot_unat [OF wf1, of "ca_size c - 1"] pos n1 n by (simp add: c1(1) ca_bound_def)
  also have "\<dots> = (?s + 1 + (?n - 1)) mod ?b" unfolding s' n1 by (rule mod_add_left_eq)
  also have "?s + 1 + (?n - 1) = ?s + ?n" using n(1) by simp
  finally have k1: "(s' + (ca_size c - 1)) mod ca_capacity c = k" using k by (simp add: word_unat_eq_iff)
  have "unat (ca_size c + 1) = Suc ?n" using room D by (subst unat_inc_nowrap) (auto simp: max_new_def)
  then have "ca_size c + 1 \<noteq> 0" by (metis nat.distinct(1) unat_0)
  then have "ca_pop_front c' = Inr (x, c\<lparr>ca_array := (ca_array c)[unat k := v], ca_size := ca_size c, ca_start := s'\<rparr>)"
    using n cap ks D by (simp add: ca_pop_front_def popped_or_throw_def ca_pop_front_ref_def c' c1(2) arr_load_def u64_mod_def s'_def)
  moreover have "ca_size c - 1 \<noteq> ca_capacity c" using n n1 by (auto simp: ca_bound_def)
  then have "ca_push_back c1 v False = Inr (r, c\<lparr>ca_array := (ca_array c)[unat k := v], ca_size := ca_size c, ca_start := s'\<rparr>)"
    using nz kl cap k1 D n by (simp add: ca_push_back_def ca_store_back_def c1(1) c'(2) arr_store_def u64_mod_def)
  ultimately show ?thesis by blast
qed

text \<open>A queue that accepts commands.\<close>

definition q_alive :: "ptr \<Rightarrow> cq_state \<Rightarrow> bool" where
  "q_alive q st \<longleftrightarrow> (\<exists>cq. cq_queues st q = Some cq \<and> 1 \<le> q_ref_counter cq \<and>
     ca_wf (q_ring_buffer cq) \<and> 1 < ca_bound (q_ring_buffer cq))"

definition ring_of :: "ptr \<Rightarrow> cq_state \<Rightarrow> mlcl_command circ_array" where
  "ring_of q st = q_ring_buffer (the (cq_queues st q))"

text \<open>What a push does: another ring, and the watcher is marked.\<close>

definition with_ring :: "ptr \<Rightarrow> mlcl_command circ_array \<Rightarrow> cq_state \<Rightarrow> cq_state" where
  "with_ring q r st = st\<lparr>cq_queues := (cq_queues st)(q := map_option (\<lambda>cq. cq\<lparr>q_ring_buffer := r\<rparr>) (cq_queues st q)),
     cq_sent := insert q (cq_sent st)\<rparr>"

lemma push_with_ring:
  assumes "q_alive q st"
  shows "cq_push_back g q c st = Inr (rc, st') \<longleftrightarrow>
    rc = g \<and> (\<exists>y r. ca_push_back (ring_of q st) c False = Inr (y, r) \<and> st' = with_ring q r st)"
  using assms
  by (auto simp: q_alive_def ring_of_def cq_push_back_def with_ring_def set_queue_def bindr_Inr_iff Let_def)

lemma with_ring_simps [simp]:
  "cq_ml (with_ring q r st) = cq_ml st" "cq_fed (with_ring q r st) = cq_fed st"
  by (simp_all add: with_ring_def)

text \<open>Steps that do not look at the ring neither notice a push nor undo it.\<close>

definition quiet :: "cb_point \<Rightarrow> bool" where
  "quiet pt \<longleftrightarrow> pt \<notin> {At_is_empty, At_pop} \<and> (\<forall>c. pt \<noteq> At_is_empty_again c)"

definition same_ring :: "ptr \<Rightarrow> cq_state \<Rightarrow> cq_state \<Rightarrow> bool" where
  "same_ring q st st1 \<longleftrightarrow> (\<exists>cq cq1. cq_queues st q = Some cq \<and> cq_queues st1 q = Some cq1 \<and>
     q_ring_buffer cq1 = q_ring_buffer cq \<and> q_ref_counter cq1 = q_ref_counter cq)"

lemma same_ringD:
  assumes "same_ring q st st1"
  shows "ring_of q st1 = ring_of q st" and "q_alive q st \<Longrightarrow> q_alive q st1"
  using assms by (auto simp: same_ring_def ring_of_def q_alive_def)

lemma callbacks_with_ring:
  "foldr_res on_event_complete cbs (with_ring q r st) =
     bindr (foldr_res on_event_complete cbs st) (\<lambda>st1. Inr (with_ring q r st1))"
proof (induction cbs arbitrary: st)
  case (Cons cb cbs)
  obtain p where p: "cb = On_event_complete p" by (cases cb)
  have "on_event_complete cb (with_ring q r st) = bindr (on_event_complete cb st) (\<lambda>s. Inr (with_ring q r s))"
    by (cases st; cases "cq_queues st p") (auto simp: p with_ring_def deref_def)
  then show ?case by (simp add: bindr_assoc Cons.IH)
qed simp

lemma callbacks_queues: "foldr_res on_event_complete cbs st = Inr st1 \<Longrightarrow> cq_queues st1 = cq_queues st"
proof (induction cbs arbitrary: st)
  case (Cons cb cbs)
  then show ?case by (cases cb) (fastforce simp: bindr_Inr_iff)
qed simp

lemma last_event_with_ring:
  assumes "cq_queues st q \<noteq> None"
  shows "set_last_event q e (with_ring q r st) = bindr (set_last_event q e st) (\<lambda>st1. Inr (with_ring q r st1))"
proof -
  obtain cq where cq: "cq_queues st q = Some cq" using assms by blast
  have c: "set_queue q (cq\<lparr>q_ring_buffer := r, q_last_event := e\<rparr>) (with_objs s (with_ring q r st)) =
      with_ring q r (set_queue q (cq\<lparr>q_last_event := e\<rparr>) (with_objs s st))" for s
    by (cases st; cases cq) (simp add: with_ring_def set_queue_def with_objs_def)
  have "cq_queues (with_ring q r st) q = Some (cq\<lparr>q_ring_buffer := r\<rparr>)" using cq by (simp add: with_ring_def)
  then show ?thesis using cq
    by (cases "q_last_event cq") (simp_all add: set_last_event_def bindr_assoc c)
qed

lemma quiet_step:
  assumes "q_alive q st" and "quiet pt"
  shows "cb_step env q (pt, with_ring q r st) = bindr (cb_step env q (pt, st)) (\<lambda>(pt1, st1). Inr (pt1, with_ring q r st1))"
    and "cb_step env q (pt, st) = Inr (pt1, st1) \<Longrightarrow> same_ring q st st1"
proof -
  obtain cq where cq: "cq_queues st q = Some cq" "1 \<le> q_ref_counter cq" using assms(1) by (auto simp: q_alive_def)
  have d: "check_self_destroy q st = Inr st" "check_self_destroy q (with_ring q r st) = Inr (with_ring q r st)"
    using cq by (simp_all add: check_self_destroy_def with_ring_def)
  have o: "with_objs s (with_ring q r st) = with_ring q r (with_objs s st)" for s
    by (simp add: with_ring_def with_objs_def)
  have m: "with_ring q r (s\<lparr>cq_ml := w\<rparr>) = (with_ring q r s)\<lparr>cq_ml := w\<rparr>" for s w
    by (simp add: with_ring_def)
  show "cb_step env q (pt, with_ring q r st) = bindr (cb_step env q (pt, st)) (\<lambda>(pt1, st1). Inr (pt1, with_ring q r st1))"
  proof (cases pt)
    case At_last_event
    have "cq_queues (with_ring q r st) q = Some (cq\<lparr>q_ring_buffer := r\<rparr>)" using cq by (simp add: with_ring_def)
    then show ?thesis using At_last_event cq by (cases "q_last_event cq") (simp_all add: bindr_assoc)
  next
    case (At_dispatch c)
    have ne: "cq_queues st q \<noteq> None" using cq by simp
    show ?thesis unfolding At_dispatch
      by (auto simp: last_event_with_ring [OF ne] bindr_assoc split_beta callbacks_with_ring simp flip: m intro!: bindr_cong)
  qed (use assms(2) d o in \<open>simp_all add: quiet_def bindr_assoc\<close>)
  assume s: "cb_step env q (pt, st) = Inr (pt1, st1)"
  show "same_ring q st st1"
  proof (cases pt)
    case (At_dispatch c)
    then show ?thesis using s cq
      by (auto simp: bindr_Inr_iff set_last_event_def same_ring_def split_beta dest!: callbacks_queues)
  qed (use s assms(2) d cq in \<open>auto simp: quiet_def bindr_Inr_iff same_ring_def\<close>)
qed

text \<open>The steps that use the ring commute with a push too, except where the ring is empty or full.\<close>

definition soft :: "ptr \<Rightarrow> cb_point \<Rightarrow> cq_state \<Rightarrow> bool" where
  "soft q pt st \<longleftrightarrow> quiet pt \<or> ca_list (ring_of q st) \<noteq> [] \<and>
     (pt = At_pop \<longrightarrow> length (ca_list (ring_of q st)) < ca_bound (ring_of q st))"

lemma push_square:
  assumes a: "q_alive q st" and s: "soft q pt st" and p: "cq_push_back g q c st = Inr (rc, st')"
  shows "cb_step env q (pt, st) = Inr (pt1, st1) \<Longrightarrow>
      q_alive q st1 \<and> (\<exists>st1'. cq_push_back g q c st1 = Inr (rc, st1') \<and> cb_step env q (pt, st') = Inr (pt1, st1'))"
    and "cb_step env q (pt, st) = Inl x \<Longrightarrow> cb_step env q (pt, st') = Inl x"
proof -
  obtain y r where r: "rc = g" "ca_push_back (ring_of q st) c False = Inr (y, r)" "st' = with_ring q r st"
    using p push_with_ring [OF a] by blast
  obtain cq where cq: "cq_queues st q = Some cq" "1 \<le> q_ref_counter cq" "ca_wf (q_ring_buffer cq)" "1 < ca_bound (q_ring_buffer cq)"
    using a by (auto simp: q_alive_def)
  have ro: "ring_of q st = q_ring_buffer cq" using cq(1) by (simp add: ring_of_def)
  have cq': "cq_queues st' q = Some (cq\<lparr>q_ring_buffer := r\<rparr>)" using cq(1) by (simp add: r(3) with_ring_def)
  have "(cb_step env q (pt, st) = Inr (pt1, st1) \<longrightarrow>
      q_alive q st1 \<and> (\<exists>st1'. cq_push_back g q c st1 = Inr (rc, st1') \<and> cb_step env q (pt, st') = Inr (pt1, st1'))) \<and>
    (cb_step env q (pt, st) = Inl x \<longrightarrow> cb_step env q (pt, st') = Inl x)"
  proof (cases "quiet pt")
    case True
    have "q_alive q st1 \<and> cq_push_back g q c st1 = Inr (rc, with_ring q r st1) \<and> cb_step env q (pt, st') = Inr (pt1, with_ring q r st1)"
      if h: "cb_step env q (pt, st) = Inr (pt1, st1)"
    proof -
      note sr = same_ringD [OF quiet_step(2) [OF a True h]]
      have "q_alive q st1" by (rule sr(2) [OF a])
      then show ?thesis using push_with_ring [of q st1 g c rc] sr(1) r quiet_step(1) [OF a True, of env r] h by auto
    qed
    then show ?thesis using quiet_step(1) [OF a True, of env r] r(3) by auto
  next
    case False
    have ne: "ca_list (q_ring_buffer cq) \<noteq> []" using s False ro by (simp add: soft_def)
    have len: "length (ca_list (q_ring_buffer cq)) \<le> ca_bound (q_ring_buffer cq)" by (rule ca_list_length [OF cq(3)])
    have ner: "ca_list r \<noteq> []"
    proof (cases "length (ca_list (q_ring_buffer cq)) = ca_bound (q_ring_buffer cq)")
      case True
      then show ?thesis using ca_push_back_full [OF cq(3), of c] r(2) ne ro by simp
    next
      case False
      then show ?thesis using ca_push_back_room [OF cq(3), of c False] len r(2) ro by auto
    qed
    have E: "\<not> cq_is_empty cq" "\<not> cq_is_empty (cq\<lparr>q_ring_buffer := r\<rparr>)" using ne ner by (simp_all add: cq_is_empty_def ca_empty_iff)
    have self: "q_alive q st \<and> (\<exists>st1'. cq_push_back g q c st = Inr (rc, st1') \<and> st1' = st')" using a p by simp
    consider "pt = At_is_empty" | "pt = At_pop" | d where "pt = At_is_empty_again d" using False by (auto simp: quiet_def)
    then show ?thesis
    proof cases
      case 1
      then show ?thesis using cq cq' E p a by auto
    next
      case (3 d)
      have al: "q_alive q (st\<lparr>cq_fed := F\<rparr>)" for F using a by (simp add: q_alive_def)
      have ro': "ring_of q (st\<lparr>cq_fed := F\<rparr>) = ring_of q st" for F by (simp add: ring_of_def)
      have wr: "with_ring q r (st\<lparr>cq_fed := F\<rparr>) = (with_ring q r st)\<lparr>cq_fed := F\<rparr>" for F
        by (cases st) (simp add: with_ring_def)
      have f: "q_alive q (st\<lparr>cq_fed := F\<rparr>)" "cq_push_back g q c (st\<lparr>cq_fed := F\<rparr>) = Inr (rc, st'\<lparr>cq_fed := F\<rparr>)" for F
        unfolding push_with_ring [OF al] ro' using al r wr by auto
      have ml: "cq_ml st' = cq_ml st" "cq_fed st' = cq_fed st" by (simp_all add: r(3))
      show ?thesis using cq cq' E p a f unfolding 3
        by (cases "q_last_event cq"; cases "event_state (cq_objs st) (the (q_last_event cq))") (auto simp: ml)
    next
      case 2
      have room: "length (ca_list (q_ring_buffer cq)) < ca_bound (q_ring_buffer cq)" using s False 2 ro by (simp add: soft_def)
      obtain r1 where r1: "cq_pop_front cq = Inr (Some (hd (ca_list (q_ring_buffer cq))), cq\<lparr>q_ring_buffer := r1\<rparr>)" "ca_wf r1"
          "ca_bound r1 = ca_bound (q_ring_buffer cq)"
        using cq_pop_front_ok [OF cq(3) E(1)] by blast
      have pop: "ca_pop_front (q_ring_buffer cq) = Inr (hd (ca_list (q_ring_buffer cq)), r1)"
        using r1(1) by (cases cq) (auto simp: cq_pop_front_def bindr_Inr_iff split: if_splits)
      obtain r2 where r2: "ca_pop_front r = Inr (hd (ca_list (q_ring_buffer cq)), r2)" "ca_push_back r1 c False = Inr (y, r2)"
        using pop_push_commute [OF cq(3) ne room pop r(2) [unfolded ro]] by blast
      let ?st1 = "set_queue q (cq\<lparr>q_ring_buffer := r1\<rparr>) st" and ?x = "hd (ca_list (q_ring_buffer cq))"
      have "ca_occupancy r \<noteq> 0" using ner ca_occupancy_length [of r] by auto
      then have "cq_pop_front (cq\<lparr>q_ring_buffer := r\<rparr>) = Inr (Some ?x, cq\<lparr>q_ring_buffer := r2\<rparr>)"
        using r2(1) by (simp add: cq_pop_front_def)
      then have S: "cb_step env q (pt, st') = Inr (At_dispatch ?x, with_ring q r2 ?st1)"
        using 2 cq' by (cases st) (simp add: r(3) with_ring_def set_queue_def)
      have T: "cb_step env q (pt, st) = Inr (At_dispatch ?x, ?st1)" using 2 cq(1) r1(1) by simp
      have al: "q_alive q ?st1" using cq(2,4) r1(2,3) by (simp add: q_alive_def)
      have "cq_push_back g q c ?st1 = Inr (rc, with_ring q r2 ?st1)"
        using push_with_ring [OF al, of g c] r(1) r2(2) by (simp add: ring_of_def)
      then show ?thesis using S T al by auto
    qed
  qed
  then show "cb_step env q (pt, st) = Inr (pt1, st1) \<Longrightarrow>
      q_alive q st1 \<and> (\<exists>st1'. cq_push_back g q c st1 = Inr (rc, st1') \<and> cb_step env q (pt, st') = Inr (pt1, st1'))"
    and "cb_step env q (pt, st) = Inl x \<Longrightarrow> cb_step env q (pt, st') = Inl x" by blast+
qed

text \<open>
  Up to the one step at which the ring may be empty or full, a push can be moved to the front; from
  there on it can be moved to the end.
\<close>

definition calm :: "ptr \<Rightarrow> cb_point \<Rightarrow> cq_state \<Rightarrow> bool" where
  "calm q pt st \<longleftrightarrow> pt \<in> {At_destroy, At_return} \<or> (\<exists>d. pt = At_destroy_after d \<or> pt = At_delete d) \<or>
     (\<exists>d. pt = At_dispatch d \<or> pt = At_is_empty_again d) \<and> ca_list (ring_of q st) \<noteq> []"

lemma calm_step:
  assumes a: "q_alive q st" and s: "cb_step env q (pt, st) = Inr (pt1, st1)"
  shows "calm q pt st \<Longrightarrow> soft q pt st \<and> calm q pt1 st1" and "\<not> soft q pt st \<Longrightarrow> calm q pt1 st1"
    and "q_alive q st1"
proof -
  obtain cq where cq: "cq_queues st q = Some cq" "1 \<le> q_ref_counter cq" "ca_wf (q_ring_buffer cq)" "1 < ca_bound (q_ring_buffer cq)"
    using a by (auto simp: q_alive_def)
  have ro: "ring_of q st = q_ring_buffer cq" using cq(1) by (simp add: ring_of_def)
  have len: "length (ca_list (q_ring_buffer cq)) \<le> ca_bound (q_ring_buffer cq)" by (rule ca_list_length [OF cq(3)])
  show c: "soft q pt st \<and> calm q pt1 st1" if k: "calm q pt st"
  proof -
    have so: "soft q pt st" using k by (auto simp: calm_def soft_def quiet_def)
    show ?thesis
    proof (cases "\<exists>d. pt = At_dispatch d")
      case True
      then have "quiet pt" by (auto simp: quiet_def)
      then show ?thesis using k so True s same_ringD(1) [OF quiet_step(2) [OF a _ s]] by (auto simp: calm_def bindr_Inr_iff split_beta)
    next
      case False
      then show ?thesis using k so s by (auto simp: calm_def bindr_Inr_iff split: if_splits)
    qed
  qed
  have ne: "\<not> cq_is_empty cq" if "pt = At_pop"
    using s cq(1) that by (auto simp: cq_is_empty_def ca_empty_def cq_pop_front_def ca_occupancy_def bindr_Inr_iff split: if_splits)
  have pop: "\<exists>d r. cb_step env q (At_pop, st) = Inr (At_dispatch d, set_queue q (cq\<lparr>q_ring_buffer := r\<rparr>) st) \<and> ca_wf r \<and>
      ca_bound r = ca_bound (q_ring_buffer cq) \<and> ca_list r = tl (ca_list (q_ring_buffer cq))" if "pt = At_pop"
    using cq_pop_front_ok [OF cq(3) ne [OF that]] cq(1) by auto
  show "calm q pt1 st1" if n: "\<not> soft q pt st"
  proof -
    consider "pt = At_is_empty" | "pt = At_pop" | d where "pt = At_is_empty_again d" using n by (auto simp: soft_def quiet_def)
    then show ?thesis
    proof cases
      case 2
      have "ca_list (q_ring_buffer cq) \<noteq> []" using ne [OF 2] by (simp add: cq_is_empty_def ca_empty_iff)
      then have "length (ca_list (q_ring_buffer cq)) = ca_bound (q_ring_buffer cq)" using n 2 ro len by (auto simp: soft_def)
      then have "tl (ca_list (q_ring_buffer cq)) \<noteq> []" using cq(4) by (cases "ca_list (q_ring_buffer cq)") auto
      then show ?thesis using pop [OF 2] s 2 by (auto simp: calm_def ring_of_def)
    qed (use s n cq ro in \<open>auto simp: calm_def soft_def cq_is_empty_def ca_empty_iff bindr_Inr_iff split: if_splits\<close>)
  qed
  show "q_alive q st1"
  proof (cases "quiet pt")
    case True
    then show ?thesis using same_ringD(2) [OF quiet_step(2) [OF a True s] a] by blast
  next
    case False
    then consider "pt = At_is_empty" | "pt = At_pop" | d where "pt = At_is_empty_again d" by (auto simp: quiet_def)
    then show ?thesis
    proof cases
      case 2
      then show ?thesis using pop [OF 2] s cq by (auto simp: q_alive_def)
    qed (use s cq a in \<open>auto simp: q_alive_def bindr_Inr_iff split: if_splits\<close>)
  qed
qed

lemma push_total: "q_alive q st \<Longrightarrow> \<exists>st'. cq_push_back g q c st = Inr (g, st')"
proof -
  assume a: "q_alive q st"
  obtain cq where cq: "cq_queues st q = Some cq" "ca_wf (q_ring_buffer cq)" using a by (auto simp: q_alive_def)
  obtain r where "drop_result (ca_push_back (q_ring_buffer cq) c False) = Inr r" using ca_fifo.enq_total [OF cq(2), of c]
    by (auto simp: ca_enq_def)
  then show ?thesis using push_with_ring [OF a] cq(1)
    by (cases "ca_push_back (q_ring_buffer cq) c False") (auto simp: ring_of_def)
qed

lemma calm_run:
  assumes "q_alive q st" and "calm q pt st" and "cq_push_back g q c st = Inr (rc, st')"
    and "cb_run env q n (pt, st') = Inr (pt2, st2')"
  shows "\<exists>st2. cb_run env q n (pt, st) = Inr (pt2, st2) \<and> cq_push_back g q c st2 = Inr (rc, st2')"
  using assms
proof (induction n arbitrary: pt st st')
  case (Suc n)
  have so: "soft q pt st" using Suc.prems(2) by (auto simp: calm_def soft_def quiet_def)
  note sq = push_square [OF Suc.prems(1) so Suc.prems(3), of env]
  show ?case
  proof (cases "cb_step env q (pt, st)")
    case (Inl x)
    then show ?thesis using sq(2) Suc.prems(4) by auto
  next
    case (Inr x1)
    obtain pt1 st1 where x1: "x1 = (pt1, st1)" by (cases x1)
    obtain st1' where st1': "q_alive q st1" "cq_push_back g q c st1 = Inr (rc, st1')" "cb_step env q (pt, st') = Inr (pt1, st1')"
      using sq(1) Inr x1 by blast
    have "calm q pt1 st1" using calm_step(1) [OF Suc.prems(1) _ Suc.prems(2)] Inr x1 by blast
    then show ?thesis using Suc.IH [OF st1'(1) _ st1'(2)] Suc.prems(4) st1'(3) Inr x1 by auto
  qed
qed simp

lemma run_alive: "q_alive q st \<Longrightarrow> cb_run env q k (pt, st) = Inr (pt1, st1) \<Longrightarrow> q_alive q st1"
proof (induction k arbitrary: pt st)
  case (Suc k)
  then obtain p2 s2 where "cb_step env q (pt, st) = Inr (p2, s2)" "cb_run env q k (p2, s2) = Inr (pt1, st1)"
    by (auto simp: bindr_Inr_iff)
  then show ?case using calm_step(3) [OF Suc.prems(1)] Suc.IH by blast
qed simp

lemma calm_or_first:
  assumes "q_alive q st" and "cb_run env q k (At_is_empty, st) = Inr (pt, st1)" and "cq_push_back g q c st1 = Inr (rc, st1')"
  shows "calm q pt st1 \<or> (\<exists>st'. cq_push_back g q c st = Inr (rc, st') \<and> cb_run env q k (At_is_empty, st') = Inr (pt, st1'))"
  using assms(2,3)
proof (induction k arbitrary: pt st1 st1')
  case 0
  then show ?case by simp
next
  case (Suc k)
  have k1: "cb_run env q (Suc k) x = bindr (cb_run env q k x) (cb_step env q)" for x
  proof -
    have z: "bindr y (cb_run env q 0) = y" for y by (cases y) simp_all
    have "cb_run env q 1 y = cb_step env q y" for y using z by simp
    then show ?thesis using cb_run_add [of env q k 1 x] by (cases "cb_run env q k x") simp_all
  qed
  obtain pt0 st0 where s0: "cb_run env q k (At_is_empty, st) = Inr (pt0, st0)" "cb_step env q (pt0, st0) = Inr (pt, st1)"
    using Suc.prems(1) unfolding k1 by (auto simp: bindr_Inr_iff)
  have a0: "q_alive q st0" by (rule run_alive [OF assms(1) s0(1)])
  obtain st0' where p0: "cq_push_back g q c st0 = Inr (g, st0')" using push_total [OF a0] by blast
  have g: "rc = g" using Suc.prems(2) push_with_ring [OF calm_step(3) [OF a0 s0(2)]] by blast
  show ?case
  proof (cases "calm q pt0 st0 \<or> \<not> soft q pt0 st0")
    case True
    then show ?thesis using calm_step(1,2) [OF a0 s0(2)] by blast
  next
    case False
    then obtain st' where st': "cq_push_back g q c st = Inr (g, st')" "cb_run env q k (At_is_empty, st') = Inr (pt0, st0')"
      using Suc.IH [OF s0(1)] p0 g by blast
    have "cb_step env q (pt0, st0') = Inr (pt, st1')"
      using push_square(1) [OF a0 _ p0 s0(2)] False Suc.prems(2) g by auto
    then show ?thesis using st' g unfolding k1 by auto
  qed
qed

section \<open>Examples\<close>

definition demo_push :: mlcl_command where
  "demo_push = \<lparr>m_command_type = WRITE_BUFFER, m_command_id = 14, m_event = Some 2, m_body = WB (Some 5) 0 3 (Some 100)\<rparr>"

definition demo_waiting :: "mlcl_command circ_array \<Rightarrow> cq_state" where
  "demo_waiting r = \<lparr>cq_ml = demo_mem_ml, cq_queues = [0 \<mapsto> \<lparr>q_ring_buffer = r, q_ref_counter = 1, q_last_event = None\<rparr>],
     cq_sent = {}, cq_fed = {}, cq_command_id = 14\<rparr>"

lemma demo_empty_ring: "\<exists>r :: mlcl_command circ_array. ca_wf r \<and> ca_list r = [] \<and> ca_bound r = 100"
proof -
  obtain r :: "mlcl_command circ_array" where r: "ca_new (\<lambda>_. undefined) 100 = Inr r"
    using ca_new_small [of 100] by (auto simp: max_new_def)
  then show ?thesis using ca_new_ok [OF r] by auto
qed

lemma demo_waiting_facts:
  assumes "ca_wf r" and "ca_list r = []" and "ca_bound r = 100"
  shows "q_alive 0 (demo_waiting r)"
    and "cq_queues (demo_waiting r) 0 = Some \<lparr>q_ring_buffer = r, q_ref_counter = 1, q_last_event = None\<rparr>"
  using assms by (simp_all add: q_alive_def demo_waiting_def)

section \<open>Theorems\<close>

text \<open>A command that another thread pushes between any two steps of the callback has the effect it has
  when it is pushed before the callback or after it.\<close>
theorem push_during_callback:
  assumes a: "q_alive q st" and k: "cb_run env q k (At_is_empty, st) = Inr (pt, st1)"
    and p: "cq_push_back g q c st1 = Inr (rc, st1')" and n: "cb_run env q n (pt, st1') = Inr (At_return, st2)"
  shows "(\<exists>st'. cq_push_back g q c st = Inr (rc, st') \<and> on_new_cmd_cb env q st' = Inr st2) \<or>
    (\<exists>st'. on_new_cmd_cb env q st = Inr st' \<and> cq_push_back g q c st' = Inr (rc, st2))"
proof (cases "calm q pt st1")
  case True
  obtain st3 where "cb_run env q n (pt, st1) = Inr (At_return, st3)" "cq_push_back g q c st3 = Inr (rc, st2)"
    using calm_run [OF run_alive [OF a k] True p n] by blast
  moreover from this have "cb_run env q (k + n) (At_is_empty, st) = Inr (At_return, st3)" by (simp add: cb_run_add k)
  ultimately show ?thesis using undisturbed_steps_are_callback by blast
next
  case False
  then obtain st' where st': "cq_push_back g q c st = Inr (rc, st')" "cb_run env q k (At_is_empty, st') = Inr (pt, st1')"
    using calm_or_first [OF a k p] by blast
  then have "cb_run env q (k + n) (At_is_empty, st') = Inr (At_return, st2)" by (simp add: cb_run_add n)
  then show ?thesis using st'(1) undisturbed_steps_are_callback by blast
qed

theorem push_during_callback_witness:
  "\<exists>st st1 st2. cb_run demo_ml_env 0 1 (At_is_empty, st) = Inr (At_destroy, st) \<and>
    cq_push_back ML_SUCCESS 0 demo_push st = Inr (ML_SUCCESS, st1) \<and>
    cb_run demo_ml_env 0 1 (At_destroy, st1) = Inr (At_return, st2) \<and>
    ((\<exists>st'. cq_push_back ML_SUCCESS 0 demo_push st = Inr (ML_SUCCESS, st') \<and> on_new_cmd_cb demo_ml_env 0 st' = Inr st2) \<or>
     (\<exists>st'. on_new_cmd_cb demo_ml_env 0 st = Inr st' \<and> cq_push_back ML_SUCCESS 0 demo_push st' = Inr (ML_SUCCESS, st2)))"
proof -
  obtain r :: "mlcl_command circ_array" where r: "ca_wf r" "ca_list r = []" "ca_bound r = 100" using demo_empty_ring by blast
  note d = demo_waiting_facts [OF r]
  have k: "cb_run demo_ml_env 0 1 (At_is_empty, demo_waiting r) = Inr (At_destroy, demo_waiting r)"
    using d(2) r(2) by (simp add: cq_is_empty_def ca_empty_iff)
  obtain st1 where p: "cq_push_back ML_SUCCESS 0 demo_push (demo_waiting r) = Inr (ML_SUCCESS, st1)"
    using push_total [OF d(1)] by blast
  have n: "cb_run demo_ml_env 0 1 (At_destroy, st1) = Inr (At_return, st1)"
    using p push_with_ring [OF d(1), of ML_SUCCESS demo_push ML_SUCCESS st1] d(2)
    by (auto simp: with_ring_def check_self_destroy_def)
  show ?thesis using push_during_callback [OF d(1) k p n] k p n by blast
qed

text \<open>A push and a release that get in between the callback's look at the empty ring and its look at the
  reference count delete the queue with the command in it. Before or after the callback, the queue
  would have kept the command.\<close>
theorem release_during_callback_loses_command:
  assumes q: "cq_queues st q = Some cq" "q_ref_counter cq = 1" "ca_wf (q_ring_buffer cq)" "ca_list (q_ring_buffer cq) = []"
      "1 < ca_bound (q_ring_buffer cq)"
  shows "\<exists>st1 cq1 st2 st3. cb_step env q (At_is_empty, st) = Inr (At_destroy, st) \<and>
    cq_push_back g q c st = Inr (g, st1) \<and> cq_queues st1 q = Some cq1 \<and> ca_list (q_ring_buffer cq1) = [c] \<and>
    ml_cmd_q_ref_cnt_down (Some q) st1 = Inr st2 \<and> cb_step env q (At_destroy, st2) = Inr (At_return, st3) \<and>
    cq_queues st3 q = None \<and> cq_objs st3 = cq_objs st \<and> on_new_cmd_cb env q st = Inr st"
proof -
  have a: "q_alive q st" using q by (simp add: q_alive_def)
  obtain r where r: "ca_push_back (q_ring_buffer cq) c False = Inr (SUCCESS, r)" "ca_list r = [c]"
    using ca_push_back_room [OF q(3), of c False] q(4,5) by auto
  have e: "cq_is_empty cq" using q(4) by (simp add: cq_is_empty_def ca_empty_iff)
  have p: "cq_push_back g q c st = Inr (g, with_ring q r st)"
    using push_with_ring [OF a, of g c] r(1) q(1) by (simp add: ring_of_def)
  have w: "cq_queues (with_ring q r st) q = Some (cq\<lparr>q_ring_buffer := r\<rparr>)" using q(1) by (simp add: with_ring_def)
  let ?st2 = "set_queue q (cq_ref_cnt_down (cq\<lparr>q_ring_buffer := r\<rparr>)) (with_ring q r st)"
  have "ml_cmd_q_ref_cnt_down (Some q) (with_ring q r st) = Inr ?st2" using w by (simp add: ml_cmd_q_ref_cnt_down_def)
  moreover have "cb_step env q (At_destroy, ?st2) = Inr (At_return, delete_queue q ?st2)"
    using q(2) by (simp add: check_self_destroy_def cq_ref_cnt_down_def)
  moreover have "on_new_cmd_cb env q st = Inr st" using q(1,2) e by (simp add: on_new_cmd_cb_def check_self_destroy_def)
  moreover have "cb_step env q (At_is_empty, st) = Inr (At_destroy, st)" using q(1) e by simp
  moreover have "cq_queues (delete_queue q ?st2) q = None" "cq_objs (delete_queue q ?st2) = cq_objs st"
    by (simp_all add: delete_queue_def)
  moreover have "ca_list (q_ring_buffer (cq\<lparr>q_ring_buffer := r\<rparr>)) = [c]" using r(2) by simp
  ultimately show ?thesis using p w by blast
qed

theorem release_during_callback_loses_command_witness:
  "\<exists>st st1 st2 st3. cb_step demo_ml_env 0 (At_is_empty, st) = Inr (At_destroy, st) \<and>
    cq_push_back ML_SUCCESS 0 demo_push st = Inr (ML_SUCCESS, st1) \<and> ml_cmd_q_ref_cnt_down (Some 0) st1 = Inr st2 \<and>
    cb_step demo_ml_env 0 (At_destroy, st2) = Inr (At_return, st3) \<and> cq_queues st3 0 = None"
proof -
  obtain r :: "mlcl_command circ_array" where r: "ca_wf r" "ca_list r = []" "ca_bound r = 100" using demo_empty_ring by blast
  show ?thesis
    using release_during_callback_loses_command [OF demo_waiting_facts(2) [OF r], of demo_ml_env ML_SUCCESS demo_push] r by auto
qed

end
