(* ===== verification/Spec2Isabelle.thy ===== *)
theory Spec2Isabelle
  imports Reachable Loop_Termination The_Buffer Driver_Module Launch_Session Queue_Threads
begin

text \<open>
  A verification of FPGAML, the middleware that lets an OpenCL program run its kernels on the
  programmable regions (islands) of FPGA boards.

  \<^bold>\<open>The program.\<close> An application calls the OpenCL functions of \<^verbatim>\<open>il/ocl_api.cc\<close>. They work on the
  objects of \<^verbatim>\<open>il/ocl_ds.h\<close> and pass commands through the facade (\<^verbatim>\<open>cpp/fpgaml.cc\<close>) to a command
  queue (\<^verbatim>\<open>cpp/cmd_q.cc\<close>), a ring buffer with a watcher. A second thread runs the event loop: the
  watcher's callback takes one command after the other to the dispatcher (\<^verbatim>\<open>cpp/dispatcher.cc\<close>). A
  write or read command moves the user's bytes through the unified-memory driver
  (\<^verbatim>\<open>cpp/unimem_manager.cc\<close>, \<^verbatim>\<open>unimem/driver_buffer\<close>). A kernel command becomes an index space
  (\<^verbatim>\<open>cpp/ndrange.cc\<close>), which one of two algorithms (\<^verbatim>\<open>cpp/algo_simple.cc\<close>, \<^verbatim>\<open>cpp/algo_slicing.cc\<close>)
  carves into ranges of work groups and submits to schedulers (\<^verbatim>\<open>cpp/scheduler_emu.cc\<close>). A
  scheduler emulates its region by a timer; the last range of a launch completes the command's
  event, whose callback wakes the queue. The global object (\<^verbatim>\<open>cpp/centrum.cc\<close>) builds all of this
  from a configuration file and a directory of bitstream descriptions.

  \<^bold>\<open>Conventions.\<close> \<open>size_t\<close> and \<open>unsigned\<close> are \<open>u64\<close> and \<open>u32\<close>, and wrap. An \<open>int\<close> that does
  arithmetic is an \<open>int\<close> whose overflow is the fault \<open>Int_overflow\<close>. What C++ leaves undefined, an
  exception and a failed assertion are values of \<^typ>\<open>fault\<close>; an operation that can meet one
  returns \<^typ>\<open>fault + 'a\<close>. Objects live in heaps, maps from addresses, one per class; a deleted
  object is absent, so that its use is the fault \<open>Dangling\<close> of \<^const>\<open>deref\<close>. The contents of fresh
  memory and the result of a function that ends without a return statement are arguments. Times
  are rationals in place of \<open>double\<close>. What is logged or printed is left out, but not what the
  arguments of the log calls read: the macros of the logger evaluate them always, so the kernel names in the
  messages of \<open>submit_wgr\<close>, \<open>on_timer\<close>, the slicing algorithm and the launch buffer are read through
  the launch, its kernel and the kernel's program, and reading them can fault.

  \<^bold>\<open>The theories.\<close>
  \<^item> \<open>Prelude\<close>: words, faults, heaps, bytes, and the lemmas the components share.
  \<^item> \<open>Queue_Interface\<close>: the locales of a bounded FIFO, as its clients need it.
  \<^item> \<open>Circ_Array\<close> (\<^verbatim>\<open>cpp/circ_array.hpp\<close>): every operation of the ring; a simulation with a deque
    over any sequence of operations; the interpretations of the FIFO locales from either end.
  \<^item> \<open>Ocl_Ds\<close> (\<^verbatim>\<open>il/ocl_ds.h\<close>): reference counting, events, kernels, memory objects, commands.
  \<^item> \<open>ND_Range\<close> (\<^verbatim>\<open>cpp/ndrange.cc\<close>): carving covers the groups in order and without overlap; the
    launch is complete with the last range that is outstanding.
  \<^item> \<open>Std_Lib\<close>, \<open>Wee_Config\<close> (\<^verbatim>\<open>cpp/wee_config.cc\<close>, \<^verbatim>\<open>cpp/sched_config_extractors.h\<close>): number
    parsing, \<open>std::map\<close>, typed lookups, the list of regions.
  \<^item> \<open>Bitstreams\<close> (\<^verbatim>\<open>cpp/bitstream_manager.cc\<close>, \<^verbatim>\<open>cpp/bitstream_check.h\<close>, \<^verbatim>\<open>cpp/tracker.cc\<close>,
    \<^verbatim>\<open>cpp/reconf_controller.cc\<close>): the directory's descriptions, their use, the cost tables.
  \<^item> \<open>Scheduler\<close> (\<^verbatim>\<open>cpp/scheduler_emu.cc\<close>, \<^verbatim>\<open>cpp/free_sched_mgr.cc\<close>, \<^verbatim>\<open>cpp/ev_timer.cc\<close>): queue,
    timer and free list. \<open>sched_inv\<close> ties the three together and holds in all reachable states;
    \<open>launches_inv\<close> counts the ranges and references of every launch and asks for the programs of
    their kernels; under both, every queued range drains, by timers that fire only while they run.
  \<^item> \<open>Unimem\<close> (\<^verbatim>\<open>cpp/unimem_manager.cc\<close>, \<^verbatim>\<open>unimem/driver_buffer\<close>): both ends of the protocol, byte
    by byte, and the round trip of the user's bytes.
  \<^item> \<open>Algo_Search\<close>, \<open>Algo_Simple\<close> (\<^verbatim>\<open>cpp/algo_simple.cc\<close>): the exhaustive search equals a fold over
    all distributions, so its result is the cheapest; the routed launch is what it says.
  \<^item> \<open>Algo_Slicing\<close> (\<^verbatim>\<open>cpp/algo_slicing.cc\<close>): the choice of a scheduler against its specification,
    and the launch that is completed between two slices.
  \<^item> \<open>Dispatcher\<close> (\<^verbatim>\<open>cpp/dispatcher.cc\<close>): the handlers, composed from the theories above.
  \<^item> \<open>The_Buffer\<close> (\<^verbatim>\<open>cpp/the_buffer.cc\<close>): the other entrance to the dispatcher.
  \<^item> \<open>Cmd_Queue\<close> (\<^verbatim>\<open>cpp/cmd_q.cc\<close>, \<^verbatim>\<open>cpp/fpgaml.cc\<close>): queues, the facade, and \<^const>\<open>loop_step\<close>, what
    the event loop can do.
  \<^item> \<open>Queue_Threads\<close>: the callback of a queue in the steps between which its mutex is free; undisturbed
    they are \<^const>\<open>on_new_cmd_cb\<close>, a push between them is one before or after, a release is not.
  \<^item> \<open>Ocl_Api\<close> (\<^verbatim>\<open>il/ocl_api.cc\<close>): the API; a call that blocks is a suspended call.
  \<^item> \<open>Lost_Events\<close>, \<open>Runs\<close>: steps of user threads and event loop in any interleaving
    (\<^const>\<open>runs\<close>), a call or a callback being one step, while time passes; a timer fires only when it is
    active; what no run can do.
  \<^item> \<open>Reachable\<close>: what holds in every state such a run reaches from start-up: queues, schedulers, their
    timers and the list of free schedulers agree. API calls leave \<open>core\<close> alone, handlers move the
    schedulers by steps of \<open>Scheduler\<close>, and the free timer's callback is treated apart.
  \<^item> \<open>Queue_Drain\<close>, \<open>Queue_Launch\<close>, \<open>Queue_Types\<close>, \<open>Loop_Termination\<close>, \<open>Ocl_Props\<close>: properties of
    the whole: a queue of memory commands drains, a kernel command is served and its queue woken,
    queues stay well-formed, the loop comes to rest, API round trips and bounds.
  \<^item> \<open>Driver_Module\<close> (\<^verbatim>\<open>unimem_buffer_alloc.c\<close>, from \<open>init_func\<close> on): loading and unloading the driver
    against the kernel's registration functions.
  \<^item> \<open>Blocking_Calls\<close>: \<^const>\<open>completes\<close>, how a waiting call ends when the event loop does its steps;
    blocking writes and reads move the user's bytes through every layer.
  \<^item> \<open>Sessions\<close>, \<open>Launch_Session\<close>: an application from start-up on, with a buffer over its own bytes
    and a read of it, or with a program, a kernel and a launch that is worked through.
  \<^item> \<open>Centrum\<close> (\<^verbatim>\<open>cpp/centrum.cc\<close>, \<^verbatim>\<open>cpp/sched_config_common.cc\<close>): start-up establishes the
    invariants the other theories assume.

  \<^bold>\<open>How the parts are tied.\<close> The ring discharges the FIFO locales once, and schedulers, command
  queues, both algorithms and the launch buffer use their facts. \<open>Centrum\<close> shows \<open>sched_inv\<close> and
  \<open>launches_inv\<close> for the state after start-up, \<open>Scheduler\<close> that its steps keep them, \<open>Algo_Simple\<close>
  that routing keeps them, and \<open>Queue_Launch\<close> that serving a kernel command does, with the callbacks
  of all events known to be queues that exist. The sessions start from \<open>can_start\<close> and \<open>can_launch\<close>,
  conditions on the environment only, and need no invariant assumed.

  \<^bold>\<open>Bounds and termination.\<close> There is no fuel. Loops over \<open>int\<close> counters end because the
  counter overflows at the latest; the search ends on the number of islands left and the share
  left. The event loop is a step relation. It has an infinite run only through the timer of the free
  schedulers, which restarts with no delay (\<open>Loop_Termination\<close>). The 32-bit counter of a launch's ranges needs
  fewer than \<open>2^32\<close> ranges, which is part of \<open>launches_inv\<close>.

  \<^bold>\<open>Parameters with laws.\<close> \<open>libev_ok\<close>: a timer that is started is active; one that is stopped, or
  fires without repetition, is not. \<open>linux_ok\<close>: the kernel's allocator hands out memory that was free, its copies
  between mapped ranges move all the bytes and change nothing else. \<open>chrdev_ok\<close>, \<open>sysfs_ok\<close>: a
  registration that fails registers nothing, and taking it back takes back just that. The loaded XML document, the environment and the contents of the
  directory are arguments without laws. \<open>demo_libev\<close>, \<open>demo_linux\<close> and \<open>demo_module_kernel\<close>
  satisfy the laws.

  \<^bold>\<open>What the theorems show of the program's faults.\<close> \<open>clFinish\<close> never returns and stalls its queue; a
  queue released with a command outstanding is used after its deletion, and one released while its
  callback looks at it can be deleted with a command in it; a program released while ranges of its
  kernels are queued makes the schedulers' timers fault; commands and ranges
  beyond 100 are dropped in silence; slicing completes a launch before its last groups are carved
  and takes identifiers for indices; a launch of no groups never completes; refused commands
  report a 1; a write of another size replaces a buffer whatever its offset, and the old block is
  lost; the driver does not check a message's length against its block.

  \<^bold>\<open>Not modelled.\<close> The vendored libraries (pugixml beyond its child lookups, libev, weelog) and the
  OpenCL headers beyond the constants in use;
  \<^verbatim>\<open>cpp/reconfiguration.h\<close>, an interactive program that nothing includes; \<^verbatim>\<open>cpp/sched_struct.h\<close>, which
  nothing uses; code inside \<open>#if 0\<close>; the test programs; printing. Mutexes appear as the atomicity
  of the operations they guard; races on data that no mutex guards are left out.
\<close>

end
